(* ===== verification/Prelude.thy ===== *)
theory Prelude
  imports Main "HOL-Library.Word" "HOL-Library.Multiset" "HOL-Library.AList"
begin

text \<open>
  Shared vocabulary of the development: the fixed-width integer types of the two programs
  (\<open>uint8_t\<close> to \<open>uint64_t\<close>; \<open>size_t\<close> is 64 bits wide), the first and last element of a list
  as an optional value (the head and tail pointer of an intrusive list, \<open>None\<close> being
  \<open>nullptr\<close>), and the facts on words, lists and association lists that several components use.
\<close>

type_synonym u8 = "8 word"
type_synonym u16 = "16 word"
type_synonym u32 = "32 word"
type_synonym u64 = "64 word"

named_theorems heap_frame \<open>what an operation leaves unchanged in a pointer store\<close>

section \<open>Ends of a list as optional values\<close>

fun first_or :: "'a option \<Rightarrow> 'a list \<Rightarrow> 'a option" where
  "first_or d [] = d"
| "first_or d (x # xs) = Some x"

definition last_or :: "'a option \<Rightarrow> 'a list \<Rightarrow> 'a option" where
  "last_or d xs = (if xs = [] then d else Some (last xs))"

lemma last_or_simps [simp]:
  "last_or d [] = d"
  "last_or d (xs @ [x]) = Some x"
  by (auto simp: last_or_def)

lemma last_or_Cons [simp]: "last_or d (x # xs) = last_or (Some x) xs"
  by (auto simp: last_or_def)

lemma last_or_append [simp]: "last_or d (xs @ ys) = last_or (last_or d xs) ys"
  by (auto simp: last_or_def)

lemma first_or_append [simp]: "first_or d (xs @ ys) = first_or (first_or d ys) xs"
  by (cases xs) auto

lemma first_or_None_iff [simp]: "first_or d xs = None \<longleftrightarrow> xs = [] \<and> d = None"
  by (cases xs) auto

lemma last_or_None_iff [simp]: "last_or d xs = None \<longleftrightarrow> xs = [] \<and> d = None"
  by (auto simp: last_or_def)

lemma disjoint_mono: "A \<inter> B = {} \<Longrightarrow> A' \<subseteq> A \<Longrightarrow> B' \<subseteq> B \<Longrightarrow> A' \<inter> B' = {}"
  by blast

lemma count_one_sep:
  assumes "count (A + B) x = 1" and "x \<in># A"
  shows "x \<notin># B"
proof
  assume "x \<in># B"
  then have "0 < count B x" "0 < count A x" using assms(2) by (metis count_greater_zero_iff)+
  with assms(1) show False by (simp only: count_union)
qed

section \<open>Words\<close>

lemma unat_min: "unat (min a b) = min (unat a) (unat b)" for a b :: "'a::len word"
  by (simp add: min_def word_le_nat_alt)

lemma word_sub_min_eq_0_iff: "(b - min a b = 0) = (b \<le> a)" for a b :: "'a::len word"
  by (auto simp: min_def)

lemma unat_sub_min: "unat (a - min a b) = unat a - unat b" for a b :: "'a::len word"
proof (cases "a \<le> b")
  case True
  then show ?thesis by (simp add: min_def word_le_nat_alt)
next
  case False
  then have "b \<le> a" by simp
  then show ?thesis using False by (simp add: min_def unat_sub)
qed

lemma word_neq_0_unat: "(a \<noteq> 0) = (0 < unat a)" for a :: "'a::len word"
  using word_gt_0 word_less_nat_alt by (metis unat_0)

lemma of_nat_u64_neq_0: "0 < n \<Longrightarrow> n < 2 ^ 64 \<Longrightarrow> (of_nat n :: u64) \<noteq> 0"
  by (auto simp: word_of_nat_eq_0_iff dest: nat_dvd_not_less)

lemma unat_of_nat_u64: "n < 2 ^ 64 \<Longrightarrow> unat (of_nat n :: u64) = n"
  by (simp add: unat_of_nat)

section \<open>Evaluation of stateful code\<close>

text \<open>
  Congruences that keep the simplifier from running the continuation of a sequence before its
  first part is a value.
\<close>

lemma option_bind_weak: "x = y \<Longrightarrow> Option.bind x f = Option.bind y f"
  by simp

lemma last_upt_numeral [simp]: "last [0..<numeral k] = pred_numeral k"
  by (simp add: numeral_eq_Suc)

lemma butlast_upt_numeral [simp]: "butlast [0..<numeral k] = [0..<pred_numeral k]"
  by (simp add: numeral_eq_Suc)

lemmas run_cong = let_weak_cong option_bind_weak

section \<open>Association lists as hash maps\<close>

lemma map_of_eq_Some_iff_mset:
  "distinct (map fst m) \<Longrightarrow> mset m = M \<Longrightarrow> map_of m k = Some v \<longleftrightarrow> (k, v) \<in># M"
  by auto

lemma mset_alist_delete:
  assumes "distinct (map fst m)" and "(k, v) \<in> set m"
  shows "mset m = add_mset (k, v) (mset (AList.delete k m))"
  using assms
proof (induction m)
  case Nil
  then show ?case by simp
next
  case (Cons e m)
  obtain k' v' where e: "e = (k', v')" by (cases e)
  show ?case
  proof (cases "k' = k")
    case True
    with Cons.prems e have "v' = v" and "k \<notin> fst ` set m"
      by (auto simp: image_iff)
    then have "AList.delete k m = m"
      by (simp add: delete_id)
    with e True \<open>v' = v\<close> show ?thesis by simp
  next
    case False
    with Cons.prems e have "distinct (map fst m)" "(k, v) \<in> set m" by auto
    then have "mset m = add_mset (k, v) (mset (AList.delete k m))" by (rule Cons.IH)
    with e False show ?thesis by simp
  qed
qed

lemma distinct_keys_delete: "distinct (map fst m) \<Longrightarrow> distinct (map fst (AList.delete k m))"
  by (rule distinct_delete)

lemma update_fresh: "k \<notin> fst ` set m \<Longrightarrow> AList.update k v m = m @ [(k, v)]"
  by (induction m) auto

end
