(* ===== verification/Lob_Map.thy ===== *)
theory Lob_Map
  imports Prelude
begin

text \<open>
  \<open>std::map\<close> with a comparator, as the order book uses it (\<open>bids_\<close> with
  \<open>std::greater\<close>, \<open>asks_\<close> with \<open>std::less\<close>): the list of its entries in iteration
  order. The locale states what the standard asks of a comparator (a strict total order here,
  since prices are integers) and proves the laws of insertion and erasure once for both orders.
\<close>

text \<open>\<open>m[k] = v\<close>: overwrite the entry of \<open>k\<close> or insert one where the comparator puts it.\<close>

fun map_assign :: "('k \<Rightarrow> 'k \<Rightarrow> bool) \<Rightarrow> 'k \<Rightarrow> 'v \<Rightarrow> ('k \<times> 'v) list \<Rightarrow> ('k \<times> 'v) list" where
  "map_assign lt k v [] = [(k, v)]"
| "map_assign lt k v ((k', v') # m) =
     (if lt k k' then (k, v) # (k', v') # m
      else if lt k' k then (k', v') # map_assign lt k v m
      else (k, v) # m)"

text \<open>\<open>m.erase(k)\<close>, by key or by an iterator at the entry of \<open>k\<close>.\<close>

definition map_erase :: "'k \<Rightarrow> ('k \<times> 'v) list \<Rightarrow> ('k \<times> 'v) list" where
  "map_erase k m = filter (\<lambda>e. fst e \<noteq> k) m"

lemma map_erase_simps [simp]:
  "map_erase k [] = []"
  "map_erase k ((k', v) # m) = (if k' = k then map_erase k m else (k', v) # map_erase k m)"
  "map_erase k (xs @ ys) = map_erase k xs @ map_erase k ys"
  by (auto simp: map_erase_def)

lemma map_erase_fresh: "k \<notin> fst ` set m \<Longrightarrow> map_erase k m = m"
  by (force simp: map_erase_def filter_id_conv)

locale comparator =
  fixes lt :: "'k \<Rightarrow> 'k \<Rightarrow> bool"
  assumes irrefl: "\<not> lt a a"
    and trans: "lt a b \<Longrightarrow> lt b c \<Longrightarrow> lt a c"
    and total: "a \<noteq> b \<Longrightarrow> lt a b \<or> lt b a"
begin

lemma asym: "lt a b \<Longrightarrow> \<not> lt b a"
  using irrefl trans by blast

lemma le_trans: "\<not> lt b a \<Longrightarrow> \<not> lt c b \<Longrightarrow> \<not> lt c a"
  using irrefl trans total by metis

lemma lt_le_trans: "lt a b \<Longrightarrow> \<not> lt c b \<Longrightarrow> lt a c"
  using trans total by metis

lemma le_lt_trans: "\<not> lt b a \<Longrightarrow> lt b c \<Longrightarrow> lt a c"
  using trans total by metis

lemma sorted_distinct: "sorted_wrt lt ks \<Longrightarrow> distinct ks"
  using irrefl by (induction ks) auto

text \<open>
  An assignment to a new key puts the entry between those that sort before it and those
  that sort after it.
\<close>

lemma assign_split:
  assumes "sorted_wrt lt (map fst m)" and "k \<notin> fst ` set m"
  shows "map_assign lt k v m =
    filter (\<lambda>e. lt (fst e) k) m @ (k, v) # filter (\<lambda>e. lt k (fst e)) m"
  using assms
proof (induction m)
  case Nil
  then show ?case by simp
next
  case (Cons e m)
  obtain k' v' where e: "e = (k', v')" by (cases e)
  from Cons.prems e have ne: "k' \<noteq> k" and rest: "\<And>x. x \<in> set m \<Longrightarrow> lt k' (fst x)" by auto
  show ?case
  proof (cases "lt k k'")
    case True
    have after: "\<And>x. x \<in> set m \<Longrightarrow> lt k (fst x)"
      using rest trans [OF True] by blast
    then have "\<And>x. x \<in> set m \<Longrightarrow> \<not> lt (fst x) k" using asym by blast
    then have "filter (\<lambda>e. lt (fst e) k) m = []" and "filter (\<lambda>e. lt k (fst e)) m = m"
      using after by (auto simp: filter_empty_conv filter_id_conv)
    with True e show ?thesis by (simp add: asym)
  next
    case False
    with ne total have "lt k' k" by blast
    with False Cons e show ?thesis by simp
  qed
qed

lemma set_assign_fresh:
  "sorted_wrt lt (map fst m) \<Longrightarrow> k \<notin> fst ` set m \<Longrightarrow> set (map_assign lt k v m) = insert (k, v) (set m)"
  using assign_split total by (fastforce simp: image_iff)

lemma sorted_assign:
  assumes "sorted_wrt lt (map fst m)" and "k \<notin> fst ` set m"
  shows "sorted_wrt lt (map fst (map_assign lt k v m))"
proof -
  have "sorted_wrt lt (map fst (filter P m))" for P
    using assms(1) by (simp add: sorted_wrt_map sorted_wrt_filter)
  then show ?thesis
    unfolding assign_split [OF assms] by (auto simp: sorted_wrt_append intro: trans)
qed

lemma mset_assign:
  assumes "sorted_wrt lt (map fst m)" and "k \<notin> fst ` set m"
  shows "mset (map_assign lt k v m) = add_mset (k, v) (mset m)"
  using assms
proof (induction m)
  case Nil
  then show ?case by simp
next
  case (Cons e m)
  then show ?case using total [of "fst e" k] by (cases e) auto
qed

lemma find_assign: "sorted_wrt lt (map fst m) \<Longrightarrow>
   map_of (map_assign lt k v m) k' = (if k' = k then Some v else map_of m k')"
proof (induction m)
  case Nil
  then show ?case by simp
next
  case (Cons e m)
  then show ?case using total [of "fst e" k] irrefl by (cases e) auto
qed

lemma sorted_erase: "sorted_wrt lt (map fst m) \<Longrightarrow> sorted_wrt lt (map fst (map_erase k m))"
  by (simp add: map_erase_def sorted_wrt_map sorted_wrt_filter)

lemma find_erase: "map_of (map_erase k m) k' = (if k' = k then None else map_of m k')"
  by (induction m) auto

lemma erase_head: "sorted_wrt lt (map fst ((k, v) # m)) \<Longrightarrow> map_erase k ((k, v) # m) = m"
  using irrefl by (auto simp: map_erase_def filter_id_conv)

end

end
