(* ===== verification/Lob_Pool.thy ===== *)
theory Lob_Pool
  imports Prelude
begin

text \<open>
  \<open>ObjectPool<T, Capacity>\<close> (\<open>include/ObjectPool.hpp\<close>): a fixed array of slots and a
  stack of the free ones. The storage is a function from slot numbers, of which the code uses
  those below the capacity (\<open>pool_ok\<close> below says so); the free list keeps the
  order of the vector, its back being the last element. \<open>allocate\<close> throws when no
  slot is free. A slot keeps its contents when it is freed: the destructor of the two element
  types is trivial.

  The locale is the contract a client relies on: a pool with a multiset of live slots, where
  \<open>alloc\<close> hands out a slot that is not live. It is interpreted on the model at the end.
\<close>

record 'a ObjectPool =
  poolCapacity :: nat
  poolStorage :: "nat \<Rightarrow> 'a"
  freeList :: "nat list"

datatype exn = PoolExhausted \<comment> \<open>\<open>std::runtime_error("ObjectPool capacity exhausted!")\<close>\<close>

text \<open>The constructor: \<open>d\<close> is the default-constructed element that \<open>resize\<close> stores.\<close>

definition ObjectPool_init :: "nat \<Rightarrow> 'a \<Rightarrow> 'a ObjectPool" where
  "ObjectPool_init cap d =
     \<lparr>poolCapacity = cap, poolStorage = (\<lambda>_. d), freeList = [0..<cap]\<rparr>"

definition allocate :: "'a \<Rightarrow> 'a ObjectPool \<Rightarrow> exn + nat \<times> 'a ObjectPool" where
  "allocate v pool =
     (if freeList pool = [] then Inl PoolExhausted
      else let ptr = last (freeList pool);
               pool1 = pool\<lparr>freeList := butlast (freeList pool)\<rparr>
           in Inr (ptr, pool1\<lparr>poolStorage := (poolStorage pool1)(ptr := v)\<rparr>))"

definition deallocate :: "nat option \<Rightarrow> 'a ObjectPool \<Rightarrow> 'a ObjectPool" where
  "deallocate p pool =
     (case p of None \<Rightarrow> pool
      | Some ptr \<Rightarrow> pool\<lparr>freeList := freeList pool @ [ptr]\<rparr>)"

definition available :: "'a ObjectPool \<Rightarrow> nat" where
  "available pool = length (freeList pool)"

definition capacity :: "'a ObjectPool \<Rightarrow> nat" where
  "capacity pool = poolCapacity pool"

text \<open>
  The pool with live slots \<open>M\<close>: every slot below the capacity is on the free list or live,
  and exactly once. So no slot is on the free list twice, none is both live and free, and
  none is lost.
\<close>

definition pool_ok :: "'a ObjectPool \<Rightarrow> nat multiset \<Rightarrow> bool" where
  "pool_ok pool M \<longleftrightarrow> mset (freeList pool) + M = mset [0..<poolCapacity pool]"

section \<open>The contract\<close>

locale slot_pool =
  fixes alloc :: "'a \<Rightarrow> 'p \<Rightarrow> exn + nat \<times> 'p"
    and free :: "nat \<Rightarrow> 'p \<Rightarrow> 'p"
    and size_of :: "'p \<Rightarrow> nat"
    and avail :: "'p \<Rightarrow> nat"
    and read :: "'p \<Rightarrow> nat \<Rightarrow> 'a"
    and ok :: "'p \<Rightarrow> nat multiset \<Rightarrow> bool"
  assumes ok_live: "ok P M \<Longrightarrow> p \<in># M \<Longrightarrow> p < size_of P \<and> count M p = 1"
    and ok_size: "ok P M \<Longrightarrow> avail P + size M = size_of P"
    and alloc_ok: "ok P M \<Longrightarrow> alloc v P = Inr (p, P') \<Longrightarrow> ok P' (add_mset p M)"
    and alloc_read: "alloc v P = Inr (p, P') \<Longrightarrow> read P' = (read P)(p := v)"
    and alloc_size: "alloc v P = Inr (p, P') \<Longrightarrow> size_of P' = size_of P"
    and alloc_fails: "(\<exists>e. alloc v P = Inl e) \<longleftrightarrow> avail P = 0"
    and free_ok: "ok P (add_mset p M) \<Longrightarrow> ok (free p P) M"
    and free_read: "read (free p P) = read P"
    and free_size: "size_of (free p P) = size_of P"
begin

lemma alloc_fresh:
  assumes "ok P M" and "alloc v P = Inr (p, P')"
  shows "p \<notin># M" and "p < size_of P"
proof -
  have ok': "ok P' (add_mset p M)" using assms by (rule alloc_ok)
  then have "p < size_of P'" and "count (add_mset p M) p = 1"
    using ok_live by (metis union_single_eq_member)+
  then show "p < size_of P" and "p \<notin># M"
    using alloc_size [OF assms(2)] by (auto simp: not_in_iff)
qed

lemma alloc_keeps_live:
  assumes "ok P M" and "alloc v P = Inr (p, P')" and "q \<in># M"
  shows "read P' q = read P q"
  using alloc_fresh(1) [OF assms(1,2)] assms(3) alloc_read [OF assms(2)] by auto

text \<open>An object that is created and freed leaves the pool as full as it was.\<close>

lemma alloc_free_avail:
  assumes "ok P M" and "alloc v P = Inr (p, P')"
  shows "ok (free p P') M" and "avail (free p P') = avail P"
proof -
  show *: "ok (free p P') M"
    using assms by (intro free_ok alloc_ok)
  show "avail (free p P') = avail P"
    using ok_size [OF *] ok_size [OF assms(1)] alloc_size [OF assms(2)] free_size [of p P'] by simp
qed

lemma alloc_total:
  assumes "ok P M" and "size M < size_of P"
  shows "\<exists>p P'. alloc v P = Inr (p, P')"
proof -
  have "\<not> (\<exists>e. alloc v P = Inl e)"
    using ok_size [OF assms(1)] assms(2) by (simp only: alloc_fails)
  then show ?thesis by (cases "alloc v P") auto
qed

end

section \<open>The model meets the contract\<close>

lemma pool_ok_live: "pool_ok P M \<Longrightarrow> p \<in># M \<Longrightarrow> p < poolCapacity P \<and> count M p = 1"
proof -
  assume ok: "pool_ok P M" and p: "p \<in># M"
  have "count M p \<le> count (mset [0..<poolCapacity P]) p"
    using ok unfolding pool_ok_def by (metis le_add2 count_union)
  moreover have "count (mset [0..<poolCapacity P]) p = (if p < poolCapacity P then 1 else 0)"
    by (simp add: count_mset_set')
  moreover have "0 < count M p" using p count_greater_zero_iff by metis
  ultimately show "p < poolCapacity P \<and> count M p = 1"
    by (cases "p < poolCapacity P"; presburger)
qed

interpretation pool: slot_pool allocate "\<lambda>p. deallocate (Some p)" poolCapacity available poolStorage pool_ok
proof unfold_locales
  fix P :: "'a ObjectPool" and M p
  assume "pool_ok P M" and "p \<in># M"
  then show "p < poolCapacity P \<and> count M p = 1" by (rule pool_ok_live)
next
  fix P :: "'a ObjectPool" and M
  assume "pool_ok P M"
  then show "available P + size M = poolCapacity P"
    unfolding pool_ok_def available_def by (metis length_upt minus_nat.diff_0 size_mset size_union)
next
  fix P P' :: "'a ObjectPool" and M v p
  assume ok: "pool_ok P M" and a: "allocate v P = Inr (p, P')"
  then have "freeList P = freeList P' @ [p]" and "poolCapacity P' = poolCapacity P"
    by (auto simp: allocate_def Let_def split: if_splits)
  with ok show "pool_ok P' (add_mset p M)"
    by (simp add: pool_ok_def)
qed (auto simp: allocate_def deallocate_def available_def pool_ok_def Let_def split: if_splits)

lemma pool_ok_init [simp]: "pool_ok (ObjectPool_init cap d) {#}"
  by (simp add: pool_ok_def ObjectPool_init_def)

lemma deallocate_simps [simp]:
  "poolStorage (deallocate p pool) = poolStorage pool"
  "poolCapacity (deallocate p pool) = poolCapacity pool"
  by (auto simp: deallocate_def split: option.splits)

end
