(* ===== verification/Lob_Types.thy ===== *)
theory Lob_Types
  imports Lob_Map
begin

text \<open>
  The data of the matching engine, from \<open>include/Types.hpp\<close> and \<open>include/Order.hpp\<close>.
  Pointers into the two object pools are slot numbers; \<open>nullptr\<close> is \<open>None\<close>.
\<close>

type_synonym OrderId = u64
type_synonym Price = u64
type_synonym Quantity = u32
type_synonym Timestamp = u64

type_synonym order_ptr = nat
type_synonym level_ptr = nat

datatype Side = BUY | SELL

datatype OrderType = LIMIT | MARKET | CANCEL

datatype Status = NEW | PARTIALLY_FILLED | FILLED | CANCELED | REJECTED

record MatchEvent =
  makerOrderId :: OrderId
  takerOrderId :: OrderId
  matchPrice :: Price
  matchQuantity :: Quantity
  m_timestamp :: Timestamp

definition sideToString :: "Side \<Rightarrow> string" where
  "sideToString side = (if side = BUY then ''BUY'' else ''SELL'')"

record Order =
  o_id :: OrderId
  o_price :: Price
  o_quantity :: Quantity
  o_remainingQty :: Quantity
  o_side :: Side
  o_type :: OrderType
  o_timestamp :: Timestamp
  o_level :: "level_ptr option"
  o_prev :: "order_ptr option"
  o_next :: "order_ptr option"

text \<open>The default constructor and the constructor that the pool calls in place.\<close>

definition Order_default :: Order where
  "Order_default = \<lparr>o_id = 0, o_price = 0, o_quantity = 0, o_remainingQty = 0, o_side = BUY,
     o_type = LIMIT, o_timestamp = 0, o_level = None, o_prev = None, o_next = None\<rparr>"

definition mk_Order :: "OrderId \<Rightarrow> Price \<Rightarrow> Quantity \<Rightarrow> Side \<Rightarrow> OrderType \<Rightarrow> Timestamp \<Rightarrow> Order" where
  "mk_Order orderId p q s t ts = \<lparr>o_id = orderId, o_price = p, o_quantity = q, o_remainingQty = q,
     o_side = s, o_type = t, o_timestamp = ts, o_level = None, o_prev = None, o_next = None\<rparr>"

text \<open>
  The other side, and the order in which \<open>std::map\<close> keeps the prices of a side: bids
  under \<open>std::greater\<close>, asks under \<open>std::less\<close>.
\<close>

fun opposite :: "Side \<Rightarrow> Side" where
  "opposite BUY = SELL"
| "opposite SELL = BUY"

fun better :: "Side \<Rightarrow> Price \<Rightarrow> Price \<Rightarrow> bool" where
  "better BUY p q = (p > q)"
| "better SELL p q = (p < q)"

lemma opposite_simps [simp]:
  "opposite (opposite sd) = sd" "opposite sd \<noteq> sd" "sd \<noteq> opposite sd"
  by (cases sd; simp)+

lemma side_eq_opposite: "s \<noteq> sd \<longleftrightarrow> s = opposite sd"
  by (cases s; cases sd) auto

text \<open>Both comparators are strict total orders, so the laws of \<open>std::map\<close> hold on both sides.\<close>

interpretation prices: comparator "better sd" for sd
  by unfold_locales (cases sd; auto)+

lemma better_BUY [simp]: "better BUY = (>)"
  by (auto simp: fun_eq_iff)

lemma better_SELL [simp]: "better SELL = (<)"
  by (auto simp: fun_eq_iff)

lemma better_opposite: "better (opposite sd) p q = better sd q p"
  by (cases sd) auto

end
