(* ===== verification/Lob_PriceLevel.thy ===== *)
theory Lob_PriceLevel
  imports Lob_Types
begin

text \<open>
  \<open>PriceLevel\<close> (\<open>include/PriceLevel.hpp\<close>): a queue of orders as an intrusive doubly
  linked list. A method works on the store of orders (slot number to order) and on the level
  itself; \<open>this\<close> is the level's own slot number, which \<open>append\<close> writes into the order.

  \<open>dseg\<close> says that a stretch of the store is a doubly linked segment, \<open>queue_of\<close>
  walks a level from its head, and \<open>level_ok\<close> ties a level to the list of its order slots.
  The lemmas show that \<open>append\<close> adds the order at the tail and that \<open>remove\<close> unlinks
  any element, wherever it stands.
\<close>

type_synonym order_store = "order_ptr \<Rightarrow> Order"

record PriceLevel =
  l_price :: Price
  l_totalVolume :: Quantity
  l_orderCount :: u64
  l_head :: "order_ptr option"
  l_tail :: "order_ptr option"
  l_prevLevel :: "level_ptr option"
  l_nextLevel :: "level_ptr option"

definition mk_PriceLevel :: "Price \<Rightarrow> PriceLevel" where
  "mk_PriceLevel p = \<lparr>l_price = p, l_totalVolume = 0, l_orderCount = 0, l_head = None,
     l_tail = None, l_prevLevel = None, l_nextLevel = None\<rparr>"

definition PriceLevel_append ::
  "level_ptr \<Rightarrow> order_ptr \<Rightarrow> order_store \<times> PriceLevel \<Rightarrow> order_store \<times> PriceLevel" where
  "PriceLevel_append this order = (\<lambda>(h, l).
     let h1 = h(order := (h order)\<lparr>o_level := Some this, o_next := None, o_prev := l_tail l\<rparr>);
         (h2, l2) = (case l_tail l of
             Some t \<Rightarrow> (h1(t := (h1 t)\<lparr>o_next := Some order\<rparr>), l)
           | None \<Rightarrow> (h1, l\<lparr>l_head := Some order\<rparr>));
         l3 = l2\<lparr>l_tail := Some order\<rparr>
     in (h2, l3\<lparr>l_totalVolume := l_totalVolume l3 + o_remainingQty (h2 order),
                l_orderCount := l_orderCount l3 + 1\<rparr>))"

definition PriceLevel_remove ::
  "order_ptr option \<Rightarrow> order_store \<times> PriceLevel \<Rightarrow> order_store \<times> PriceLevel" where
  "PriceLevel_remove ord = (\<lambda>(h, l). case ord of None \<Rightarrow> (h, l) | Some order \<Rightarrow>
     let (h1, l1) = (case o_prev (h order) of
             Some q \<Rightarrow> (h(q := (h q)\<lparr>o_next := o_next (h order)\<rparr>), l)
           | None \<Rightarrow> (h, l\<lparr>l_head := o_next (h order)\<rparr>));
         (h2, l2) = (case o_next (h1 order) of
             Some n \<Rightarrow> (h1(n := (h1 n)\<lparr>o_prev := o_prev (h1 order)\<rparr>), l1)
           | None \<Rightarrow> (h1, l1\<lparr>l_tail := o_prev (h1 order)\<rparr>));
         l3 = l2\<lparr>l_totalVolume := l_totalVolume l2 -
                  (if l_totalVolume l2 \<ge> o_remainingQty (h2 order)
                   then o_remainingQty (h2 order) else l_totalVolume l2)\<rparr>;
         l4 = (if l_orderCount l3 > 0 then l3\<lparr>l_orderCount := l_orderCount l3 - 1\<rparr> else l3)
     in (h2(order := (h2 order)\<lparr>o_next := None, o_prev := None, o_level := None\<rparr>), l4))"

definition PriceLevel_empty :: "PriceLevel \<Rightarrow> bool" where
  "PriceLevel_empty l = (l_head l = None)"

section \<open>Doubly linked segments\<close>

text \<open>
  \<open>dseg h pr ps nx\<close>: the slots \<open>ps\<close> are linked in this order in both directions, the
  first has \<open>pr\<close> as its predecessor and the last has \<open>nx\<close> as its successor.
\<close>

fun dseg :: "order_store \<Rightarrow> order_ptr option \<Rightarrow> order_ptr list \<Rightarrow> order_ptr option \<Rightarrow> bool" where
  "dseg h pr [] nx = True"
| "dseg h pr (p # ps) nx =
     (o_prev (h p) = pr \<and> o_next (h p) = first_or nx ps \<and> dseg h (Some p) ps nx)"

lemma dseg_append:
  "dseg h pr (ps @ qs) nx \<longleftrightarrow> dseg h pr ps (first_or nx qs) \<and> dseg h (last_or pr ps) qs nx"
  by (induction ps arbitrary: pr) auto

lemma dseg_cong:
  assumes "\<And>p. p \<in> set ps \<Longrightarrow> o_prev (h' p) = o_prev (h p) \<and> o_next (h' p) = o_next (h p)"
  shows "dseg h' pr ps nx = dseg h pr ps nx"
  using assms by (induction ps arbitrary: pr) auto

lemma dseg_set_next:
  assumes "dseg h pr (ps @ [q]) nx" and "q \<notin> set ps"
  shows "dseg (h(q := (h q)\<lparr>o_next := nx'\<rparr>)) pr (ps @ [q]) nx'"
proof -
  have "dseg (h(q := (h q)\<lparr>o_next := nx'\<rparr>)) pr ps (Some q) = dseg h pr ps (Some q)"
    using assms(2) by (intro dseg_cong) auto
  with assms(1) show ?thesis by (simp add: dseg_append)
qed

lemma dseg_set_prev:
  assumes "dseg h pr (q # ps) nx" and "q \<notin> set ps"
  shows "dseg (h(q := (h q)\<lparr>o_prev := pr'\<rparr>)) pr' (q # ps) nx"
proof -
  have "dseg (h(q := (h q)\<lparr>o_prev := pr'\<rparr>)) (Some q) ps nx = dseg h (Some q) ps nx"
    using assms(2) by (intro dseg_cong) auto
  with assms(1) show ?thesis by simp
qed

section \<open>Levels and the queues they hold\<close>

definition level_ok :: "order_store \<Rightarrow> PriceLevel \<Rightarrow> order_ptr list \<Rightarrow> bool" where
  "level_ok h l ps \<longleftrightarrow> dseg h None ps None \<and> distinct ps \<and>
     l_head l = first_or None ps \<and> l_tail l = last_or None ps \<and>
     l_orderCount l = of_nat (length ps)"

text \<open>The queue of a level, read from the store by following \<open>next\<close> at most \<open>n\<close> times.\<close>

fun walk :: "nat \<Rightarrow> order_store \<Rightarrow> order_ptr option \<Rightarrow> order_ptr list" where
  "walk 0 h p = []"
| "walk (Suc n) h None = []"
| "walk (Suc n) h (Some p) = p # walk n h (o_next (h p))"

lemma walk_dseg:
  "dseg h pr ps None \<Longrightarrow> length ps \<le> n \<Longrightarrow> walk n h (first_or None ps) = ps"
proof (induction ps arbitrary: n pr)
  case Nil
  then show ?case by (cases n) auto
next
  case (Cons p ps)
  then obtain m where "n = Suc m" by (cases n) auto
  with Cons show ?case by auto
qed

lemma walk_level: "level_ok h l ps \<Longrightarrow> length ps \<le> n \<Longrightarrow> walk n h (l_head l) = ps"
  unfolding level_ok_def using walk_dseg by metis

lemma level_ok_empty: "level_ok h l ps \<Longrightarrow> PriceLevel_empty l \<longleftrightarrow> ps = []"
  by (auto simp: level_ok_def PriceLevel_empty_def)

lemma level_ok_new [simp]: "level_ok h (mk_PriceLevel k) []"
  by (simp add: level_ok_def mk_PriceLevel_def)

lemma level_ok_cong:
  assumes "\<And>p. p \<in> set ps \<Longrightarrow> o_prev (h' p) = o_prev (h p) \<and> o_next (h' p) = o_next (h p)"
    and "l_head l' = l_head l" "l_tail l' = l_tail l" "l_orderCount l' = l_orderCount l"
  shows "level_ok h' l' ps = level_ok h l ps"
  using dseg_cong [OF assms(1)] assms(2-4) by (simp add: level_ok_def)

section \<open>What the two operations leave unchanged\<close>

lemma append_frame [heap_frame]:
  "o_id (fst (PriceLevel_append this p hl) q) = o_id (fst hl q)"
  "o_price (fst (PriceLevel_append this p hl) q) = o_price (fst hl q)"
  "o_remainingQty (fst (PriceLevel_append this p hl) q) = o_remainingQty (fst hl q)"
  "o_side (fst (PriceLevel_append this p hl) q) = o_side (fst hl q)"
  "o_type (fst (PriceLevel_append this p hl) q) = o_type (fst hl q)"
  "o_level (fst (PriceLevel_append this p hl) q) = (if q = p then Some this else o_level (fst hl q))"
  "l_price (snd (PriceLevel_append this p hl)) = l_price (snd hl)"
  by (cases hl; simp add: PriceLevel_append_def Let_def split: option.splits)+

lemma append_volume:
  "l_totalVolume (snd (PriceLevel_append this p hl)) = l_totalVolume (snd hl) + o_remainingQty (fst hl p)"
  by (cases hl) (auto simp: PriceLevel_append_def Let_def split: option.splits)

lemma remove_frame [heap_frame]:
  "o_id (fst (PriceLevel_remove ord hl) q) = o_id (fst hl q)"
  "o_price (fst (PriceLevel_remove ord hl) q) = o_price (fst hl q)"
  "o_remainingQty (fst (PriceLevel_remove ord hl) q) = o_remainingQty (fst hl q)"
  "o_side (fst (PriceLevel_remove ord hl) q) = o_side (fst hl q)"
  "o_type (fst (PriceLevel_remove ord hl) q) = o_type (fst hl q)"
  "o_level (fst (PriceLevel_remove ord hl) q) = (if ord = Some q then None else o_level (fst hl q))"
  "l_price (snd (PriceLevel_remove ord hl)) = l_price (snd hl)"
  by (cases hl; auto simp: PriceLevel_remove_def Let_def split: option.splits)+

lemma remove_volume:
  "l_totalVolume (snd (PriceLevel_remove (Some p) hl)) =
     l_totalVolume (snd hl) - min (o_remainingQty (fst hl p)) (l_totalVolume (snd hl))"
  by (cases hl) (auto simp: PriceLevel_remove_def Let_def min_def split: option.splits)

section \<open>What the two operations do to the queue\<close>

lemma append_other:
  assumes "level_ok h l ps" and "q \<notin> set ps" and "q \<noteq> p"
  shows "fst (PriceLevel_append this p (h, l)) q = h q"
proof -
  have "l_tail l \<noteq> Some q"
    using assms(1,2) by (auto simp: level_ok_def last_or_def split: if_splits)
  with assms(3) show ?thesis
    by (auto simp: PriceLevel_append_def Let_def split: option.splits)
qed

lemma append_level_ok:
  assumes ok: "level_ok h l ps" and new: "p \<notin> set ps"
  shows "level_ok (fst (PriceLevel_append this p (h, l))) (snd (PriceLevel_append this p (h, l))) (ps @ [p])"
proof (cases ps rule: rev_cases)
  case Nil
  with ok show ?thesis by (simp add: level_ok_def PriceLevel_append_def Let_def)
next
  case (snoc qs t)
  define h1 where "h1 = h(p := (h p)\<lparr>o_level := Some this, o_next := None, o_prev := Some t\<rparr>)"
  define h2 where "h2 = h1(t := (h1 t)\<lparr>o_next := Some p\<rparr>)"
  have tail: "l_tail l = Some t" using ok snoc by (simp add: level_ok_def)
  have "t \<noteq> p" "t \<notin> set qs" using new snoc ok by (auto simp: level_ok_def)
  have "dseg h1 None (qs @ [t]) None = dseg h None (qs @ [t]) None"
    using new snoc by (intro dseg_cong) (auto simp: h1_def)
  then have "dseg h2 None (qs @ [t]) (Some p)"
    unfolding h2_def using \<open>t \<notin> set qs\<close> ok snoc by (intro dseg_set_next) (auto simp: level_ok_def)
  moreover have "o_prev (h2 p) = Some t" "o_next (h2 p) = None"
    using \<open>t \<noteq> p\<close> by (auto simp: h2_def h1_def)
  ultimately have "dseg h2 None (ps @ [p]) None"
    by (simp add: dseg_append snoc)
  moreover have "fst (PriceLevel_append this p (h, l)) = h2"
    by (simp add: PriceLevel_append_def Let_def tail h2_def h1_def)
  moreover have "l_head (snd (PriceLevel_append this p (h, l))) = l_head l"
    "l_tail (snd (PriceLevel_append this p (h, l))) = Some p"
    "l_orderCount (snd (PriceLevel_append this p (h, l))) = l_orderCount l + 1"
    by (simp_all add: PriceLevel_append_def Let_def tail)
  ultimately show ?thesis
    using ok new snoc by (cases qs) (auto simp: level_ok_def)
qed

lemma dseg_relink_next:
  assumes "dseg h pr ps m" and "distinct ps"
  shows "dseg (case last_or None ps of Some q \<Rightarrow> h(q := (h q)\<lparr>o_next := nx\<rparr>) | None \<Rightarrow> h) pr ps nx"
  using assms dseg_set_next by (cases ps rule: rev_cases) auto

lemma dseg_relink_prev:
  assumes "dseg h m ps nx" and "distinct ps"
  shows "dseg (case first_or None ps of Some q \<Rightarrow> h(q := (h q)\<lparr>o_prev := pr\<rparr>) | None \<Rightarrow> h) pr ps nx"
  using assms dseg_set_prev by (cases ps) auto

lemma remove_other:
  assumes "level_ok h l ps" and "p \<in> set ps" and "q \<notin> set ps"
  shows "fst (PriceLevel_remove (Some p) (h, l)) q = h q"
proof -
  from assms(2) obtain xs ys where ps: "ps = xs @ p # ys" by (meson split_list)
  have links: "o_prev (h p) = last_or None xs" "o_next (h p) = first_or None ys"
    using assms(1) by (auto simp: level_ok_def ps dseg_append)
  have "last_or None xs \<noteq> Some q" "first_or None ys \<noteq> Some q"
    using assms(3) ps by (auto simp: last_or_def elim: first_or.elims split: if_splits)
  moreover have "last_or None xs \<noteq> Some p"
    using assms(1) ps by (auto simp: last_or_def level_ok_def split: if_splits)
  ultimately show ?thesis using assms(3) ps links
    by (auto simp: PriceLevel_remove_def Let_def split: option.splits)
qed

lemma remove_ends:
  assumes "o_prev (h p) \<noteq> Some p"
  shows "l_head (snd (PriceLevel_remove (Some p) (h, l))) =
      (if o_prev (h p) = None then o_next (h p) else l_head l)"
    and "l_tail (snd (PriceLevel_remove (Some p) (h, l))) =
      (if o_next (h p) = None then o_prev (h p) else l_tail l)"
    and "l_orderCount l \<noteq> 0 \<Longrightarrow>
      l_orderCount (snd (PriceLevel_remove (Some p) (h, l))) = l_orderCount l - 1"
  using assms by (auto simp: PriceLevel_remove_def Let_def word_gt_0 split: option.splits)

lemma remove_level_ok:
  assumes ok: "level_ok h l (xs @ p # ys)" and len: "length (xs @ p # ys) < 2 ^ 64"
  shows "level_ok (fst (PriceLevel_remove (Some p) (h, l))) (snd (PriceLevel_remove (Some p) (h, l))) (xs @ ys)"
proof -
  let ?pr = "last_or None xs" and ?nx = "first_or None ys"
  define h1 where "h1 = (case ?pr of Some q \<Rightarrow> h(q := (h q)\<lparr>o_next := ?nx\<rparr>) | None \<Rightarrow> h)"
  define h2 where "h2 = (case ?nx of Some n \<Rightarrow> h1(n := (h1 n)\<lparr>o_prev := ?pr\<rparr>) | None \<Rightarrow> h1)"
  define h3 where "h3 = h2(p := (h2 p)\<lparr>o_next := None, o_prev := None, o_level := None\<rparr>)"
  have dist: "distinct (xs @ p # ys)"
    and head: "l_head l = first_or (Some p) xs" and tail: "l_tail l = last_or (Some p) ys"
    and cnt: "l_orderCount l = of_nat (length (xs @ p # ys))"
    and seg: "dseg h None xs (Some p)" "dseg h (Some p) ys None"
    and links: "o_prev (h p) = ?pr" "o_next (h p) = ?nx"
    using ok by (auto simp: level_ok_def dseg_append)
  have pr: "?pr = Some q \<Longrightarrow> q \<in> set xs" and nx: "?nx = Some q \<Longrightarrow> q \<in> set ys" for q
    by (auto simp: last_or_def elim: first_or.elims split: if_splits)
  have "dseg h1 None xs ?nx"
    unfolding h1_def using seg(1) dist by (intro dseg_relink_next) auto
  moreover have "dseg h1 (Some p) ys None = dseg h (Some p) ys None"
    unfolding h1_def using dist pr by (intro dseg_cong) (auto split: option.splits)
  ultimately have h1: "dseg h1 None xs ?nx" "dseg h1 (Some p) ys None"
    using seg by auto
  have "dseg h2 None xs ?nx = dseg h1 None xs ?nx"
    unfolding h2_def using dist nx by (intro dseg_cong) (auto split: option.splits)
  moreover have "dseg h2 ?pr ys None"
    unfolding h2_def using h1(2) dist by (intro dseg_relink_prev) auto
  ultimately have "dseg h2 None (xs @ ys) None" using h1 by (simp add: dseg_append)
  moreover have "dseg h3 None (xs @ ys) None = dseg h2 None (xs @ ys) None"
    unfolding h3_def using dist by (intro dseg_cong) auto
  moreover have links1: "o_prev (h1 p) = ?pr" "o_next (h1 p) = ?nx"
    using links dist pr by (auto simp: h1_def split: option.splits)
  then have "fst (PriceLevel_remove (Some p) (h, l)) = h3"
    using links by (auto simp: PriceLevel_remove_def Let_def h3_def h2_def h1_def split: option.splits)
  moreover have noself: "o_prev (h p) \<noteq> Some p" using links pr dist by auto
  have "l_head (snd (PriceLevel_remove (Some p) (h, l))) = first_or None (xs @ ys)"
    using remove_ends(1) [of h p, OF noself] links head by (cases xs) auto
  moreover have "l_tail (snd (PriceLevel_remove (Some p) (h, l))) = last_or None (xs @ ys)"
    using remove_ends(2) [of h p, OF noself] links tail by (cases ys) auto
  moreover have "l_orderCount l \<noteq> 0"
    using cnt len of_nat_u64_neq_0 [of "length (xs @ p # ys)"] by simp
  then have "l_orderCount (snd (PriceLevel_remove (Some p) (h, l))) = of_nat (length (xs @ ys))"
    using remove_ends(3) [of h p, OF noself] cnt by simp
  ultimately show ?thesis using dist by (auto simp: level_ok_def)
qed

end
