(* ===== verification/Lob_Book.thy ===== *)
theory Lob_Book
  imports Lob_Map Lob_Pool Lob_PriceLevel "HOL-Library.Monad_Syntax"
begin

text \<open>
  \<open>OrderBook\<close> (\<open>include/OrderBook.hpp\<close>, \<open>src/OrderBook.cpp\<close>): the state of the
  matching engine and its operations, over the pointer model of the pools and the intrusive
  price levels. \<open>orders b\<close> and \<open>levels b\<close> are the storages of the two pools.

  A method that may throw returns the book it leaves behind and a sum; the matching loops,
  which chase \<open>next\<close> pointers, are \<open>partial_function (option)\<close>, so that not returning
  is the value \<open>None\<close>. The clock is an argument: \<open>clk n\<close> is the reading taken for the
  \<open>n\<close>-th trade of the call.
\<close>

record OrderBook =
  bids :: "(Price \<times> level_ptr) list"
  asks :: "(Price \<times> level_ptr) list"
  orderMap :: "(OrderId \<times> order_ptr) list"
  orderPool :: "Order ObjectPool"
  levelPool :: "PriceLevel ObjectPool"
  totalTradesCount :: u64
  totalVolumeTraded :: u64

abbreviation orders :: "OrderBook \<Rightarrow> order_store" where
  "orders b \<equiv> poolStorage (orderPool b)"

abbreviation levels :: "OrderBook \<Rightarrow> level_ptr \<Rightarrow> PriceLevel" where
  "levels b \<equiv> poolStorage (levelPool b)"

definition DEFAULT_MAX_ORDERS :: nat where "DEFAULT_MAX_ORDERS = 100000"

definition DEFAULT_MAX_LEVELS :: nat where "DEFAULT_MAX_LEVELS = 10000"

text \<open>A book over pools of given capacities, and the constructor with the capacities of the code.\<close>

definition book_init :: "nat \<Rightarrow> nat \<Rightarrow> OrderBook" where
  "book_init maxOrders maxLevels = \<lparr>bids = [], asks = [], orderMap = [],
     orderPool = ObjectPool_init maxOrders Order_default,
     levelPool = ObjectPool_init maxLevels (mk_PriceLevel 0),
     totalTradesCount = 0, totalVolumeTraded = 0\<rparr>"

definition OrderBook_init :: OrderBook where
  "OrderBook_init = book_init DEFAULT_MAX_ORDERS DEFAULT_MAX_LEVELS"

section \<open>Writes through pointers\<close>

definition upd_order :: "order_ptr \<Rightarrow> (Order \<Rightarrow> Order) \<Rightarrow> OrderBook \<Rightarrow> OrderBook" where
  "upd_order p f b = b\<lparr>orderPool := (orderPool b)\<lparr>poolStorage := (orders b)(p := f (orders b p))\<rparr>\<rparr>"

definition upd_level :: "level_ptr \<Rightarrow> (PriceLevel \<Rightarrow> PriceLevel) \<Rightarrow> OrderBook \<Rightarrow> OrderBook" where
  "upd_level lp f b = b\<lparr>levelPool := (levelPool b)\<lparr>poolStorage := (levels b)(lp := f (levels b lp))\<rparr>\<rparr>"

text \<open>A method call \<open>lp->m(...)\<close> on a level, which also writes orders.\<close>

definition on_level ::
  "level_ptr \<Rightarrow> (order_store \<times> PriceLevel \<Rightarrow> order_store \<times> PriceLevel) \<Rightarrow> OrderBook \<Rightarrow> OrderBook" where
  "on_level lp m b = (let (h, l) = m (orders b, levels b lp) in
     b\<lparr>orderPool := (orderPool b)\<lparr>poolStorage := h\<rparr>,
       levelPool := (levelPool b)\<lparr>poolStorage := (levels b)(lp := l)\<rparr>\<rparr>)"

definition free_order :: "order_ptr \<Rightarrow> OrderBook \<Rightarrow> OrderBook" where
  "free_order p b = b\<lparr>orderPool := deallocate (Some p) (orderPool b)\<rparr>"

definition free_level :: "level_ptr \<Rightarrow> OrderBook \<Rightarrow> OrderBook" where
  "free_level lp b = b\<lparr>levelPool := deallocate (Some lp) (levelPool b)\<rparr>"

section \<open>Price levels by price\<close>

definition getOrCreatePriceLevel ::
  "Side \<Rightarrow> Price \<Rightarrow> OrderBook \<Rightarrow> exn + level_ptr \<times> OrderBook" where
  "getOrCreatePriceLevel side price b =
     (if side = BUY then
        (case map_of (bids b) price of
           Some lvl \<Rightarrow> Inr (lvl, b)
         | None \<Rightarrow>
             (case allocate (mk_PriceLevel price) (levelPool b) of
                Inl e \<Rightarrow> Inl e
              | Inr (newLevel, pool) \<Rightarrow>
                  Inr (newLevel, b\<lparr>levelPool := pool, bids := map_assign (>) price newLevel (bids b)\<rparr>)))
      else
        (case map_of (asks b) price of
           Some lvl \<Rightarrow> Inr (lvl, b)
         | None \<Rightarrow>
             (case allocate (mk_PriceLevel price) (levelPool b) of
                Inl e \<Rightarrow> Inl e
              | Inr (newLevel, pool) \<Rightarrow>
                  Inr (newLevel, b\<lparr>levelPool := pool, asks := map_assign (<) price newLevel (asks b)\<rparr>))))"

definition removePriceLevelIfEmpty ::
  "Side \<Rightarrow> Price \<Rightarrow> level_ptr option \<Rightarrow> OrderBook \<Rightarrow> OrderBook" where
  "removePriceLevelIfEmpty side price lvl b =
     (case lvl of None \<Rightarrow> b
      | Some lp \<Rightarrow>
          if \<not> PriceLevel_empty (levels b lp) then b
          else let b1 = (if side = BUY then b\<lparr>bids := map_erase price (bids b)\<rparr>
                         else b\<lparr>asks := map_erase price (asks b)\<rparr>)
               in free_level lp b1)"

section \<open>Matching\<close>

text \<open>
  The body of the inner loop, the same on both sides: one fill of the maker at the front of
  the level against the incoming order, the trade event, the counters, and the removal of a
  maker that is filled.
\<close>

definition fillMaker ::
  "(nat \<Rightarrow> Timestamp) \<Rightarrow> order_ptr \<Rightarrow> level_ptr \<Rightarrow> order_ptr \<Rightarrow>
   OrderBook \<times> MatchEvent list \<Rightarrow> OrderBook \<times> MatchEvent list" where
  "fillMaker clk taker lp maker = (\<lambda>(b, matches).
     let fillQty = min (o_remainingQty (orders b taker)) (o_remainingQty (orders b maker));
         b1 = upd_order taker (\<lambda>ord. ord\<lparr>o_remainingQty := o_remainingQty ord - fillQty\<rparr>) b;
         b2 = upd_order maker (\<lambda>ord. ord\<lparr>o_remainingQty := o_remainingQty ord - fillQty\<rparr>) b1;
         b3 = upd_level lp (\<lambda>l. l\<lparr>l_totalVolume := l_totalVolume l - fillQty\<rparr>) b2;
         match = \<lparr>makerOrderId = o_id (orders b3 maker), takerOrderId = o_id (orders b3 taker),
                  matchPrice = l_price (levels b3 lp), matchQuantity = fillQty,
                  m_timestamp = clk (length matches)\<rparr>;
         b4 = b3\<lparr>totalTradesCount := totalTradesCount b3 + 1,
                 totalVolumeTraded := totalVolumeTraded b3 + ucast fillQty\<rparr>;
         b5 = (if o_remainingQty (orders b4 maker) = 0
               then free_order maker
                      (on_level lp (PriceLevel_remove (Some maker))
                        (b4\<lparr>orderMap := AList.delete (o_id (orders b4 maker)) (orderMap b4)\<rparr>))
               else b4)
     in (b5, matches @ [match]))"

text \<open>The inner loop; \<open>nextMaker\<close> is read before the body frees the maker.\<close>

partial_function (option) fillLevel ::
  "(nat \<Rightarrow> Timestamp) \<Rightarrow> order_ptr \<Rightarrow> level_ptr \<Rightarrow> order_ptr option \<Rightarrow>
   OrderBook \<times> MatchEvent list \<Rightarrow> (OrderBook \<times> MatchEvent list) option" where
  "fillLevel clk taker lp makerOrder s =
     (case makerOrder of
        None \<Rightarrow> Some s
      | Some maker \<Rightarrow>
          if o_remainingQty (orders (fst s) taker) > 0
          then fillLevel clk taker lp (o_next (orders (fst s) maker)) (fillMaker clk taker lp maker s)
          else Some s)"

text \<open>
  The outer loops. The list argument is the part of the map from the iterator on: the body
  erases at most the entry under the iterator.
\<close>

fun matchBuyLoop ::
  "(nat \<Rightarrow> Timestamp) \<Rightarrow> order_ptr \<Rightarrow> (Price \<times> level_ptr) list \<Rightarrow>
   OrderBook \<times> MatchEvent list \<Rightarrow> (OrderBook \<times> MatchEvent list) option" where
  "matchBuyLoop clk buyOrder [] s = Some s"
| "matchBuyLoop clk buyOrder ((k, askLevel) # askIt) (b, matches) =
     (if \<not> o_remainingQty (orders b buyOrder) > 0 then Some (b, matches)
      else if o_type (orders b buyOrder) = LIMIT \<and>
              l_price (levels b askLevel) > o_price (orders b buyOrder)
      then Some (b, matches)
      else do {
        (b1, matches1) \<leftarrow> fillLevel clk buyOrder askLevel (l_head (levels b askLevel)) (b, matches);
        matchBuyLoop clk buyOrder askIt
          (if PriceLevel_empty (levels b1 askLevel)
           then ((free_level askLevel b1)\<lparr>asks := map_erase k (asks b1)\<rparr>, matches1)
           else (b1, matches1))
      })"

definition matchBuyOrder ::
  "(nat \<Rightarrow> Timestamp) \<Rightarrow> order_ptr \<Rightarrow> OrderBook \<times> MatchEvent list \<Rightarrow>
   (OrderBook \<times> MatchEvent list) option" where
  "matchBuyOrder clk buyOrder s = matchBuyLoop clk buyOrder (asks (fst s)) s"

fun matchSellLoop ::
  "(nat \<Rightarrow> Timestamp) \<Rightarrow> order_ptr \<Rightarrow> (Price \<times> level_ptr) list \<Rightarrow>
   OrderBook \<times> MatchEvent list \<Rightarrow> (OrderBook \<times> MatchEvent list) option" where
  "matchSellLoop clk sellOrder [] s = Some s"
| "matchSellLoop clk sellOrder ((k, bidLevel) # bidIt) (b, matches) =
     (if \<not> o_remainingQty (orders b sellOrder) > 0 then Some (b, matches)
      else if o_type (orders b sellOrder) = LIMIT \<and>
              l_price (levels b bidLevel) < o_price (orders b sellOrder)
      then Some (b, matches)
      else do {
        (b1, matches1) \<leftarrow> fillLevel clk sellOrder bidLevel (l_head (levels b bidLevel)) (b, matches);
        matchSellLoop clk sellOrder bidIt
          (if PriceLevel_empty (levels b1 bidLevel)
           then ((free_level bidLevel b1)\<lparr>bids := map_erase k (bids b1)\<rparr>, matches1)
           else (b1, matches1))
      })"

definition matchSellOrder ::
  "(nat \<Rightarrow> Timestamp) \<Rightarrow> order_ptr \<Rightarrow> OrderBook \<times> MatchEvent list \<Rightarrow>
   (OrderBook \<times> MatchEvent list) option" where
  "matchSellOrder clk sellOrder s = matchSellLoop clk sellOrder (bids (fst s)) s"

section \<open>The public operations\<close>

definition addOrder ::
  "(nat \<Rightarrow> Timestamp) \<Rightarrow> OrderId \<Rightarrow> Side \<Rightarrow> Price \<Rightarrow> Quantity \<Rightarrow> OrderType \<Rightarrow>
   OrderBook \<Rightarrow> (OrderBook \<times> (exn + MatchEvent list)) option" where
  "addOrder clk oid side price qty type b =
     (if qty = 0 \<or> map_of (orderMap b) oid \<noteq> None then Some (b, Inr [])
      else case allocate (mk_Order oid price qty side type 0) (orderPool b) of
        Inl e \<Rightarrow> Some (b, Inl e)
      | Inr (incomingOrder, pool) \<Rightarrow>
          let b1 = b\<lparr>orderPool := pool\<rparr> in
          if side = BUY then do {
            (b2, matches) \<leftarrow> matchBuyOrder clk incomingOrder (b1, []);
            if o_remainingQty (orders b2 incomingOrder) > 0 \<and> type = LIMIT then
              (case getOrCreatePriceLevel BUY (o_price (orders b2 incomingOrder)) b2 of
                 Inl e \<Rightarrow> Some (b2, Inl e)
               | Inr (lvl, b3) \<Rightarrow>
                   let b4 = on_level lvl (PriceLevel_append lvl incomingOrder) b3
                   in Some (b4\<lparr>orderMap := AList.update oid incomingOrder (orderMap b4)\<rparr>, Inr matches))
            else Some (free_order incomingOrder b2, Inr matches)
          }
          else do {
            (b2, matches) \<leftarrow> matchSellOrder clk incomingOrder (b1, []);
            if o_remainingQty (orders b2 incomingOrder) > 0 \<and> type = LIMIT then
              (case getOrCreatePriceLevel SELL (o_price (orders b2 incomingOrder)) b2 of
                 Inl e \<Rightarrow> Some (b2, Inl e)
               | Inr (lvl, b3) \<Rightarrow>
                   let b4 = on_level lvl (PriceLevel_append lvl incomingOrder) b3
                   in Some (b4\<lparr>orderMap := AList.update oid incomingOrder (orderMap b4)\<rparr>, Inr matches))
            else Some (free_order incomingOrder b2, Inr matches)
          })"

definition cancelOrder :: "OrderId \<Rightarrow> OrderBook \<Rightarrow> OrderBook \<times> bool" where
  "cancelOrder oid b =
     (case map_of (orderMap b) oid of
        None \<Rightarrow> (b, False)
      | Some order \<Rightarrow>
          let b1 = (case o_level (orders b order) of
                      None \<Rightarrow> b
                    | Some lvl \<Rightarrow>
                        let b' = on_level lvl (PriceLevel_remove (Some order)) b
                        in removePriceLevelIfEmpty (o_side (orders b' order))
                             (o_price (orders b' order)) (Some lvl) b');
              b2 = b1\<lparr>orderMap := AList.delete oid (orderMap b1)\<rparr>
          in (free_order order b2, True))"

definition getBestBid :: "OrderBook \<Rightarrow> (Price \<times> Quantity) option" where
  "getBestBid b = (case bids b of [] \<Rightarrow> None
     | (price, lp) # _ \<Rightarrow> Some (price, l_totalVolume (levels b lp)))"

definition getBestAsk :: "OrderBook \<Rightarrow> (Price \<times> Quantity) option" where
  "getBestAsk b = (case asks b of [] \<Rightarrow> None
     | (price, lp) # _ \<Rightarrow> Some (price, l_totalVolume (levels b lp)))"

definition getSpread :: "OrderBook \<Rightarrow> Price option" where
  "getSpread b = (case (bids b, asks b) of
       ((bestBid, _) # _, (bestAsk, _) # _) \<Rightarrow>
          if bestAsk \<ge> bestBid then Some (bestAsk - bestBid) else None
     | _ \<Rightarrow> None)"

definition getBidLevelsCount :: "OrderBook \<Rightarrow> nat" where
  "getBidLevelsCount b = length (bids b)"

definition getAskLevelsCount :: "OrderBook \<Rightarrow> nat" where
  "getAskLevelsCount b = length (asks b)"

definition getActiveOrdersCount :: "OrderBook \<Rightarrow> nat" where
  "getActiveOrdersCount b = length (orderMap b)"

definition getTotalTradesCount :: "OrderBook \<Rightarrow> u64" where
  "getTotalTradesCount b = totalTradesCount b"

definition getTotalVolumeTraded :: "OrderBook \<Rightarrow> u64" where
  "getTotalVolumeTraded b = totalVolumeTraded b"

text \<open>The destructor returns the orders and the levels to their pools.\<close>

definition OrderBook_destroy :: "OrderBook \<Rightarrow> OrderBook" where
  "OrderBook_destroy b =
     (let b1 = (fold (\<lambda>(_, order) b. free_order order b) (orderMap b) b)\<lparr>orderMap := []\<rparr>;
          b2 = (fold (\<lambda>(_, lvl) b. free_level lvl b) (bids b1) b1)\<lparr>bids := []\<rparr>;
          b3 = (fold (\<lambda>(_, lvl) b. free_level lvl b) (asks b2) b2)\<lparr>asks := []\<rparr>
      in b3)"

section \<open>How writes are seen by reads\<close>

lemma upd_order_simps [simp]:
  "orders (upd_order p f b) = (orders b)(p := f (orders b p))"
  "bids (upd_order p f b) = bids b" "asks (upd_order p f b) = asks b"
  "orderMap (upd_order p f b) = orderMap b" "levelPool (upd_order p f b) = levelPool b"
  "freeList (orderPool (upd_order p f b)) = freeList (orderPool b)"
  "poolCapacity (orderPool (upd_order p f b)) = poolCapacity (orderPool b)"
  "totalTradesCount (upd_order p f b) = totalTradesCount b"
  "totalVolumeTraded (upd_order p f b) = totalVolumeTraded b"
  by (simp_all add: upd_order_def)

lemma upd_level_simps [simp]:
  "levels (upd_level lp g b) = (levels b)(lp := g (levels b lp))"
  "bids (upd_level lp g b) = bids b" "asks (upd_level lp g b) = asks b"
  "orderMap (upd_level lp g b) = orderMap b" "orderPool (upd_level lp g b) = orderPool b"
  "freeList (levelPool (upd_level lp g b)) = freeList (levelPool b)"
  "poolCapacity (levelPool (upd_level lp g b)) = poolCapacity (levelPool b)"
  "totalTradesCount (upd_level lp g b) = totalTradesCount b"
  "totalVolumeTraded (upd_level lp g b) = totalVolumeTraded b"
  by (simp_all add: upd_level_def)

lemma on_level_simps [simp]:
  "orders (on_level lp m b) = fst (m (orders b, levels b lp))"
  "levels (on_level lp m b) = (levels b)(lp := snd (m (orders b, levels b lp)))"
  "bids (on_level lp m b) = bids b" "asks (on_level lp m b) = asks b"
  "orderMap (on_level lp m b) = orderMap b"
  "freeList (orderPool (on_level lp m b)) = freeList (orderPool b)"
  "freeList (levelPool (on_level lp m b)) = freeList (levelPool b)"
  "poolCapacity (orderPool (on_level lp m b)) = poolCapacity (orderPool b)"
  "poolCapacity (levelPool (on_level lp m b)) = poolCapacity (levelPool b)"
  "totalTradesCount (on_level lp m b) = totalTradesCount b"
  "totalVolumeTraded (on_level lp m b) = totalVolumeTraded b"
  by (simp_all add: on_level_def split_beta)

lemma free_order_simps [simp]:
  "orders (free_order p b) = orders b" "levelPool (free_order p b) = levelPool b"
  "bids (free_order p b) = bids b" "asks (free_order p b) = asks b"
  "orderMap (free_order p b) = orderMap b"
  "freeList (orderPool (free_order p b)) = freeList (orderPool b) @ [p]"
  "poolCapacity (orderPool (free_order p b)) = poolCapacity (orderPool b)"
  "totalTradesCount (free_order p b) = totalTradesCount b"
  "totalVolumeTraded (free_order p b) = totalVolumeTraded b"
  by (simp_all add: free_order_def deallocate_def)

lemma free_level_simps [simp]:
  "levels (free_level lp b) = levels b" "orderPool (free_level lp b) = orderPool b"
  "bids (free_level lp b) = bids b" "asks (free_level lp b) = asks b"
  "orderMap (free_level lp b) = orderMap b"
  "freeList (levelPool (free_level lp b)) = freeList (levelPool b) @ [lp]"
  "poolCapacity (levelPool (free_level lp b)) = poolCapacity (levelPool b)"
  "totalTradesCount (free_level lp b) = totalTradesCount b"
  "totalVolumeTraded (free_level lp b) = totalVolumeTraded b"
  by (simp_all add: free_level_def deallocate_def)

end
