(* ===== verification/Lob_Spec.thy ===== *)
theory Lob_Spec
  imports Lob_Types
begin

text \<open>
  What an order book promises, with no pools, levels or pointers: each side is the list of its
  resting orders \<open>(price, id, remaining quantity)\<close> in priority order (better price first,
  then earlier arrival). An incoming order sweeps the opposite side from the front; what is
  left of a limit order rests behind every order of its own side whose price is as good.

  The lemmas show what a sweep does (conservation of quantity, a prefix of the queue is
  consumed, the rest is untouched) and that the invariant of the specification (sorted
  sides, positive quantities, distinct ids, never crossed) is kept.
\<close>

type_synonym resting = "Price \<times> OrderId \<times> Quantity"
type_synonym spec_book = "Side \<Rightarrow> resting list"

abbreviation r_price :: "resting \<Rightarrow> Price" where "r_price x \<equiv> fst x"
abbreviation r_id :: "resting \<Rightarrow> OrderId" where "r_id x \<equiv> fst (snd x)"
abbreviation r_qty :: "resting \<Rightarrow> Quantity" where "r_qty x \<equiv> snd (snd x)"

fun sweep :: "(Price \<Rightarrow> bool) \<Rightarrow> Quantity \<Rightarrow> resting list \<Rightarrow> Quantity \<times> resting list \<times> resting list" where
  "sweep ok r [] = (r, [], [])"
| "sweep ok r ((p, i, q) # os) =
     (if r = 0 \<or> \<not> ok p then (r, (p, i, q) # os, [])
      else if q \<le> r then
        (let (r', os', fs) = sweep ok (r - q) os in (r', os', (p, i, q) # fs))
      else (0, (p, i, q - r) # os, [(p, i, r)]))"

fun insert_resting :: "Side \<Rightarrow> resting \<Rightarrow> resting list \<Rightarrow> resting list" where
  "insert_resting sd x [] = [x]"
| "insert_resting sd x (y # ys) =
     (if better sd (r_price x) (r_price y) then x # y # ys else y # insert_resting sd x ys)"

definition acceptable :: "OrderType \<Rightarrow> Side \<Rightarrow> Price \<Rightarrow> Price \<Rightarrow> bool" where
  "acceptable ty sd limit p \<longleftrightarrow> ty \<noteq> LIMIT \<or> \<not> better (opposite sd) limit p"

definition spec_ids :: "spec_book \<Rightarrow> OrderId set" where
  "spec_ids S = r_id ` (set (S BUY) \<union> set (S SELL))"

definition spec_add ::
  "OrderId \<Rightarrow> Side \<Rightarrow> Price \<Rightarrow> Quantity \<Rightarrow> OrderType \<Rightarrow> spec_book \<Rightarrow> spec_book \<times> resting list" where
  "spec_add i sd p q ty S =
     (if q = 0 \<or> i \<in> spec_ids S then (S, [])
      else let (r, os, fs) = sweep (acceptable ty sd p) q (S (opposite sd));
               S1 = S(opposite sd := os)
           in (if r > 0 \<and> ty = LIMIT then S1(sd := insert_resting sd (p, i, r) (S sd)) else S1, fs))"

definition spec_cancel :: "OrderId \<Rightarrow> spec_book \<Rightarrow> spec_book" where
  "spec_cancel i S = (\<lambda>sd. filter (\<lambda>x. r_id x \<noteq> i) (S sd))"

definition spec_volume :: "resting list \<Rightarrow> nat" where
  "spec_volume os = (\<Sum>x\<leftarrow>os. unat (r_qty x))"

text \<open>The best price of a side and the quantity offered at it.\<close>

definition spec_best :: "spec_book \<Rightarrow> Side \<Rightarrow> (Price \<times> nat) option" where
  "spec_best S sd = (case S sd of [] \<Rightarrow> None
     | x # _ \<Rightarrow> Some (r_price x, spec_volume (filter (\<lambda>y. r_price y = r_price x) (S sd))))"

section \<open>What a sweep does\<close>

lemma spec_volume_simps [simp]:
  "spec_volume [] = 0"
  "spec_volume (x # os) = unat (r_qty x) + spec_volume os"
  "spec_volume (os @ os') = spec_volume os + spec_volume os'"
  by (simp_all add: spec_volume_def)

lemma sweep_zero [simp]: "sweep ok 0 os = (0, os, [])"
  by (cases os) auto

lemma sweep_unacceptable: "os \<noteq> [] \<Longrightarrow> \<not> ok (r_price (hd os)) \<Longrightarrow> sweep ok r os = (r, os, [])"
  by (cases os) auto

text \<open>The incoming quantity is what is left plus what was filled; so is the side's.\<close>

lemma sweep_conserves:
  "sweep ok r os = (r', os', fs) \<Longrightarrow>
     unat r = unat r' + spec_volume fs \<and> spec_volume os = spec_volume os' + spec_volume fs"
proof (induction ok r os arbitrary: r' os' fs rule: sweep.induct)
  case (1 ok r)
  then show ?case by simp
next
  case (2 ok r p i q os)
  show ?case
  proof (cases "r \<noteq> 0 \<and> ok p \<and> q \<le> r")
    case True
    obtain fs1 where s: "sweep ok (r - q) os = (r', os', fs1)" and fs: "fs = (p, i, q) # fs1"
      using 2(2) True by (auto split: prod.splits)
    have "unat (r - q) = unat r' + spec_volume fs1 \<and> spec_volume os = spec_volume os' + spec_volume fs1"
      using 2(1) True s by simp
    moreover have "unat (r - q) = unat r - unat q" "unat q \<le> unat r"
      using True by (auto simp: unat_sub word_le_nat_alt)
    ultimately show ?thesis using fs by auto
  next
    case False
    then show ?thesis using 2(2) by (auto simp: unat_sub word_le_nat_alt split: if_splits)
  qed
qed

text \<open>
  Price-time priority: the fills are a prefix of the side, in its order, each filled in full
  but the last, which may leave a remainder at the front; the rest of the side is untouched.
\<close>

lemma sweep_prefix:
  assumes "sweep ok r os = (r', os', fs)"
  shows "(os = fs @ os' \<and> (r' = 0 \<or> os' = [] \<or> \<not> ok (r_price (hd os')))) \<or>
     (\<exists>full p i q f rest. os = full @ (p, i, q) # rest \<and> fs = full @ [(p, i, f)] \<and>
        os' = (p, i, q - f) # rest \<and> 0 < f \<and> f < q \<and> r' = 0)"
  using assms
proof (induction ok r os arbitrary: r' os' fs rule: sweep.induct)
  case (1 ok r)
  then show ?case by simp
next
  case (2 ok r p i q os)
  show ?case
  proof (cases "r \<noteq> 0 \<and> ok p \<and> q \<le> r")
    case True
    obtain fs1 where s: "sweep ok (r - q) os = (r', os', fs1)" and fs: "fs = (p, i, q) # fs1"
      using 2(2) True by (auto split: prod.splits)
    from 2(1) True s have "(os = fs1 @ os' \<and> (r' = 0 \<or> os' = [] \<or> \<not> ok (r_price (hd os')))) \<or>
      (\<exists>full p i q f rest. os = full @ (p, i, q) # rest \<and> fs1 = full @ [(p, i, f)] \<and>
        os' = (p, i, q - f) # rest \<and> 0 < f \<and> f < q \<and> r' = 0)" by simp
    then show ?thesis
    proof (elim disjE exE conjE)
      fix full p' i' q' f rest
      assume "os = full @ (p', i', q') # rest" "fs1 = full @ [(p', i', f)]"
        "os' = (p', i', q' - f) # rest" "0 < f" "f < q'" "r' = 0"
      then show ?thesis using fs by (intro disjI2 exI [of _ "(p, i, q) # full"]) auto
    qed (use fs in auto)
  next
    case False
    show ?thesis
    proof (cases "r = 0 \<or> \<not> ok p")
      case True
      then show ?thesis using 2(2) by auto
    next
      case nz: False
      with False 2(2) have "fs = [(p, i, r)]" "os' = (p, i, q - r) # os" "r' = 0" "r < q"
        by auto
      with nz show ?thesis by (intro disjI2 exI [of _ "[]"]) (auto simp: word_gt_0)
    qed
  qed
qed

lemma sweep_fills_ok: "sweep ok r os = (r', os', fs) \<Longrightarrow> x \<in> set fs \<Longrightarrow> ok (r_price x)"
  by (induction ok r os arbitrary: r' os' fs rule: sweep.induct)
     (fastforce split: if_splits prod.splits)+

lemma sweep_cases:
  assumes "sweep ok r os = (r', os', fs)"
  obtains (whole) "os = fs @ os'" "r' = 0 \<or> os' = [] \<or> \<not> ok (r_price (hd os'))"
    | (partial) full p i q f rest where "os = full @ (p, i, q) # rest" "fs = full @ [(p, i, f)]"
      "os' = (p, i, q - f) # rest" "0 < f" "f < q" "r' = 0"
  using sweep_prefix [OF assms] by blast

text \<open>A sweep changes nothing but quantities, and drops a prefix.\<close>

lemma sweep_keeps:
  assumes "sweep ok r os = (r', os', fs)"
  shows "\<exists>n. map (\<lambda>x. (r_price x, r_id x)) os' = drop n (map (\<lambda>x. (r_price x, r_id x)) os)"
  using assms
proof (cases rule: sweep_cases)
  case whole
  then show ?thesis by (intro exI [of _ "length fs"]) simp
next
  case (partial full p i q f rest)
  then show ?thesis by (intro exI [of _ "length full"]) simp
qed

lemma sweep_positive:
  assumes "sweep ok r os = (r', os', fs)" and "\<And>x. x \<in> set os \<Longrightarrow> r_qty x \<noteq> 0"
  shows "\<And>x. x \<in> set os' \<Longrightarrow> r_qty x \<noteq> 0" and "\<And>x. x \<in> set fs \<Longrightarrow> r_qty x \<noteq> 0"
  using assms by (cases rule: sweep_cases; fastforce)+

lemma sweep_exhausts: "sweep ok r os = (r', os', fs) \<Longrightarrow> r' \<noteq> 0 \<Longrightarrow> os' = [] \<or> \<not> ok (r_price (hd os'))"
  using sweep_prefix [of ok r os r' os' fs] by auto

text \<open>A sweep over a concatenation goes on with the second part once the first is used up.\<close>

lemma sweep_append:
  "sweep ok r (xs @ ys) =
     (let (r1, xs1, f1) = sweep ok r xs
      in if xs1 = [] then (let (r2, ys2, f2) = sweep ok r1 ys in (r2, ys2, f1 @ f2))
         else (r1, xs1 @ ys, f1))"
  by (induction ok r xs rule: sweep.induct) (auto split: prod.splits simp: Let_def)

section \<open>Insertion in priority order\<close>

definition prio :: "Side \<Rightarrow> resting \<Rightarrow> resting \<Rightarrow> bool" where
  "prio sd x y \<longleftrightarrow> \<not> better sd (r_price y) (r_price x)"

lemma prio_trans: "prio sd x y \<Longrightarrow> prio sd y z \<Longrightarrow> prio sd x z"
  unfolding prio_def by (rule prices.le_trans)

lemma insert_resting_split:
  assumes "sorted_wrt (prio sd) os"
  shows "insert_resting sd x os =
    filter (\<lambda>y. \<not> better sd (r_price x) (r_price y)) os @ x #
    filter (\<lambda>y. better sd (r_price x) (r_price y)) os"
  using assms
proof (induction os)
  case Nil
  then show ?case by simp
next
  case (Cons y os)
  show ?case
  proof (cases "better sd (r_price x) (r_price y)")
    case True
    have "better sd (r_price x) (r_price z)" if "z \<in> set os" for z
    proof -
      have "\<not> better sd (r_price z) (r_price y)" using Cons.prems that by (simp add: prio_def)
      with True show ?thesis by (rule prices.lt_le_trans)
    qed
    then have "filter (\<lambda>y. \<not> better sd (r_price x) (r_price y)) os = []"
      "filter (\<lambda>y. better sd (r_price x) (r_price y)) os = os"
      by (auto simp: filter_empty_conv filter_id_conv)
    with True show ?thesis by simp
  next
    case False
    with Cons show ?thesis by simp
  qed
qed

lemma mset_insert_resting: "mset (insert_resting sd x os) = add_mset x (mset os)"
  by (induction os) auto

lemma set_insert_resting [simp]: "set (insert_resting sd x os) = insert x (set os)"
  by (induction os) auto

lemma sorted_insert_resting:
  assumes "sorted_wrt (prio sd) os"
  shows "sorted_wrt (prio sd) (insert_resting sd x os)"
proof -
  let ?before = "filter (\<lambda>y. \<not> better sd (r_price x) (r_price y)) os"
    and ?after = "filter (\<lambda>y. better sd (r_price x) (r_price y)) os"
  have "sorted_wrt (prio sd) ?before" "sorted_wrt (prio sd) ?after"
    using assms by (simp_all add: sorted_wrt_filter)
  moreover have "prio sd x z" if "z \<in> set ?after" for z
    using that prices.asym by (simp add: prio_def)
  moreover have "prio sd y x" if "y \<in> set ?before" for y
    using that by (simp add: prio_def)
  moreover have "prio sd y z" if "y \<in> set ?before" "z \<in> set ?after" for y z
    using calculation(3) [OF that(2)] calculation(4) [OF that(1)] prio_trans by blast
  ultimately show ?thesis
    unfolding insert_resting_split [OF assms] sorted_wrt_append by simp
qed

section \<open>The invariant of the specification\<close>

definition uncrossed :: "spec_book \<Rightarrow> bool" where
  "uncrossed S \<longleftrightarrow> (\<forall>x \<in> set (S BUY). \<forall>y \<in> set (S SELL). r_price x < r_price y)"

definition spec_inv :: "spec_book \<Rightarrow> bool" where
  "spec_inv S \<longleftrightarrow> (\<forall>sd. sorted_wrt (prio sd) (S sd)) \<and>
     (\<forall>sd. \<forall>x \<in> set (S sd). r_qty x \<noteq> 0) \<and>
     distinct (map r_id (S BUY @ S SELL)) \<and> uncrossed S"

lemma spec_inv_empty [simp]: "spec_inv (\<lambda>_. [])"
  by (simp add: spec_inv_def uncrossed_def)

lemma uncrossed_side:
  "uncrossed S \<longleftrightarrow>
     (\<forall>x \<in> set (S sd). \<forall>y \<in> set (S (opposite sd)). better (opposite sd) (r_price x) (r_price y))"
  by (cases sd) (auto simp: uncrossed_def)

lemma spec_ids_side: "spec_ids S = r_id ` (set (S sd) \<union> set (S (opposite sd)))"
  by (cases sd) (auto simp: spec_ids_def)

lemma distinct_ids_side:
  "distinct (map r_id (S BUY @ S SELL)) \<longleftrightarrow> distinct (map r_id (S sd @ S (opposite sd)))"
  by (cases sd) auto

lemma spec_inv_side:
  "spec_inv S \<longleftrightarrow> sorted_wrt (prio sd) (S sd) \<and> sorted_wrt (prio (opposite sd)) (S (opposite sd)) \<and>
     (\<forall>x \<in> set (S sd) \<union> set (S (opposite sd)). r_qty x \<noteq> 0) \<and>
     distinct (map r_id (S sd @ S (opposite sd))) \<and>
     (\<forall>x \<in> set (S sd). \<forall>y \<in> set (S (opposite sd)). better (opposite sd) (r_price x) (r_price y))"
proof -
  have all: "(\<forall>s. P s) \<longleftrightarrow> P sd \<and> P (opposite sd)" for P
    by (metis side_eq_opposite)
  show ?thesis
    unfolding spec_inv_def uncrossed_side [of S sd] distinct_ids_side [of S sd] ball_Un
    by (simp only: all conj_assoc)
qed

text \<open>Replacing a side by part of it: the invariant speaks of prices, ids and positivity only.\<close>

lemma sorted_prio_keep:
  assumes "map (\<lambda>x. (r_price x, r_id x)) os' = drop n (map (\<lambda>x. (r_price x, r_id x)) os)"
    and "sorted_wrt (prio sd) os"
  shows "sorted_wrt (prio sd) os'"
proof -
  let ?R = "\<lambda>x y :: Price \<times> OrderId. \<not> better sd (fst y) (fst x)"
  have *: "sorted_wrt (prio sd) zs \<longleftrightarrow> sorted_wrt ?R (map (\<lambda>x. (r_price x, r_id x)) zs)" for zs
    by (simp add: sorted_wrt_map prio_def [abs_def])
  show ?thesis using assms unfolding * by (simp add: sorted_wrt_drop)
qed

lemma keep_prices_ids:
  assumes "map (\<lambda>x. (r_price x, r_id x)) os' = drop n (map (\<lambda>x. (r_price x, r_id x)) os)"
  shows "map r_price os' = drop n (map r_price os)" and "map r_id os' = drop n (map r_id os)"
proof -
  have "map fst (map (\<lambda>x. (r_price x, r_id x)) os') = map fst (drop n (map (\<lambda>x. (r_price x, r_id x)) os))"
    "map snd (map (\<lambda>x. (r_price x, r_id x)) os') = map snd (drop n (map (\<lambda>x. (r_price x, r_id x)) os))"
    by (simp_all only: assms)
  then show "map r_price os' = drop n (map r_price os)" "map r_id os' = drop n (map r_id os)"
    by (simp_all add: drop_map comp_def)
qed

lemma spec_inv_sweep:
  assumes inv: "spec_inv S" and s: "sweep ok r (S sd) = (r', os', fs)"
  shows "spec_inv (S(sd := os'))" and "spec_ids (S(sd := os')) \<subseteq> spec_ids S"
proof -
  obtain n where n: "map (\<lambda>x. (r_price x, r_id x)) os' = drop n (map (\<lambda>x. (r_price x, r_id x)) (S sd))"
    using sweep_keeps [OF s] by blast
  note keep = keep_prices_ids [OF n]
  have prices: "r_price ` set os' \<subseteq> r_price ` set (S sd)"
    and ids: "r_id ` set os' \<subseteq> r_id ` set (S sd)"
    unfolding list.set_map [symmetric] keep by (rule set_drop_subset)+
  have "sorted_wrt (prio sd) os'"
    using n inv by (rule_tac sorted_prio_keep) (auto simp: spec_inv_def)
  moreover have "distinct (map r_id (os' @ S (opposite sd)))"
  proof -
    have d: "distinct (map r_id (S sd))" "distinct (map r_id (S (opposite sd)))"
      "r_id ` set (S sd) \<inter> r_id ` set (S (opposite sd)) = {}"
      using inv by (simp_all add: spec_inv_side [of S sd])
    have "distinct (map r_id os')" unfolding keep(2) using d(1) by (rule distinct_drop)
    then show ?thesis
      using d(2) disjoint_mono [OF d(3) ids order_refl] by simp
  qed
  moreover have "better (opposite sd) (r_price x) (r_price y)"
    if "x \<in> set os'" "y \<in> set (S (opposite sd))" for x y
  proof -
    have "r_price x \<in> r_price ` set (S sd)"
      using prices imageI [OF that(1)] by (rule subsetD)
    then obtain z where "z \<in> set (S sd)" "r_price x = r_price z" by (elim imageE)
    with that(2) inv show ?thesis by (simp add: spec_inv_side [of S sd])
  qed
  moreover have "\<forall>x \<in> set os' \<union> set (S (opposite sd)). r_qty x \<noteq> 0"
    using sweep_positive(1) [OF s] inv by (auto simp: spec_inv_def)
  ultimately show "spec_inv (S(sd := os'))"
    using inv unfolding spec_inv_side [of _ sd] by simp
  show "spec_ids (S(sd := os')) \<subseteq> spec_ids S"
    using ids by (auto simp: spec_ids_side [of _ sd])
qed

text \<open>The two operations keep the invariant; in particular the book never crosses.\<close>

lemma spec_inv_add:
  assumes inv: "spec_inv S"
  shows "spec_inv (fst (spec_add i sd p q ty S))"
proof -
  obtain r os fs where s: "sweep (acceptable ty sd p) q (S (opposite sd)) = (r, os, fs)"
    by (metis prod_cases3)
  let ?S1 = "S(opposite sd := os)"
  have inv1: "spec_inv ?S1" and ids1: "spec_ids ?S1 \<subseteq> spec_ids S"
    using spec_inv_sweep [OF inv s] .
  have "spec_inv (?S1(sd := insert_resting sd (p, i, r) (S sd)))"
    if r: "r > 0" and ty: "ty = LIMIT" and new: "i \<notin> spec_ids S"
  proof -
    have beyond: "better (opposite sd) p (r_price y)" if "y \<in> set os" for y
    proof -
      have "os \<noteq> []" using that by auto
      then have "better (opposite sd) p (r_price (hd os))"
        using sweep_exhausts [OF s] r ty by (auto simp: acceptable_def)
      moreover have "y = hd os \<or> prio (opposite sd) (hd os) y"
        using inv1 that by (cases os) (auto simp: spec_inv_side [of _ sd])
      ultimately show ?thesis
        unfolding prio_def using prices.lt_le_trans by blast
    qed
    have fresh: "i \<notin> r_id ` set (S sd) \<union> r_id ` set os"
      using new ids1 by (auto simp: spec_ids_side [of _ sd])
    have "mset (map r_id (insert_resting sd (p, i, r) (S sd))) = mset (i # map r_id (S sd))"
      by (simp add: mset_insert_resting)
    then have "distinct (map r_id (insert_resting sd (p, i, r) (S sd))) =
        distinct (i # map r_id (S sd))"
      by (rule mset_eq_imp_distinct_iff)
    then have "distinct (map r_id (insert_resting sd (p, i, r) (S sd)))"
      using inv fresh by (simp add: spec_inv_side [of _ sd])
    moreover have "sorted_wrt (prio sd) (insert_resting sd (p, i, r) (S sd))"
      using inv by (intro sorted_insert_resting) (simp add: spec_inv_def)
    ultimately show ?thesis
      using inv1 r beyond fresh unfolding spec_inv_side [of _ sd] by (simp add: word_gt_0)
  qed
  then show ?thesis using inv inv1 by (simp add: spec_add_def s Let_def)
qed

lemma spec_inv_cancel:
  assumes "spec_inv S"
  shows "spec_inv (spec_cancel i S)"
proof -
  have sub: "set (spec_cancel i S sd) \<subseteq> set (S sd)" for sd
    by (auto simp: spec_cancel_def)
  have "distinct (map r_id (spec_cancel i S sd))" for sd
    using assms by (cases sd) (auto simp: spec_inv_def spec_cancel_def distinct_map_filter)
  moreover have "r_id ` set (spec_cancel i S BUY) \<inter> r_id ` set (spec_cancel i S SELL) = {}"
    using assms by (intro disjoint_mono [OF _ image_mono [OF sub] image_mono [OF sub]])
      (simp add: spec_inv_def)
  ultimately have "distinct (map r_id (spec_cancel i S BUY @ spec_cancel i S SELL))"
    by simp
  moreover have "sorted_wrt (prio sd) (spec_cancel i S sd)" for sd
    using assms by (simp add: spec_inv_def spec_cancel_def sorted_wrt_filter)
  moreover have "uncrossed (spec_cancel i S)"
    using assms sub unfolding spec_inv_def uncrossed_def by (meson subsetD)
  moreover have "\<forall>sd. \<forall>x \<in> set (spec_cancel i S sd). r_qty x \<noteq> 0"
    using assms sub unfolding spec_inv_def by (meson subsetD)
  ultimately show ?thesis unfolding spec_inv_def by simp
qed

lemma spec_cancel_fresh: "i \<notin> spec_ids S \<Longrightarrow> spec_cancel i S = S"
proof
  fix sd
  assume "i \<notin> spec_ids S"
  then show "spec_cancel i S sd = S sd"
    by (auto simp: spec_ids_side [of _ sd] spec_cancel_def filter_id_conv)
qed

end
