(* ===== verification/Lob_Layout.thy ===== *)
theory Lob_Layout
  imports Lob_Book Lob_Spec
begin

text \<open>
  The well-formed layouts of an order book in memory, and the abstract book a layout stands for.

  A layout lists, for each side, the price levels in map order with their slot and the slots of
  their orders. \<open>layout_ok b G F\<close> says that the book \<open>b\<close> is laid out as \<open>G\<close>, with
  the order slots \<open>F\<close> allocated but not in the book (an incoming order during matching):
  the maps and the linked lists match \<open>G\<close>, every slot of a pool is free or used once, and
  \<open>orderMap\<close> has exactly the orders of \<open>G\<close>. It does not speak of remaining quantities
  and volumes, so the writes of the matching loop keep it. The lemmas of the last section
  say what each write to the book does to its layout.
\<close>

type_synonym glevel = "Price \<times> level_ptr \<times> order_ptr list"
type_synonym layout = "Side \<Rightarrow> glevel list"

abbreviation g_key :: "glevel \<Rightarrow> Price" where "g_key g \<equiv> fst g"
abbreviation g_lp :: "glevel \<Rightarrow> level_ptr" where "g_lp g \<equiv> fst (snd g)"
abbreviation g_ps :: "glevel \<Rightarrow> order_ptr list" where "g_ps g \<equiv> snd (snd g)"

definition side_map :: "Side \<Rightarrow> OrderBook \<Rightarrow> (Price \<times> level_ptr) list" where
  "side_map sd b = (case sd of BUY \<Rightarrow> bids b | SELL \<Rightarrow> asks b)"

lemma side_map_simps [simp]: "side_map BUY b = bids b" "side_map SELL b = asks b"
  by (simp_all add: side_map_def)

lemma side_map_upd [simp]:
  "side_map sd (b\<lparr>orderPool := P\<rparr>) = side_map sd b" "side_map sd (b\<lparr>levelPool := Q\<rparr>) = side_map sd b"
  "side_map sd (b\<lparr>orderMap := m\<rparr>) = side_map sd b"
  "side_map sd (b\<lparr>totalTradesCount := x\<rparr>) = side_map sd b"
  "side_map sd (b\<lparr>totalVolumeTraded := x\<rparr>) = side_map sd b"
  "side_map sd (upd_order p f b) = side_map sd b" "side_map sd (upd_level lp g b) = side_map sd b"
  "side_map sd (on_level lp m' b) = side_map sd b"
  "side_map sd (free_order p b) = side_map sd b" "side_map sd (free_level lp b) = side_map sd b"
  by (cases sd; simp)+

section \<open>The abstract book\<close>

definition resting_of :: "order_store \<Rightarrow> Price \<Rightarrow> order_ptr \<Rightarrow> resting" where
  "resting_of h k p = (k, o_id (h p), o_remainingQty (h p))"

text \<open>
  The abstract book, computed from the state: walk every level in map order from its head. A
  queue is no longer than the pool.
\<close>

definition abs_book :: "OrderBook \<Rightarrow> spec_book" where
  "abs_book b sd = concat (map (\<lambda>(k, lp). map (resting_of (orders b) k)
      (walk (poolCapacity (orderPool b)) (orders b) (l_head (levels b lp)))) (side_map sd b))"

definition flat :: "order_store \<Rightarrow> glevel list \<Rightarrow> resting list" where
  "flat h gs = concat (map (\<lambda>g. map (resting_of h (g_key g)) (g_ps g)) gs)"

lemma flat_simps [simp]:
  "flat h [] = []"
  "flat h (g # gs) = map (resting_of h (g_key g)) (g_ps g) @ flat h gs"
  "flat h (gs @ gs') = flat h gs @ flat h gs'"
  by (simp_all add: flat_def)

section \<open>Well-formed layouts\<close>

text \<open>What the lists and maps depend on in an order and in a level.\<close>

definition links :: "Order \<Rightarrow> order_ptr option \<times> order_ptr option \<times> level_ptr option \<times> Price \<times> Side \<times> OrderType" where
  "links x = (o_prev x, o_next x, o_level x, o_price x, o_side x, o_type x)"

definition lmeta :: "PriceLevel \<Rightarrow> Price \<times> order_ptr option \<times> order_ptr option \<times> u64" where
  "lmeta l = (l_price l, l_head l, l_tail l, l_orderCount l)"

definition glevel_ok :: "order_store \<Rightarrow> (level_ptr \<Rightarrow> PriceLevel) \<Rightarrow> Side \<Rightarrow> glevel \<Rightarrow> bool" where
  "glevel_ok h L sd g \<longleftrightarrow> level_ok h (L (g_lp g)) (g_ps g) \<and> l_price (L (g_lp g)) = g_key g \<and>
     (\<forall>p \<in> set (g_ps g). o_level (h p) = Some (g_lp g) \<and> o_price (h p) = g_key g \<and>
        o_side (h p) = sd \<and> o_type (h p) = LIMIT)"

lemma glevel_ok_cong:
  assumes "\<And>p. p \<in> set (g_ps g) \<Longrightarrow> links (h' p) = links (h p)"
    and "lmeta (L' (g_lp g)) = lmeta (L (g_lp g))"
  shows "glevel_ok h' L' sd g = glevel_ok h L sd g"
proof -
  have "level_ok h' (L' (g_lp g)) (g_ps g) = level_ok h (L (g_lp g)) (g_ps g)"
    using assms by (intro level_ok_cong) (auto simp: links_def lmeta_def)
  then show ?thesis
    using assms unfolding glevel_ok_def by (auto simp: links_def lmeta_def)
qed

definition side_ok :: "OrderBook \<Rightarrow> Side \<Rightarrow> glevel list \<Rightarrow> bool" where
  "side_ok b sd gs \<longleftrightarrow> side_map sd b = map (\<lambda>g. (g_key g, g_lp g)) gs \<and>
     sorted_wrt (better sd) (map g_key gs) \<and> (\<forall>g \<in> set gs. glevel_ok (orders b) (levels b) sd g)"

definition g_orders :: "glevel list \<Rightarrow> order_ptr multiset" where
  "g_orders gs = mset (concat (map g_ps gs))"

definition g_levels :: "glevel list \<Rightarrow> level_ptr multiset" where
  "g_levels gs = mset (map g_lp gs)"

lemma g_orders_simps [simp]:
  "g_orders [] = {#}" "g_orders (g # gs) = mset (g_ps g) + g_orders gs"
  "g_orders (gs @ gs') = g_orders gs + g_orders gs'"
  by (simp_all add: g_orders_def)

lemma g_levels_simps [simp]:
  "g_levels [] = {#}" "g_levels (g # gs) = add_mset (g_lp g) (g_levels gs)"
  "g_levels (gs @ gs') = g_levels gs + g_levels gs'"
  by (simp_all add: g_levels_def)

lemma in_g_orders: "p \<in># g_orders gs \<longleftrightarrow> (\<exists>g \<in> set gs. p \<in> set (g_ps g))"
  by (auto simp: g_orders_def)

lemma in_g_levels: "lp \<in># g_levels gs \<longleftrightarrow> (\<exists>g \<in> set gs. g_lp g = lp)"
  by (auto simp: g_levels_def)

definition live :: "layout \<Rightarrow> order_ptr multiset" where
  "live G = g_orders (G BUY) + g_orders (G SELL)"

definition live_levels :: "layout \<Rightarrow> level_ptr multiset" where
  "live_levels G = g_levels (G BUY) + g_levels (G SELL)"

lemma live_side: "live G = g_orders (G sd) + g_orders (G (opposite sd))"
  by (cases sd) (simp_all add: live_def)

lemma live_levels_side: "live_levels G = g_levels (G sd) + g_levels (G (opposite sd))"
  by (cases sd) (simp_all add: live_levels_def)

definition map_ok :: "OrderBook \<Rightarrow> layout \<Rightarrow> bool" where
  "map_ok b G \<longleftrightarrow> distinct (map fst (orderMap b)) \<and>
     mset (orderMap b) = image_mset (\<lambda>p. (o_id (orders b p), p)) (live G)"

definition layout_ok :: "OrderBook \<Rightarrow> layout \<Rightarrow> order_ptr multiset \<Rightarrow> bool" where
  "layout_ok b G F \<longleftrightarrow> (\<forall>sd. side_ok b sd (G sd)) \<and> pool_ok (orderPool b) (live G + F) \<and>
     pool_ok (levelPool b) (live_levels G) \<and> poolCapacity (orderPool b) < 2 ^ 64 \<and> map_ok b G"

lemma layout_okD:
  assumes "layout_ok b G F"
  shows "side_ok b sd (G sd)" "pool_ok (orderPool b) (live G + F)" "pool_ok (levelPool b) (live_levels G)"
    "poolCapacity (orderPool b) < 2 ^ 64" "map_ok b G"
  using assms by (auto simp: layout_ok_def)

definition flatten :: "OrderBook \<Rightarrow> layout \<Rightarrow> spec_book" where
  "flatten b G sd = flat (orders b) (G sd)"

definition nonempty_levels :: "layout \<Rightarrow> bool" where
  "nonempty_levels G \<longleftrightarrow> (\<forall>sd. \<forall>g \<in> set (G sd). g_ps g \<noteq> [])"

lemma nonempty_levelsD: "nonempty_levels G \<Longrightarrow> g \<in> set (G sd) \<Longrightarrow> g_ps g \<noteq> []"
  by (simp add: nonempty_levels_def)

lemma nonempty_levels_upd:
  "nonempty_levels G \<Longrightarrow> (\<And>g. g \<in> set gs \<Longrightarrow> g_ps g \<noteq> []) \<Longrightarrow> nonempty_levels (G(sd := gs))"
  by (simp add: nonempty_levels_def)

text \<open>A slot is used once: a level shares no slot with the rest of the book.\<close>

lemma layout_sep:
  assumes "layout_ok b G F" and "G sd = pre @ g # post" and "p \<in> set (g_ps g)"
  shows "p \<notin># g_orders pre" "p \<notin># g_orders post" "p \<notin># g_orders (G (opposite sd))" "p \<notin># F"
proof -
  let ?R = "g_orders pre + g_orders post + g_orders (G (opposite sd)) + F"
  have "live G + F = mset (g_ps g) + ?R"
    by (simp add: live_side [of G sd] assms(2))
  moreover have "count (live G + F) p = 1"
    using pool.ok_live [OF layout_okD(2) [OF assms(1)]] assms(2,3) by (simp add: live_side [of G sd])
  ultimately have "p \<notin># ?R" using assms(3) by (metis count_one_sep set_mset_mset)
  then show "p \<notin># g_orders pre" "p \<notin># g_orders post" "p \<notin># g_orders (G (opposite sd))" "p \<notin># F"
    by auto
qed

lemma layout_sep_level:
  assumes "layout_ok b G F" and "G sd = pre @ g # post"
  shows "g_lp g \<notin># g_levels pre" "g_lp g \<notin># g_levels post" "g_lp g \<notin># g_levels (G (opposite sd))"
proof -
  let ?R = "g_levels pre + g_levels post + g_levels (G (opposite sd))"
  have split: "live_levels G = {#g_lp g#} + ?R"
    by (simp add: live_levels_side [of G sd] assms(2))
  moreover have "g_lp g \<in># live_levels G" unfolding split by simp
  then have "count (live_levels G) (g_lp g) = 1"
    using pool.ok_live [OF layout_okD(3) [OF assms(1)]] by blast
  ultimately have "g_lp g \<notin># ?R" by (metis count_one_sep union_single_eq_member add_mset_add_single)
  then show "g_lp g \<notin># g_levels pre" "g_lp g \<notin># g_levels post" "g_lp g \<notin># g_levels (G (opposite sd))"
    by auto
qed

lemma layout_queue_length:
  assumes "layout_ok b G F" and "g \<in> set (G sd)"
  shows "length (g_ps g) \<le> poolCapacity (orderPool b)"
proof -
  obtain pre post where G: "G sd = pre @ g # post" using assms(2) by (meson split_list)
  have "size (live G + F) \<le> poolCapacity (orderPool b)"
    using pool.ok_size [OF layout_okD(2) [OF assms(1)]] by simp
  then show ?thesis by (simp add: live_side [of G sd] G)
qed

text \<open>The abstract book does not depend on the layout chosen: it is read off the state.\<close>

lemma abs_book_layout:
  assumes "layout_ok b G F"
  shows "abs_book b = flatten b G"
proof
  fix sd
  have "walk (poolCapacity (orderPool b)) (orders b) (l_head (levels b (g_lp g))) = g_ps g"
    if "g \<in> set (G sd)" for g
  proof (rule walk_level)
    show "level_ok (orders b) (levels b (g_lp g)) (g_ps g)"
      using layout_okD(1) [OF assms, of sd] that by (simp add: side_ok_def glevel_ok_def)
  qed (rule layout_queue_length [OF assms that])
  moreover have "side_map sd b = map (\<lambda>g. (g_key g, g_lp g)) (G sd)"
    using layout_okD(1) [OF assms, of sd] by (simp add: side_ok_def)
  ultimately show "abs_book b sd = flatten b G sd"
    by (simp add: abs_book_def flatten_def flat_def comp_def cong: map_cong)
qed

lemma layout_ok_init:
  "n < 2 ^ 64 \<Longrightarrow> layout_ok (book_init n m) (\<lambda>_. []) {#}"
proof -
  assume "n < 2 ^ 64"
  moreover have "side_map sd (book_init n m) = []" for sd
    by (cases sd) (simp_all add: book_init_def)
  moreover have "poolCapacity (orderPool (book_init n m)) = n"
    by (simp add: book_init_def ObjectPool_init_def)
  ultimately show ?thesis
    by (simp add: layout_ok_def side_ok_def live_def live_levels_def map_ok_def)
      (simp add: book_init_def)
qed

section \<open>Writes that a layout does not see\<close>

lemma layout_ok_cong:
  assumes "layout_ok b G F"
    and "\<And>sd. side_map sd b' = side_map sd b"
    and "\<And>p. p \<in># live G \<Longrightarrow> links (orders b' p) = links (orders b p) \<and> o_id (orders b' p) = o_id (orders b p)"
    and "\<And>lp. lp \<in># live_levels G \<Longrightarrow> lmeta (levels b' lp) = lmeta (levels b lp)"
    and "freeList (orderPool b') = freeList (orderPool b)" "poolCapacity (orderPool b') = poolCapacity (orderPool b)"
    and "freeList (levelPool b') = freeList (levelPool b)" "poolCapacity (levelPool b') = poolCapacity (levelPool b)"
    and "orderMap b' = orderMap b"
  shows "layout_ok b' G F"
proof -
  have "side_ok b' sd (G sd)" for sd
  proof -
    have "glevel_ok (orders b') (levels b') sd g = glevel_ok (orders b) (levels b) sd g" if "g \<in> set (G sd)" for g
    proof (rule glevel_ok_cong)
      show "links (orders b' p) = links (orders b p)" if "p \<in> set (g_ps g)" for p
        using assms(3) [of p] that \<open>g \<in> set (G sd)\<close> unfolding live_side [of G sd] by (auto simp: in_g_orders)
      show "lmeta (levels b' (g_lp g)) = lmeta (levels b (g_lp g))"
        using assms(4) [of "g_lp g"] that unfolding live_levels_side [of G sd] by (auto simp: in_g_levels)
    qed
    then show ?thesis using layout_okD(1) [OF assms(1), of sd] assms(2) by (simp add: side_ok_def)
  qed
  moreover have "image_mset (\<lambda>p. (o_id (orders b' p), p)) (live G) = image_mset (\<lambda>p. (o_id (orders b p), p)) (live G)"
    using assms(3) by (intro image_mset_cong) simp
  ultimately show ?thesis
    using assms(1,5-9) by (simp add: layout_ok_def map_ok_def pool_ok_def)
qed

lemma layout_upd_qty:
  assumes "layout_ok b G F"
  shows "layout_ok (upd_order p (\<lambda>ord. ord\<lparr>o_remainingQty := f ord\<rparr>) b) G F"
    and "layout_ok (upd_level lp (\<lambda>l. l\<lparr>l_totalVolume := g l\<rparr>) b) G F"
  using assms by (auto elim!: layout_ok_cong simp: links_def lmeta_def)

lemma layout_upd_counters:
  "layout_ok b G F \<Longrightarrow> layout_ok (b\<lparr>totalTradesCount := x, totalVolumeTraded := y\<rparr>) G F"
  by (erule layout_ok_cong) simp_all

section \<open>Slots that come and go\<close>

lemma layout_alloc:
  assumes ok: "layout_ok b G F" and a: "allocate v (orderPool b) = Inr (p, P')"
  shows "layout_ok (b\<lparr>orderPool := P'\<rparr>) G (add_mset p F)" and "p \<notin># live G"
    and "poolStorage P' = (orders b)(p := v)"
proof -
  have okP: "pool_ok (orderPool b) (live G + F)" using ok by (rule layout_okD)
  have p: "p \<notin># live G + F" using pool.alloc_fresh(1) [OF okP a] .
  then show "p \<notin># live G" by simp
  show st: "poolStorage P' = (orders b)(p := v)" using a by (rule pool.alloc_read)
  have "layout_ok (upd_order p (\<lambda>_. v) b) G F"
    using ok p by (rule_tac layout_ok_cong) auto
  moreover have "poolCapacity P' = poolCapacity (orderPool b)" using a by (rule pool.alloc_size)
  moreover have "pool_ok P' (live G + add_mset p F)" using pool.alloc_ok [OF okP a] by simp
  ultimately show "layout_ok (b\<lparr>orderPool := P'\<rparr>) G (add_mset p F)"
    by (simp add: layout_ok_def side_ok_def map_ok_def st)
qed

lemma layout_free:
  assumes "layout_ok b G (add_mset p F)"
  shows "layout_ok (free_order p b) G F"
proof -
  have "pool_ok (orderPool b) (add_mset p (live G + F))" using layout_okD(2) [OF assms] by simp
  then have "pool_ok (orderPool (free_order p b)) (live G + F)"
    unfolding free_order_def using pool.free_ok by simp
  with assms show ?thesis
    by (simp add: layout_ok_def side_ok_def map_ok_def)
qed

section \<open>Replacing one level\<close>

lemma sides_replace:
  assumes ok: "layout_ok b G F" and G: "G sd = pre @ g # post"
    and g': "g_key g' = g_key g" "g_lp g' = g_lp g" "glevel_ok (orders b') (levels b') sd g'"
    and h: "\<And>p. p \<in># g_orders pre + g_orders post + g_orders (G (opposite sd)) \<Longrightarrow>
        links (orders b' p) = links (orders b p)"
    and l: "\<And>lp. lp \<noteq> g_lp g \<Longrightarrow> lmeta (levels b' lp) = lmeta (levels b lp)"
    and sm: "\<And>s. side_map s b' = side_map s b"
  shows "side_ok b' s ((G(sd := pre @ g' # post)) s)"
proof -
  have keep: "glevel_ok (orders b') (levels b') s x"
    if "x \<in> set (if s = sd then pre @ post else G (opposite sd))" for x s
  proof -
    have x: "x \<in> set (G s)" using that G side_eq_opposite [of s sd] by (auto split: if_splits)
    then have old: "glevel_ok (orders b) (levels b) s x"
      using layout_okD(1) [OF ok, of s] by (simp add: side_ok_def)
    have "\<And>p. p \<in> set (g_ps x) \<Longrightarrow> p \<in># g_orders pre + g_orders post + g_orders (G (opposite sd))"
      using that by (auto simp: in_g_orders split: if_splits)
    moreover have "g_lp x \<in># g_levels pre + g_levels post + g_levels (G (opposite sd))"
      using that by (auto simp: in_g_levels split: if_splits)
    then have "g_lp x \<noteq> g_lp g" using layout_sep_level [OF ok G] by auto
    ultimately show ?thesis using old h l glevel_ok_cong by metis
  qed
  show ?thesis
  proof (cases "s = sd")
    case True
    then show ?thesis
      using layout_okD(1) [OF ok, of sd] keep [of _ sd] g' sm by (auto simp: side_ok_def G)
  next
    case False
    then have "s = opposite sd" by (simp add: side_eq_opposite)
    then show ?thesis
      using layout_okD(1) [OF ok, of "opposite sd"] keep [of _ "opposite sd"] sm by (auto simp: side_ok_def)
  qed
qed

end
