(* ===== verification/Lob_Moves.thy ===== *)
theory Lob_Moves
  imports Lob_Layout
begin

text \<open>
  What the moves of an order or a level do to the layout of a book: unlinking an order from its
  level, linking one at the tail of a level, dropping an empty level, and finding or creating
  the level of a price. The operations of the book are sequences of these moves.
\<close>

definition upd_side ::
  "Side \<Rightarrow> ((Price \<times> level_ptr) list \<Rightarrow> (Price \<times> level_ptr) list) \<Rightarrow> OrderBook \<Rightarrow> OrderBook" where
  "upd_side sd f b = (case sd of BUY \<Rightarrow> b\<lparr>bids := f (bids b)\<rparr> | SELL \<Rightarrow> b\<lparr>asks := f (asks b)\<rparr>)"

lemma upd_side_simps [simp]:
  "side_map sd (upd_side sd f b) = f (side_map sd b)"
  "side_map (opposite sd) (upd_side sd f b) = side_map (opposite sd) b"
  "orderPool (upd_side sd f b) = orderPool b" "levelPool (upd_side sd f b) = levelPool b"
  "orderMap (upd_side sd f b) = orderMap b"
  "totalTradesCount (upd_side sd f b) = totalTradesCount b"
  "totalVolumeTraded (upd_side sd f b) = totalVolumeTraded b"
  by (cases sd; simp add: upd_side_def)+

section \<open>Unlinking an order\<close>

definition unlink :: "level_ptr \<Rightarrow> order_ptr \<Rightarrow> OrderBook \<Rightarrow> OrderBook" where
  "unlink lp p b = on_level lp (PriceLevel_remove (Some p))
     (b\<lparr>orderMap := AList.delete (o_id (orders b p)) (orderMap b)\<rparr>)"

lemma layout_unlink:
  assumes ok: "layout_ok b G F" and G: "G sd = pre @ (k, lp, xs @ p # ys) # post"
  shows "layout_ok (unlink lp p b) (G(sd := pre @ (k, lp, xs @ ys) # post)) (add_mset p F)"
proof -
  let ?G = "G(sd := pre @ (k, lp, xs @ ys) # post)" and ?b = "unlink lp p b"
  let ?hl = "PriceLevel_remove (Some p) (orders b, levels b lp)"
  have heap: "orders ?b = fst ?hl" "levels ?b = (levels b)(lp := snd ?hl)"
    by (simp_all add: unlink_def)
  have old: "glevel_ok (orders b) (levels b) sd (k, lp, xs @ p # ys)"
    using layout_okD(1) [OF ok, of sd] by (simp add: side_ok_def G)
  then have lev: "level_ok (orders b) (levels b lp) (xs @ p # ys)" by (simp add: glevel_ok_def)
  have len: "length (xs @ p # ys) < 2 ^ 64"
    using layout_queue_length [OF ok, of "(k, lp, xs @ p # ys)" sd] layout_okD(4) [OF ok] by (simp add: G)
  have "p \<notin> set (xs @ ys)" using lev by (auto simp: level_ok_def)
  then have "glevel_ok (orders ?b) (levels ?b) sd (k, lp, xs @ ys)"
    using remove_level_ok [OF lev len] old by (auto simp: glevel_ok_def heap heap_frame)
  moreover have "links (orders ?b q) = links (orders b q)"
    if "q \<in># g_orders pre + g_orders post + g_orders (G (opposite sd))" for q
  proof -
    have "q \<notin> set (xs @ p # ys)" using layout_sep [OF ok G] that by auto
    then show ?thesis unfolding heap using remove_other [OF lev, of p q] by simp
  qed
  ultimately have "side_ok ?b s (?G s)" for s
    using sides_replace [OF ok G, where g' = "(k, lp, xs @ ys)" and b' = ?b and s = s]
    by (simp add: heap unlink_def)
  moreover have live: "add_mset p (live ?G) = live G"
    by (simp add: live_side [of _ sd] G)
  moreover have "map_ok ?b ?G"
  proof -
    let ?f = "\<lambda>q. (o_id (orders b q), q)"
    have dist: "distinct (map fst (orderMap b))" and om: "mset (orderMap b) = image_mset ?f (live G)"
      using layout_okD(5) [OF ok] by (auto simp: map_ok_def)
    have "?f p \<in> set (orderMap b)"
      using om live by (metis (no_types, lifting) image_mset_add_mset set_mset_mset union_single_eq_member)
    then have "mset (orderMap b) = add_mset (?f p) (mset (AList.delete (o_id (orders b p)) (orderMap b)))"
      using dist by (intro mset_alist_delete) auto
    then have "mset (AList.delete (o_id (orders b p)) (orderMap b)) = image_mset ?f (live ?G)"
      using om unfolding live [symmetric] by simp
    then show ?thesis
      using dist by (simp add: map_ok_def unlink_def heap_frame distinct_keys_delete)
  qed
  moreover have "live_levels ?G = live_levels G" by (simp add: live_levels_side [of _ sd] G)
  ultimately show ?thesis
    using ok by (simp add: layout_ok_def pool_ok_def unlink_def flip: live)
qed

section \<open>Linking an order\<close>

definition link :: "level_ptr \<Rightarrow> order_ptr \<Rightarrow> OrderBook \<Rightarrow> OrderBook" where
  "link lp p b = (let b1 = on_level lp (PriceLevel_append lp p) b
     in b1\<lparr>orderMap := AList.update (o_id (orders b p)) p (orderMap b1)\<rparr>)"

lemma layout_link:
  assumes ok: "layout_ok b G (add_mset p F)" and G: "G sd = pre @ (k, lp, ps) # post"
    and p: "o_price (orders b p) = k" "o_side (orders b p) = sd" "o_type (orders b p) = LIMIT"
    and new: "o_id (orders b p) \<notin> fst ` set (orderMap b)"
  shows "layout_ok (link lp p b) (G(sd := pre @ (k, lp, ps @ [p]) # post)) F"
proof -
  let ?G = "G(sd := pre @ (k, lp, ps @ [p]) # post)" and ?b = "link lp p b"
  let ?hl = "PriceLevel_append lp p (orders b, levels b lp)"
  have heap: "orders ?b = fst ?hl" "levels ?b = (levels b)(lp := snd ?hl)"
    by (simp_all add: link_def Let_def)
  have old: "glevel_ok (orders b) (levels b) sd (k, lp, ps)"
    using layout_okD(1) [OF ok, of sd] by (simp add: side_ok_def G)
  then have lev: "level_ok (orders b) (levels b lp) ps" by (simp add: glevel_ok_def)
  have free: "p \<notin># live G"
    using pool.ok_live [OF layout_okD(2) [OF ok], of p] by (auto simp: not_in_iff)
  then have pnot: "p \<notin> set ps" by (auto simp: live_side [of G sd] G)
  then have "glevel_ok (orders ?b) (levels ?b) sd (k, lp, ps @ [p])"
    using append_level_ok [OF lev pnot] old p by (auto simp: glevel_ok_def heap heap_frame)
  moreover have "links (orders ?b q) = links (orders b q)"
    if "q \<in># g_orders pre + g_orders post + g_orders (G (opposite sd))" for q
  proof -
    have "q \<notin> set ps" using layout_sep [OF ok G] that by auto
    moreover have "q \<noteq> p" using free that by (auto simp: live_side [of G sd] G)
    ultimately show ?thesis unfolding heap using append_other [OF lev] by simp
  qed
  ultimately have "side_ok ?b s (?G s)" for s
    using sides_replace [OF ok G, where g' = "(k, lp, ps @ [p])" and b' = ?b and s = s]
    by (simp add: heap link_def Let_def)
  moreover have live: "live ?G = add_mset p (live G)"
    by (simp add: live_side [of _ sd] G)
  moreover have "map_ok ?b ?G"
    using layout_okD(5) [OF ok] new
    by (simp add: map_ok_def link_def Let_def update_fresh live [simplified] heap_frame)
  moreover have "live_levels ?G = live_levels G" by (simp add: live_levels_side [of _ sd] G)
  ultimately show ?thesis
    using ok by (simp add: layout_ok_def pool_ok_def link_def Let_def)
qed

section \<open>Dropping an empty level\<close>

definition drop_level :: "Side \<Rightarrow> Price \<Rightarrow> level_ptr \<Rightarrow> OrderBook \<Rightarrow> OrderBook" where
  "drop_level sd k lp b = upd_side sd (map_erase k) (free_level lp b)"

lemma drop_level_erase_first: "free_level lp (upd_side sd (map_erase k) b) = drop_level sd k lp b"
  by (cases sd; cases b) (simp_all add: drop_level_def upd_side_def free_level_def)

lemma layout_drop_level:
  assumes ok: "layout_ok b G F" and G: "G sd = pre @ (k, lp, []) # post"
  shows "layout_ok (drop_level sd k lp b) (G(sd := pre @ post)) F"
proof -
  let ?G = "G(sd := pre @ post)" and ?b = "drop_level sd k lp b"
  have side: "side_map sd b = map (\<lambda>g. (g_key g, g_lp g)) (G sd)"
    and sorted: "sorted_wrt (better sd) (map g_key (G sd))"
    and levs: "\<forall>g \<in> set (G sd). glevel_ok (orders b) (levels b) sd g"
    using layout_okD(1) [OF ok, of sd] by (auto simp: side_ok_def)
  have "distinct (map g_key (G sd))" using sorted by (rule prices.sorted_distinct)
  then have "map_erase k (side_map sd b) = map (\<lambda>g. (g_key g, g_lp g)) (pre @ post)"
    unfolding side G by (force intro: map_erase_fresh simp: map_erase_fresh image_iff)
  moreover have "sorted_wrt (better sd) (map g_key (pre @ post))"
    using sorted by (auto simp: G sorted_wrt_append)
  ultimately have "side_ok ?b sd (?G sd)"
    using levs by (auto simp: side_ok_def drop_level_def G)
  moreover have "side_ok ?b (opposite sd) (?G (opposite sd))"
    using layout_okD(1) [OF ok, of "opposite sd"] by (auto simp: side_ok_def drop_level_def)
  ultimately have "side_ok ?b s (?G s)" for s
    using side_eq_opposite [of s sd] by metis
  moreover have "live ?G = live G" "live_levels G = add_mset lp (live_levels ?G)"
    by (simp_all add: live_side [of _ sd] live_levels_side [of _ sd] G)
  ultimately show ?thesis
    using ok by (simp add: layout_ok_def map_ok_def pool_ok_def drop_level_def)
qed

section \<open>Finding or creating a level\<close>

lemma getOrCreatePriceLevel_side:
  "getOrCreatePriceLevel sd price b =
     (case map_of (side_map sd b) price of
        Some lvl \<Rightarrow> Inr (lvl, b)
      | None \<Rightarrow> (case allocate (mk_PriceLevel price) (levelPool b) of
          Inl e \<Rightarrow> Inl e
        | Inr (lvl, pool) \<Rightarrow>
            Inr (lvl, upd_side sd (map_assign (better sd) price lvl) (b\<lparr>levelPool := pool\<rparr>))))"
  by (cases sd) (simp_all add: getOrCreatePriceLevel_def upd_side_def split: option.splits sum.splits)

lemma layout_find_level:
  assumes ok: "layout_ok b G F" and "map_of (side_map sd b) k = Some lp"
  shows "\<exists>pre ps post. G sd = pre @ (k, lp, ps) # post"
proof -
  have "side_map sd b = map (\<lambda>g. (g_key g, g_lp g)) (G sd)"
    using layout_okD(1) [OF ok, of sd] by (simp add: side_ok_def)
  with assms(2) have "(k, lp) \<in> set (map (\<lambda>g. (g_key g, g_lp g)) (G sd))" by (metis map_of_SomeD)
  then obtain ps where "(k, lp, ps) \<in> set (G sd)" by auto
  then show ?thesis by (meson split_list)
qed

text \<open>Where a new price goes: behind the levels that come before it, in front of those that come after it.\<close>

lemma glevels_split:
  "sorted_wrt (better sd) (map g_key gs) \<Longrightarrow> k \<notin> g_key ` set gs \<Longrightarrow>
     gs = filter (\<lambda>g. better sd (g_key g) k) gs @ filter (\<lambda>g. better sd k (g_key g)) gs" for gs :: "glevel list"
proof (induction gs)
  case (Cons g gs)
  show ?case
  proof (cases "better sd (g_key g) k")
    case True
    with Cons show ?thesis using prices.asym [OF True] by simp
  next
    case False
    then have after: "better sd k (g_key x)" if "x \<in> set (g # gs)" for x
    proof -
      have "better sd k (g_key g)" using False Cons.prems prices.total [of "g_key g" k sd] by auto
      then show ?thesis using that Cons.prems(1) by (auto intro: prices.trans)
    qed
    then have "\<forall>x \<in> set (g # gs). \<not> better sd (g_key x) k" using prices.asym by blast
    with after show ?thesis by (simp add: filter_id_conv filter_empty_conv)
  qed
qed simp

lemma layout_create_level:
  assumes ok: "layout_ok b G F" and none: "map_of (side_map sd b) k = None"
    and a: "allocate (mk_PriceLevel k) (levelPool b) = Inr (lp, P)"
  shows "\<exists>pre post. G sd = pre @ post \<and>
     layout_ok (upd_side sd (map_assign (better sd) k lp) (b\<lparr>levelPool := P\<rparr>)) (G(sd := pre @ (k, lp, []) # post)) F"
proof -
  define pre where "pre = filter (\<lambda>g. better sd (g_key g) k) (G sd)"
  define post where "post = filter (\<lambda>g. better sd k (g_key g)) (G sd)"
  let ?b = "upd_side sd (map_assign (better sd) k lp) (b\<lparr>levelPool := P\<rparr>)"
    and ?G = "G(sd := pre @ (k, lp, []) # post)"
  have side: "side_map s b = map (\<lambda>g. (g_key g, g_lp g)) (G s)"
    and sorted: "sorted_wrt (better s) (map g_key (G s))"
    and levs: "\<forall>g \<in> set (G s). glevel_ok (orders b) (levels b) s g" for s
    using layout_okD(1) [OF ok, of s] by (auto simp: side_ok_def)
  have okL: "pool_ok (levelPool b) (live_levels G)" by (rule layout_okD(3) [OF ok])
  have fresh: "lp \<notin># live_levels G" using pool.alloc_fresh(1) [OF okL a] .
  have st: "poolStorage P = (levels b)(lp := mk_PriceLevel k)" using pool.alloc_read [OF a] .
  have keys: "k \<notin> g_key ` set (G sd)" using none side [of sd] by (force simp: map_of_eq_None_iff image_iff)
  have G: "G sd = pre @ post" using glevels_split [OF sorted keys] by (simp only: pre_def post_def)
  have msorted: "sorted_wrt (better sd) (map fst (side_map sd b))"
    and mkeys: "k \<notin> fst ` set (side_map sd b)"
    using sorted [of sd] keys by (simp_all add: side [of sd] comp_def image_image)
  have assign: "map_assign (better sd) k lp (side_map sd b) = map (\<lambda>g. (g_key g, g_lp g)) (?G sd)"
    by (simp only: prices.assign_split [OF msorted mkeys])
      (simp add: side [of sd] filter_map pre_def post_def comp_def)
  moreover have "sorted_wrt (better sd) (map g_key (?G sd))"
    using prices.sorted_assign [OF msorted mkeys, of lp] unfolding assign by (simp add: comp_def)
  moreover have "glevel_ok (orders ?b) (levels ?b) s g" if "g \<in> set (G s)" for s g
  proof -
    have "g_lp g \<noteq> lp" using fresh that by (auto simp: live_levels_side [of _ s] in_g_levels)
    then show ?thesis using levs [of s] that glevel_ok_cong [of g "orders b" "orders b" "levels ?b" "levels b"]
      by (simp add: st)
  qed
  moreover have "glevel_ok (orders ?b) (levels ?b) sd (k, lp, [])"
    by (simp add: glevel_ok_def st) (simp add: mk_PriceLevel_def)
  ultimately have "side_ok ?b sd (?G sd)" "side_ok ?b (opposite sd) (?G (opposite sd))"
    using side [of "opposite sd"] sorted [of "opposite sd"] G by (auto simp: side_ok_def)
  then have "side_ok ?b s (?G s)" for s using side_eq_opposite [of s sd] by metis
  moreover have "live ?G = live G" "live_levels ?G = add_mset lp (live_levels G)"
    by (simp_all add: live_side [of _ sd] live_levels_side [of _ sd] G)
  ultimately have "layout_ok ?b ?G F"
    using ok pool.alloc_ok [OF okL a] by (simp add: layout_ok_def map_ok_def)
  with G show ?thesis by blast
qed

end
