(* ===== verification/Lob_Match.thy ===== *)
theory Lob_Match
  imports Lob_Moves
begin

text \<open>
  The matching loops refine the sweep of the specification: from a well-formed layout they
  return, the side they matched against is the rest of the sweep, and they emit one event per
  fill, in the order of the fills. The inner loop is handled by induction on the queue of a
  level, the outer one by induction on the levels of the side. Volumes are carried along: if
  every level's \<open>totalVolume\<close> is the sum of its remaining quantities, it stays so.
\<close>

section \<open>Volumes\<close>

definition vol_of :: "order_store \<Rightarrow> order_ptr list \<Rightarrow> nat" where
  "vol_of h ps = (\<Sum>p\<leftarrow>ps. unat (o_remainingQty (h p)))"

lemma vol_of_simps [simp]:
  "vol_of h [] = 0" "vol_of h (p # ps) = unat (o_remainingQty (h p)) + vol_of h ps"
  "vol_of h (ps @ qs) = vol_of h ps + vol_of h qs"
  by (simp_all add: vol_of_def)

lemma vol_of_cong: "(\<And>p. p \<in> set ps \<Longrightarrow> o_remainingQty (h' p) = o_remainingQty (h p)) \<Longrightarrow> vol_of h' ps = vol_of h ps"
  by (simp add: vol_of_def cong: map_cong)

definition vol_ok :: "OrderBook \<Rightarrow> layout \<Rightarrow> bool" where
  "vol_ok b G \<longleftrightarrow> (\<forall>sd. \<forall>g \<in> set (G sd).
     unat (l_totalVolume (levels b (g_lp g))) = vol_of (orders b) (g_ps g))"

lemma vol_okD:
  assumes "vol_ok b G" and "G sd = pre @ (k, lp, ps) # post"
  shows "unat (l_totalVolume (levels b lp)) = vol_of (orders b) ps"
proof -
  have "(k, lp, ps) \<in> set (G sd)" using assms(2) by simp
  then show ?thesis using assms(1) unfolding vol_ok_def by fastforce
qed

text \<open>Orders that keep their id and quantity, levels that keep their volume.\<close>

definition same_rest :: "order_store \<Rightarrow> order_store \<Rightarrow> order_ptr multiset \<Rightarrow> bool" where
  "same_rest h h' M \<longleftrightarrow> (\<forall>p \<in># M. o_id (h' p) = o_id (h p) \<and> o_remainingQty (h' p) = o_remainingQty (h p))"

lemma same_rest_trans: "same_rest h h1 M \<Longrightarrow> same_rest h1 h2 M \<Longrightarrow> same_rest h h2 M"
  by (simp add: same_rest_def)

lemma same_rest_mono: "same_rest h h' M \<Longrightarrow> M' \<subseteq># M \<Longrightarrow> same_rest h h' M'"
  by (auto simp: same_rest_def dest: mset_subset_eqD)

lemma flat_cong: "same_rest h h' (g_orders gs) \<Longrightarrow> flat h' gs = flat h gs"
  by (induction gs) (auto simp: same_rest_def resting_of_def)

lemma vol_replace:
  assumes ok: "layout_ok b G F" and vol: "vol_ok b G" and G: "G sd = pre @ g # post"
    and g': "g_lp g' = g_lp g" "unat (l_totalVolume (levels b' (g_lp g))) = vol_of (orders b') (g_ps g')"
    and h: "same_rest (orders b) (orders b') (g_orders pre + g_orders post + g_orders (G (opposite sd)))"
    and l: "\<And>lp. lp \<noteq> g_lp g \<Longrightarrow> l_totalVolume (levels b' lp) = l_totalVolume (levels b lp)"
  shows "vol_ok b' (G(sd := pre @ g' # post))"
proof -
  have "unat (l_totalVolume (levels b' (g_lp x))) = vol_of (orders b') (g_ps x)"
    if x: "x \<in> set pre \<union> set post \<union> set (G (opposite sd))" for x
  proof -
    have "g_lp x \<in># g_levels pre + g_levels post + g_levels (G (opposite sd))"
      using x by (auto simp: in_g_levels)
    then have "g_lp x \<noteq> g_lp g" using layout_sep_level [OF ok G] by auto
    moreover have "\<And>p. p \<in> set (g_ps x) \<Longrightarrow> p \<in># g_orders pre + g_orders post + g_orders (G (opposite sd))"
      using x by (auto simp: in_g_orders)
    then have "vol_of (orders b') (g_ps x) = vol_of (orders b) (g_ps x)"
      using h by (intro vol_of_cong) (simp add: same_rest_def)
    moreover have "unat (l_totalVolume (levels b (g_lp x))) = vol_of (orders b) (g_ps x)"
    proof -
      have "x \<in> set (G sd) \<or> x \<in> set (G (opposite sd))" using x G by auto
      then show ?thesis using vol unfolding vol_ok_def by blast
    qed
    ultimately show ?thesis using l by simp
  qed
  then show ?thesis
    using g' unfolding vol_ok_def by (auto simp: side_eq_opposite split: if_splits)
qed

section \<open>The trade events\<close>

fun mk_events :: "(nat \<Rightarrow> Timestamp) \<Rightarrow> OrderId \<Rightarrow> nat \<Rightarrow> resting list \<Rightarrow> MatchEvent list" where
  "mk_events clk taker n [] = []"
| "mk_events clk taker n (x # fs) =
     \<lparr>makerOrderId = r_id x, takerOrderId = taker, matchPrice = r_price x,
      matchQuantity = r_qty x, m_timestamp = clk n\<rparr> # mk_events clk taker (Suc n) fs"

lemma mk_events_append:
  "mk_events clk tid n (fs @ fs') = mk_events clk tid n fs @ mk_events clk tid (n + length fs) fs'"
  by (induction fs arbitrary: n) auto

lemma length_mk_events [simp]: "length (mk_events clk tid n fs) = length fs"
  by (induction fs arbitrary: n) auto

text \<open>
  \<open>traded clk t fs s s'\<close>: from \<open>s\<close> to \<open>s'\<close> the fills \<open>fs\<close> of the incoming order
  \<open>t\<close> were recorded and counted, and of the incoming order only the remaining quantity changed.
\<close>

definition traded ::
  "(nat \<Rightarrow> Timestamp) \<Rightarrow> order_ptr \<Rightarrow> resting list \<Rightarrow> OrderBook \<times> MatchEvent list \<Rightarrow>
   OrderBook \<times> MatchEvent list \<Rightarrow> bool" where
  "traded clk t fs s s' \<longleftrightarrow>
     snd s' = snd s @ mk_events clk (o_id (orders (fst s) t)) (length (snd s)) fs \<and>
     totalTradesCount (fst s') = totalTradesCount (fst s) + of_nat (length fs) \<and>
     totalVolumeTraded (fst s') = totalVolumeTraded (fst s) + of_nat (spec_volume fs) \<and>
     (\<exists>r. orders (fst s') t = (orders (fst s) t)\<lparr>o_remainingQty := r\<rparr>)"

lemma traded_refl: "traded clk t [] s s"
  by (auto simp: traded_def intro: exI [of _ "o_remainingQty (orders (fst s) t)"])

lemma traded_trans:
  "traded clk t fs s s1 \<Longrightarrow> traded clk t fs' s1 s2 \<Longrightarrow> traded clk t (fs @ fs') s s2"
  by (auto simp: traded_def mk_events_append)

lemma traded_drop_level: "traded clk t fs s (b, ms) \<Longrightarrow> traded clk t fs s (drop_level sd k lp b, ms)"
  by (simp add: traded_def drop_level_def)

section \<open>One fill\<close>

lemma vol_unlink:
  assumes ok: "layout_ok b G F" and vol: "vol_ok b G" and G: "G sd = pre @ (k, lp, xs @ p # ys) # post"
  shows "vol_ok (unlink lp p b) (G(sd := pre @ (k, lp, xs @ ys) # post))"
proof (rule vol_replace [OF ok vol G])
  have tv: "unat (l_totalVolume (levels b lp)) = vol_of (orders b) (xs @ p # ys)"
    using vol_okD [OF vol G] .
  have "vol_of (orders (unlink lp p b)) (xs @ ys) = vol_of (orders b) (xs @ ys)"
    by (intro vol_of_cong) (simp add: unlink_def heap_frame)
  moreover have "o_remainingQty (orders b p) \<le> l_totalVolume (levels b lp)"
    using tv by (simp add: word_le_nat_alt)
  ultimately show "unat (l_totalVolume (levels (unlink lp p b) (g_lp (k, lp, xs @ p # ys)))) =
      vol_of (orders (unlink lp p b)) (g_ps (k, lp, xs @ ys))"
    using tv by (simp add: unlink_def remove_volume min_absorb1 unat_sub word_le_nat_alt)
qed (auto simp: unlink_def heap_frame same_rest_def)

text \<open>The state after the quantities are written and the trade is counted, before the removal.\<close>

definition filled :: "order_ptr \<Rightarrow> level_ptr \<Rightarrow> order_ptr \<Rightarrow> OrderBook \<Rightarrow> OrderBook" where
  "filled t lp m b = (let f = min (o_remainingQty (orders b t)) (o_remainingQty (orders b m));
     b3 = upd_level lp (\<lambda>l. l\<lparr>l_totalVolume := l_totalVolume l - f\<rparr>)
           (upd_order m (\<lambda>ord. ord\<lparr>o_remainingQty := o_remainingQty ord - f\<rparr>)
             (upd_order t (\<lambda>ord. ord\<lparr>o_remainingQty := o_remainingQty ord - f\<rparr>) b))
     in b3\<lparr>totalTradesCount := totalTradesCount b3 + 1,
           totalVolumeTraded := totalVolumeTraded b3 + ucast f\<rparr>)"

lemma fillMaker_filled:
  "fillMaker clk t lp m (b, ms) =
     (if o_remainingQty (orders (filled t lp m b) m) = 0
      then free_order m (unlink lp m (filled t lp m b)) else filled t lp m b,
      ms @ [\<lparr>makerOrderId = o_id (orders b m), takerOrderId = o_id (orders b t),
             matchPrice = l_price (levels b lp),
             matchQuantity = min (o_remainingQty (orders b t)) (o_remainingQty (orders b m)),
             m_timestamp = clk (length ms)\<rparr>])"
  by (simp add: fillMaker_def filled_def Let_def unlink_def)

lemma layout_filled: "layout_ok b G F \<Longrightarrow> layout_ok (filled t lp m b) G F"
  by (simp add: filled_def Let_def layout_upd_qty layout_upd_counters)

lemma orders_filled:
  assumes "m \<noteq> t"
  shows "orders (filled t lp m b) = (orders b)
    (t := (orders b t)\<lparr>o_remainingQty := o_remainingQty (orders b t) - min (o_remainingQty (orders b t)) (o_remainingQty (orders b m))\<rparr>,
     m := (orders b m)\<lparr>o_remainingQty := o_remainingQty (orders b m) - min (o_remainingQty (orders b t)) (o_remainingQty (orders b m))\<rparr>)"
  using assms by (simp add: filled_def Let_def)

lemma levels_filled:
  "levels (filled t lp m b) = (levels b)(lp := (levels b lp)\<lparr>l_totalVolume := l_totalVolume (levels b lp) -
     min (o_remainingQty (orders b t)) (o_remainingQty (orders b m))\<rparr>)"
  by (simp add: filled_def Let_def)

lemma vol_filled:
  assumes ok: "layout_ok b G F" and vol: "vol_ok b G" and G: "G sd = pre @ (k, lp, m # ps) # post"
    and t: "t \<in># F"
  shows "vol_ok (filled t lp m b) G"
proof -
  have G': "G = G(sd := pre @ (k, lp, m # ps) # post)" using G by auto
  let ?b = "filled t lp m b" and ?f = "min (o_remainingQty (orders b t)) (o_remainingQty (orders b m))"
  have sep: "p \<noteq> t" if "p \<in># live G" for p
    using layout_okD(2) [OF ok] pool.ok_live count_one_sep that t by (metis union_iff)
  have m: "m \<notin> set ps" and live: "m \<in># live G" "\<And>p. p \<in> set ps \<Longrightarrow> p \<in># live G"
    using layout_okD(1) [OF ok, of sd] by (auto simp: side_ok_def G glevel_ok_def level_ok_def live_side [of G sd])
  have "m \<noteq> t" using sep live by blast
  note heap = orders_filled [OF this] levels_filled
  have tv: "unat (l_totalVolume (levels b lp)) = unat (o_remainingQty (orders b m)) + vol_of (orders b) ps"
    using vol_okD [OF vol G] by simp
  have "vol_of (orders ?b) ps = vol_of (orders b) ps"
    using m sep live by (intro vol_of_cong) (auto simp: heap)
  moreover have f: "unat ?f \<le> unat (o_remainingQty (orders b m))"
    by (simp add: unat_min)
  then have "?f \<le> o_remainingQty (orders b m)" "?f \<le> l_totalVolume (levels b lp)"
    using tv unfolding word_le_nat_alt by simp_all
  then have "unat (o_remainingQty (orders b m) - ?f) = unat (o_remainingQty (orders b m)) - unat ?f"
    "unat (l_totalVolume (levels b lp) - ?f) = unat (l_totalVolume (levels b lp)) - unat ?f"
    by (simp_all only: unat_sub)
  ultimately have "unat (l_totalVolume (levels ?b lp)) = vol_of (orders ?b) (m # ps)"
    using tv f by (simp add: heap)
  moreover have "same_rest (orders b) (orders ?b) (g_orders pre + g_orders post + g_orders (G (opposite sd)))"
  proof -
    have "p \<noteq> m \<and> p \<noteq> t" if "p \<in># g_orders pre + g_orders post + g_orders (G (opposite sd))" for p
      using that layout_sep [OF ok G, of m] sep [of p] by (auto simp: live_side [of G sd] G)
    then show ?thesis by (auto simp: same_rest_def heap)
  qed
  ultimately have "vol_ok ?b (G(sd := pre @ (k, lp, m # ps) # post))"
    by (intro vol_replace [OF ok vol G]) (auto simp: heap)
  then show ?thesis using G' by simp
qed

lemma in_flight:
  assumes "layout_ok b G F" and "t \<in># F" and "p \<in># live G"
  shows "p \<noteq> t"
  using layout_okD(2) [OF assms(1)] pool.ok_live count_one_sep assms(2,3) by (metis union_iff)

text \<open>A maker that the incoming order fills completely leaves the book.\<close>

lemma fill_whole:
  fixes clk :: "nat \<Rightarrow> Timestamp" and ms :: "MatchEvent list"
  assumes ok: "layout_ok b G F" and t: "t \<in># F" and G: "G sd = (k, lp, m # ps) # rest"
    and le: "o_remainingQty (orders b m) \<le> o_remainingQty (orders b t)"
  defines "s' \<equiv> fillMaker clk t lp m (b, ms)" and "G' \<equiv> G(sd := (k, lp, ps) # rest)"
  shows "layout_ok (fst s') G' F"
    and "same_rest (orders b) (orders (fst s')) (mset ps + g_orders rest + g_orders (G (opposite sd)))"
    and "o_remainingQty (orders (fst s') t) = o_remainingQty (orders b t) - o_remainingQty (orders b m)"
    and "traded clk t [resting_of (orders b) k m] (b, ms) s'"
    and "vol_ok b G \<Longrightarrow> vol_ok (fst s') G'"
proof -
  let ?b = "filled t lp m b"
  have okf: "layout_ok ?b G F" using ok by (rule layout_filled)
  have Gu: "G sd = [] @ (k, lp, [] @ m # ps) # rest" using G by simp
  have lev: "glevel_ok (orders b) (levels b) sd (k, lp, m # ps)"
    and levf: "glevel_ok (orders ?b) (levels ?b) sd (k, lp, m # ps)"
    using layout_okD(1) [OF ok, of sd] layout_okD(1) [OF okf, of sd] by (auto simp: side_ok_def G)
  have m: "m \<in># live G" by (simp add: live_side [of G sd] G)
  then have mt: "m \<noteq> t" using in_flight [OF ok t] by blast
  note heap = orders_filled [OF mt]
  have zero: "o_remainingQty (orders ?b m) = 0" using le by (simp add: heap min_absorb2)
  have s': "fst s' = free_order m (unlink lp m ?b)"
    by (simp add: s'_def fillMaker_filled zero)
  have tnot: "t \<notin> set (m # ps)"
    using in_flight [OF ok t, of t] by (auto simp: live_side [of G sd] G)
  have "level_ok (orders ?b) (levels ?b lp) (m # ps)" using levf by (simp add: glevel_ok_def)
  then have keep_t: "orders (unlink lp m ?b) t = orders ?b t"
    using remove_other [OF _ _ tnot, of "orders ?b" "levels ?b lp" m] by (simp add: unlink_def)
  show "layout_ok (fst s') G' F"
    unfolding s' G'_def using layout_unlink [OF okf Gu] by (intro layout_free) simp
  show "o_remainingQty (orders (fst s') t) = o_remainingQty (orders b t) - o_remainingQty (orders b m)"
    using le mt by (simp add: s' keep_t heap min_absorb2)
  have "p \<noteq> m \<and> p \<noteq> t" if "p \<in># mset ps + g_orders rest + g_orders (G (opposite sd))" for p
    using that layout_sep [OF ok Gu, of m] in_flight [OF ok t, of p] lev
    by (auto simp: live_side [of G sd] G glevel_ok_def level_ok_def)
  then show "same_rest (orders b) (orders (fst s')) (mset ps + g_orders rest + g_orders (G (opposite sd)))"
    by (auto simp: same_rest_def s' unlink_def heap_frame heap)
  have "l_price (levels b lp) = k" using lev by (simp add: glevel_ok_def)
  then show "traded clk t [resting_of (orders b) k m] (b, ms) s'"
    using le mt unfolding traded_def s'
    by (simp add: s'_def fillMaker_filled zero keep_t heap resting_of_def min_absorb2)
      (auto simp: filled_def Let_def unlink_def min_absorb2)
  show "vol_ok (fst s') G'" if "vol_ok b G"
  proof -
    have "vol_ok ?b G" using vol_filled [OF ok that _ t, of sd "[]"] G by simp
    then have "vol_ok (unlink lp m ?b) G'"
      using vol_unlink [OF okf _ Gu] by (simp add: G'_def)
    then show ?thesis by (simp add: s' vol_ok_def)
  qed
qed

text \<open>A maker that is larger than the incoming order keeps the remainder and its place.\<close>

lemma fill_partial:
  fixes clk :: "nat \<Rightarrow> Timestamp" and ms :: "MatchEvent list"
  assumes ok: "layout_ok b G F" and t: "t \<in># F" and G: "G sd = (k, lp, m # ps) # rest"
    and lt: "o_remainingQty (orders b t) < o_remainingQty (orders b m)"
  defines "s' \<equiv> fillMaker clk t lp m (b, ms)"
  shows "layout_ok (fst s') G F"
    and "same_rest (orders b) (orders (fst s')) (mset ps + g_orders rest + g_orders (G (opposite sd)))"
    and "o_remainingQty (orders (fst s') t) = 0"
    and "resting_of (orders (fst s')) k m =
           (k, o_id (orders b m), o_remainingQty (orders b m) - o_remainingQty (orders b t))"
    and "traded clk t [(k, o_id (orders b m), o_remainingQty (orders b t))] (b, ms) s'"
    and "vol_ok b G \<Longrightarrow> vol_ok (fst s') G"
proof -
  let ?b = "filled t lp m b"
  have Gu: "G sd = [] @ (k, lp, m # ps) # rest" using G by simp
  have lev: "glevel_ok (orders b) (levels b) sd (k, lp, m # ps)"
    using layout_okD(1) [OF ok, of sd] by (auto simp: side_ok_def G)
  have "m \<in># live G" by (simp add: live_side [of G sd] G)
  then have mt: "m \<noteq> t" using in_flight [OF ok t] by blast
  note heap = orders_filled [OF mt]
  have "o_remainingQty (orders ?b m) \<noteq> 0"
    using lt by (simp add: heap min_absorb1)
  then have s': "fst s' = ?b"
    by (simp add: s'_def fillMaker_filled)
  show "layout_ok (fst s') G F" unfolding s' using ok by (rule layout_filled)
  show "o_remainingQty (orders (fst s') t) = 0"
    "resting_of (orders (fst s')) k m = (k, o_id (orders b m), o_remainingQty (orders b m) - o_remainingQty (orders b t))"
    using lt mt by (simp_all add: s' heap min_absorb1 resting_of_def)
  have "p \<noteq> m \<and> p \<noteq> t" if "p \<in># mset ps + g_orders rest + g_orders (G (opposite sd))" for p
    using that layout_sep [OF ok Gu, of m] in_flight [OF ok t, of p] lev
    by (auto simp: live_side [of G sd] G glevel_ok_def level_ok_def)
  then show "same_rest (orders b) (orders (fst s')) (mset ps + g_orders rest + g_orders (G (opposite sd)))"
    by (auto simp: same_rest_def s' heap)
  have "l_price (levels b lp) = k" using lev by (simp add: glevel_ok_def)
  then show "traded clk t [(k, o_id (orders b m), o_remainingQty (orders b t))] (b, ms) s'"
    using lt mt unfolding traded_def s'
    by (simp add: s'_def fillMaker_filled heap min_absorb1)
      (auto simp: filled_def Let_def min_absorb1)
  show "vol_ok (fst s') G" if "vol_ok b G"
    using vol_filled [OF ok that Gu t] by (simp add: s')
qed

end
