(* ===== verification/Lob_Loops.thy ===== *)
theory Lob_Loops
  imports Lob_Match
begin

text \<open>
  The two loops of the matching core: the inner loop over the queue of a level and the outer
  loop over the levels of a side. Both return on every well-formed layout, and together they
  perform the sweep of the specification. \<open>match_side\<close> is the loop of either side, written
  once; the two functions of the code are its instances.
\<close>

section \<open>The inner loop\<close>

text \<open>
  \<open>loop_post clk t sd k lp rest b ms G F ps\<close>: what the inner loop leaves of the level
  \<open>k\<close>, whose queue was \<open>ps\<close>, and of the rest of the book.
\<close>

definition level_post where
  "level_post clk t sd k lp rest G F b ms ps b' ms' ps' fs \<longleftrightarrow>
     layout_ok b' (G(sd := (k, lp, ps') # rest)) F \<and>
     (\<forall>ok. ok k \<longrightarrow> sweep ok (o_remainingQty (orders b t)) (map (resting_of (orders b) k) ps) =
        (o_remainingQty (orders b' t), map (resting_of (orders b') k) ps', fs)) \<and>
     same_rest (orders b) (orders b') (g_orders rest + g_orders (G (opposite sd))) \<and>
     traded clk t fs (b, ms) (b', ms') \<and>
     (vol_ok b G \<longrightarrow> vol_ok b' (G(sd := (k, lp, ps') # rest)))"

lemma sweep_first_whole:
  "r \<noteq> 0 \<Longrightarrow> ok (r_price x) \<Longrightarrow> r_qty x \<le> r \<Longrightarrow> sweep ok (r - r_qty x) xs = (r', xs', fs) \<Longrightarrow>
     sweep ok r (x # xs) = (r', xs', x # fs)"
  by (cases x) simp

lemma sweep_first_partial:
  "r \<noteq> 0 \<Longrightarrow> ok (r_price x) \<Longrightarrow> r < r_qty x \<Longrightarrow>
     sweep ok r (x # xs) = (0, (r_price x, r_id x, r_qty x - r) # xs, [(r_price x, r_id x, r)])"
  by (cases x) auto

lemma resting_of_simps [simp]:
  "r_price (resting_of h k p) = k" "r_id (resting_of h k p) = o_id (h p)"
  "r_qty (resting_of h k p) = o_remainingQty (h p)"
  by (simp_all add: resting_of_def)

lemma map_resting_cong:
  "same_rest h h' (mset ps) \<Longrightarrow> map (resting_of h' k) ps = map (resting_of h k) ps"
  by (simp add: same_rest_def resting_of_def)

text \<open>One turn of the loop: a maker that is filled and the loop goes on, or one that is not and it ends.\<close>

lemma level_post_whole:
  assumes b: "layout_ok b G F" "t \<in># F" "G sd = (k, lp, m # ps) # rest"
    and q: "o_remainingQty (orders b t) \<noteq> 0" "o_remainingQty (orders b m) \<le> o_remainingQty (orders b t)"
    and fill: "fillMaker clk t lp m (b, ms) = (b1, ms1)"
    and post: "level_post clk t sd k lp rest (G(sd := (k, lp, ps) # rest)) F b1 ms1 ps b' ms' ps' fs"
  shows "level_post clk t sd k lp rest G F b ms (m # ps) b' ms' ps' (resting_of (orders b) k m # fs)"
proof -
  note s1 = fill_whole [OF b q(2), of clk ms, unfolded fill fst_conv snd_conv]
  have queue: "map (resting_of (orders b1) k) ps = map (resting_of (orders b) k) ps"
    using s1(2) by (intro map_resting_cong) (auto simp: same_rest_def)
  show ?thesis
    unfolding level_post_def
  proof (intro conjI allI impI)
    fix ok :: "Price \<Rightarrow> bool" assume "ok k"
    then show "sweep ok (o_remainingQty (orders b t)) (map (resting_of (orders b) k) (m # ps)) =
        (o_remainingQty (orders b' t), map (resting_of (orders b') k) ps', resting_of (orders b) k m # fs)"
      using post q s1(3) queue unfolding level_post_def by (simp add: sweep_first_whole)
  next
    show "same_rest (orders b) (orders b') (g_orders rest + g_orders (G (opposite sd)))"
      using s1(2) post by (auto simp: level_post_def same_rest_def)
  next
    show "traded clk t (resting_of (orders b) k m # fs) (b, ms) (b', ms')"
      using traded_trans [OF s1(4), of fs "(b', ms')"] post by (simp add: level_post_def)
  qed (use post s1(5) in \<open>auto simp: level_post_def\<close>)
qed

lemma level_post_partial:
  assumes b: "layout_ok b G F" "t \<in># F" "G sd = (k, lp, m # ps) # rest"
    and q: "o_remainingQty (orders b t) \<noteq> 0" "o_remainingQty (orders b t) < o_remainingQty (orders b m)"
    and fill: "fillMaker clk t lp m (b, ms) = (b1, ms1)"
  shows "level_post clk t sd k lp rest G F b ms (m # ps) b1 ms1 (m # ps)
      [(k, o_id (orders b m), o_remainingQty (orders b t))]"
    and "o_remainingQty (orders b1 t) = 0"
proof -
  note s1 = fill_partial [OF b q(2), of clk ms, unfolded fill fst_conv snd_conv]
  show "o_remainingQty (orders b1 t) = 0" using s1(3) .
  have Gid: "G(sd := (k, lp, m # ps) # rest) = G" using b(3) by auto
  have queue: "map (resting_of (orders b1) k) ps = map (resting_of (orders b) k) ps"
    using s1(2) by (intro map_resting_cong) (auto simp: same_rest_def)
  show "level_post clk t sd k lp rest G F b ms (m # ps) b1 ms1 (m # ps)
      [(k, o_id (orders b m), o_remainingQty (orders b t))]"
    unfolding level_post_def Gid
  proof (intro conjI allI impI)
    fix ok :: "Price \<Rightarrow> bool" assume "ok k"
    then show "sweep ok (o_remainingQty (orders b t)) (map (resting_of (orders b) k) (m # ps)) =
        (o_remainingQty (orders b1 t), map (resting_of (orders b1) k) (m # ps),
         [(k, o_id (orders b m), o_remainingQty (orders b t))])"
      using q s1(3,4) queue by (simp add: sweep_first_partial)
  next
    show "same_rest (orders b) (orders b1) (g_orders rest + g_orders (G (opposite sd)))"
      using s1(2) by (auto simp: same_rest_def)
  next
    show "traded clk t [(k, o_id (orders b m), o_remainingQty (orders b t))] (b, ms) (b1, ms1)"
      using s1(5) by simp
  qed (use s1 in auto)
qed

lemma fillLevel_unfold:
  assumes "layout_ok b G F" and "G sd = (k, lp, m # ps) # rest"
  shows "fillLevel clk t lp (first_or None (m # ps)) (b, ms) =
    (if o_remainingQty (orders b t) > 0
     then fillLevel clk t lp (first_or None ps) (fillMaker clk t lp m (b, ms)) else Some (b, ms))"
proof -
  have "o_next (orders b m) = first_or None ps"
    using layout_okD(1) [OF assms(1), of sd] assms(2) by (simp add: side_ok_def glevel_ok_def level_ok_def)
  then show ?thesis by (subst fillLevel.simps) simp
qed

lemma fillLevel_ok:
  assumes "layout_ok b G F" and "t \<in># F" and "G sd = (k, lp, ps) # rest"
  shows "\<exists>b' ms' ps' fs. fillLevel clk t lp (first_or None ps) (b, ms) = Some (b', ms') \<and>
     level_post clk t sd k lp rest G F b ms ps b' ms' ps' fs"
  using assms
proof (induction ps arbitrary: b G ms)
  case Nil
  have "G(sd := (k, lp, []) # rest) = G" using Nil.prems(3) by auto
  then have "level_post clk t sd k lp rest G F b ms [] b ms [] []"
    using Nil.prems(1) by (simp add: level_post_def same_rest_def traded_refl)
  moreover have "fillLevel clk t lp (first_or None []) (b, ms) = Some (b, ms)"
    by (simp add: fillLevel.simps)
  ultimately show ?case by blast
next
  case (Cons m ps)
  let ?r = "o_remainingQty (orders b t)" and ?q = "o_remainingQty (orders b m)"
  note unfold = fillLevel_unfold [OF Cons.prems(1,3), of clk t ms]
  obtain b1 ms1 where fill: "fillMaker clk t lp m (b, ms) = (b1, ms1)" by (cases "fillMaker clk t lp m (b, ms)")
  consider (stop) "?r = 0" | (whole) "?r \<noteq> 0" "?q \<le> ?r" | (partial) "?r \<noteq> 0" "?r < ?q"
    by fastforce
  then show ?case
  proof cases
    case stop
    have "G(sd := (k, lp, m # ps) # rest) = G" using Cons.prems(3) by auto
    then have "level_post clk t sd k lp rest G F b ms (m # ps) b ms (m # ps) []"
      using stop Cons.prems(1) by (simp add: level_post_def same_rest_def traded_refl)
    with stop unfold show ?thesis by auto
  next
    case whole
    have "layout_ok b1 (G(sd := (k, lp, ps) # rest)) F"
      using fill_whole(1) [OF Cons.prems whole(2), of clk ms] by (simp add: fill)
    from Cons.IH [OF this Cons.prems(2) fun_upd_same] obtain b' ms' ps' fs where
      run: "fillLevel clk t lp (first_or None ps) (b1, ms1) = Some (b', ms')"
      and post: "level_post clk t sd k lp rest (G(sd := (k, lp, ps) # rest)) F b1 ms1 ps b' ms' ps' fs"
      unfolding fun_upd_upd by blast
    then show ?thesis
      using level_post_whole [OF Cons.prems whole fill post] unfold whole(1) by (auto simp: word_gt_0 fill)
  next
    case partial
    note post = level_post_partial [OF Cons.prems partial fill]
    have "fillLevel clk t lp (first_or None ps) (b1, ms1) = Some (b1, ms1)"
      by (cases ps) (simp_all add: fillLevel.simps post(2))
    then show ?thesis using post(1) partial unfold by (auto simp: word_gt_0 fill)
  qed
qed

section \<open>The outer loop\<close>

fun match_side ::
  "Side \<Rightarrow> (nat \<Rightarrow> Timestamp) \<Rightarrow> order_ptr \<Rightarrow> (Price \<times> level_ptr) list \<Rightarrow>
   OrderBook \<times> MatchEvent list \<Rightarrow> (OrderBook \<times> MatchEvent list) option" where
  "match_side sd clk t [] s = Some s"
| "match_side sd clk t ((k, lp) # it) (b, ms) =
     (if \<not> o_remainingQty (orders b t) > 0 then Some (b, ms)
      else if o_type (orders b t) = LIMIT \<and> better sd (o_price (orders b t)) (l_price (levels b lp))
      then Some (b, ms)
      else do {
        (b1, ms1) \<leftarrow> fillLevel clk t lp (l_head (levels b lp)) (b, ms);
        match_side sd clk t it
          (if PriceLevel_empty (levels b1 lp) then (drop_level sd k lp b1, ms1) else (b1, ms1))
      })"

lemma matchBuyLoop_side: "matchBuyLoop clk t it s = match_side SELL clk t it s"
proof (induction it arbitrary: s)
  case (Cons e it)
  then show ?case
    by (cases e; cases s) (simp add: drop_level_def upd_side_def cong: if_cong)
qed simp

lemma matchSellLoop_side: "matchSellLoop clk t it s = match_side BUY clk t it s"
proof (induction it arbitrary: s)
  case (Cons e it)
  then show ?case
    by (cases e; cases s) (simp add: drop_level_def upd_side_def cong: if_cong)
qed simp

lemma match_side_done: "o_remainingQty (orders b t) = 0 \<Longrightarrow> match_side sd clk t it (b, ms) = Some (b, ms)"
  by (cases it) auto

text \<open>
  What matching against side \<open>sd\<close> does: the incoming order \<open>t\<close> sweeps it, the other
  side is untouched, and no empty level stays behind.
\<close>

definition match_post where
  "match_post clk t sd G F b ms b' ms' G' fs \<longleftrightarrow>
     layout_ok b' G' F \<and> nonempty_levels G' \<and> G' (opposite sd) = G (opposite sd) \<and>
     flatten b' G' (opposite sd) = flatten b G (opposite sd) \<and>
     sweep (acceptable (o_type (orders b t)) (opposite sd) (o_price (orders b t)))
       (o_remainingQty (orders b t)) (flatten b G sd) =
       (o_remainingQty (orders b' t), flatten b' G' sd, fs) \<and>
     traded clk t fs (b, ms) (b', ms') \<and> (vol_ok b G \<longrightarrow> vol_ok b' G')"

lemma match_post_refl:
  assumes "layout_ok b G F" and "nonempty_levels G"
    and "sweep (acceptable (o_type (orders b t)) (opposite sd) (o_price (orders b t)))
      (o_remainingQty (orders b t)) (flatten b G sd) = (o_remainingQty (orders b t), flatten b G sd, [])"
  shows "match_post clk t sd G F b ms b ms G []"
  using assms by (simp add: match_post_def traded_refl)

text \<open>What the inner loop gives the outer one, which has the first level of its side under the iterator.\<close>

lemma level_post_facts:
  assumes "level_post clk t sd k lp gs G F b ms ps b1 ms1 ps' fs1" and "G sd = (k, lp, ps) # gs" and "acc k"
  shows "layout_ok b1 (G(sd := (k, lp, ps') # gs)) F"
    and "vol_ok b G \<Longrightarrow> vol_ok b1 (G(sd := (k, lp, ps') # gs))"
    and "traded clk t fs1 (b, ms) (b1, ms1)"
    and "sweep acc (o_remainingQty (orders b t)) (map (resting_of (orders b) k) ps) =
      (o_remainingQty (orders b1 t), map (resting_of (orders b1) k) ps', fs1)"
    and "flat (orders b1) gs = flat (orders b) gs"
    and "flat (orders b1) (G (opposite sd)) = flat (orders b) (G (opposite sd))"
    and "PriceLevel_empty (levels b1 lp) \<longleftrightarrow> ps' = []"
    and "flatten b G sd = map (resting_of (orders b) k) ps @ flat (orders b) gs"
proof -
  show ok1: "layout_ok b1 (G(sd := (k, lp, ps') # gs)) F"
    and "vol_ok b G \<Longrightarrow> vol_ok b1 (G(sd := (k, lp, ps') # gs))" "traded clk t fs1 (b, ms) (b1, ms1)"
    and "sweep acc (o_remainingQty (orders b t)) (map (resting_of (orders b) k) ps) =
      (o_remainingQty (orders b1 t), map (resting_of (orders b1) k) ps', fs1)"
    using assms(1,3) by (auto simp: level_post_def)
  show "flat (orders b1) gs = flat (orders b) gs"
    "flat (orders b1) (G (opposite sd)) = flat (orders b) (G (opposite sd))"
    using assms(1) unfolding level_post_def by (auto intro!: flat_cong simp: same_rest_def)
  have "level_ok (orders b1) (levels b1 lp) ps'"
    using layout_okD(1) [OF ok1, of sd] by (simp add: side_ok_def glevel_ok_def)
  then show "PriceLevel_empty (levels b1 lp) \<longleftrightarrow> ps' = []" by (rule level_ok_empty)
  show "flatten b G sd = map (resting_of (orders b) k) ps @ flat (orders b) gs"
    by (simp add: flatten_def assms(2))
qed

abbreviation accepts :: "OrderBook \<Rightarrow> order_ptr \<Rightarrow> Side \<Rightarrow> Price \<Rightarrow> bool" where
  "accepts b t sd \<equiv> acceptable (o_type (orders b t)) (opposite sd) (o_price (orders b t))"

text \<open>A level that was emptied is dropped and the loop goes on; otherwise the incoming order is filled.\<close>

lemma match_post_drop:
  assumes post: "level_post clk t sd k lp gs G F b ms ps b1 ms1 [] fs1" and G: "G sd = (k, lp, ps) # gs"
    and acc: "accepts b t sd k"
    and post2: "match_post clk t sd (G(sd := gs)) F (drop_level sd k lp b1) ms1 b' ms' G' fs"
  shows "match_post clk t sd G F b ms b' ms' G' (fs1 @ fs)"
proof -
  note l = level_post_facts [OF post G, of "accepts b t sd", OF acc]
  let ?b2 = "drop_level sd k lp b1" and ?G2 = "G(sd := gs)"
  have heap2: "orders ?b2 = orders b1" by (simp add: drop_level_def)
  have t1: "o_type (orders b1 t) = o_type (orders b t)" "o_price (orders b1 t) = o_price (orders b t)"
    using l(3) by (auto simp: traded_def)
  have "traded clk t fs1 (b, ms) (?b2, ms1)" using l(3) by (rule traded_drop_level)
  then have "traded clk t (fs1 @ fs) (b, ms) (b', ms')"
    using traded_trans post2 by (simp add: match_post_def)
  moreover have "vol_ok b G \<Longrightarrow> vol_ok ?b2 ?G2"
    using l(2) by (auto simp: vol_ok_def drop_level_def split: if_splits)
  moreover have "sweep (accepts b t sd) (o_remainingQty (orders b t)) (flatten b G sd) =
      (o_remainingQty (orders b' t), flatten b' G' sd, fs1 @ fs)"
    using post2 l(4) unfolding match_post_def l(8) sweep_append
    by (simp add: flatten_def heap2 l(5,6) t1)
  ultimately show ?thesis
    using post2 l(5,6) by (auto simp: match_post_def flatten_def heap2)
qed

lemma match_post_stay:
  assumes post: "level_post clk t sd k lp gs G F b ms ps b1 ms1 ps' fs1" and G: "G sd = (k, lp, ps) # gs"
    and acc: "accepts b t sd k" and ne: "nonempty_levels G" "ps' \<noteq> []"
  shows "match_post clk t sd G F b ms b1 ms1 (G(sd := (k, lp, ps') # gs)) fs1"
    and "o_remainingQty (orders b1 t) = 0"
proof -
  note l = level_post_facts [OF post G, of "accepts b t sd", OF acc]
  show "o_remainingQty (orders b1 t) = 0"
    using sweep_exhausts [OF l(4)] ne(2) acc by (cases ps') (auto simp: resting_of_def)
  have "nonempty_levels (G(sd := (k, lp, ps') # gs))"
    using ne nonempty_levelsD [OF ne(1), of _ sd] G by (intro nonempty_levels_upd) auto
  then show "match_post clk t sd G F b ms b1 ms1 (G(sd := (k, lp, ps') # gs)) fs1"
    using l(1-4) ne(2) unfolding match_post_def l(8) sweep_append by (simp add: flatten_def l(5,6))
qed

text \<open>The two situations around one level: nothing more to do, and a level that was emptied.\<close>

lemma match_side_stop:
  assumes "layout_ok b G F" and "t \<in># F" and "nonempty_levels G" and G: "G sd = (k, lp, ps) # gs"
    and stop: "o_remainingQty (orders b t) = 0 \<or> \<not> accepts b t sd k"
  shows "match_post clk t sd G F b ms b ms G []"
    and "match_side sd clk t (map (\<lambda>g. (g_key g, g_lp g)) (G sd)) (b, ms) = Some (b, ms)"
proof -
  have "ps \<noteq> []" using nonempty_levelsD [OF assms(3), of "(k, lp, ps)" sd] G by simp
  then have "sweep (accepts b t sd) (o_remainingQty (orders b t)) (flatten b G sd) =
      (o_remainingQty (orders b t), flatten b G sd, [])"
    using stop by (cases ps) (auto simp: flatten_def G resting_of_def)
  then show "match_post clk t sd G F b ms b ms G []" using assms(1-3) by (intro match_post_refl)
  have "glevel_ok (orders b) (levels b) sd (k, lp, ps)"
    using layout_okD(1) [OF assms(1), of sd] by (simp add: side_ok_def G)
  then have "l_price (levels b lp) = k" by (auto simp: glevel_ok_def level_ok_def)
  then show "match_side sd clk t (map (\<lambda>g. (g_key g, g_lp g)) (G sd)) (b, ms) = Some (b, ms)"
    using stop by (auto simp: G acceptable_def word_gt_0)
qed

lemma drop_level_layout:
  assumes "layout_ok b1 (G(sd := (k, lp, []) # gs)) F" and "nonempty_levels G" and "G sd = (k, lp, ps) # gs"
  shows "layout_ok (drop_level sd k lp b1) (G(sd := gs)) F" and "nonempty_levels (G(sd := gs))"
proof -
  have "layout_ok (drop_level sd k lp b1) ((G(sd := (k, lp, []) # gs))(sd := [] @ gs)) F"
    by (intro layout_drop_level [OF assms(1)]) simp
  then show "layout_ok (drop_level sd k lp b1) (G(sd := gs)) F" by simp
  show "nonempty_levels (G(sd := gs))"
    using assms(2) nonempty_levelsD [OF assms(2), of _ sd] assms(3) by (intro nonempty_levels_upd) simp_all
qed

lemma match_side_ok:
  assumes "layout_ok b G F" and "t \<in># F" and "nonempty_levels G"
  shows "\<exists>b' ms' G' fs. match_side sd clk t (map (\<lambda>g. (g_key g, g_lp g)) (G sd)) (b, ms) = Some (b', ms') \<and>
     match_post clk t sd G F b ms b' ms' G' fs"
  using assms
proof (induction "G sd" arbitrary: b G ms)
  case Nil
  then have "match_post clk t sd G F b ms b ms G []"
    by (intro match_post_refl) (simp_all add: flatten_def)
  then show ?case using Nil.hyps [symmetric] by auto
next
  case (Cons g gs)
  obtain k lp ps where g: "g = (k, lp, ps)" by (cases g)
  have G: "G sd = (k, lp, ps) # gs" using Cons.hyps(2) g by simp
  let ?r = "o_remainingQty (orders b t)"
  have lev: "glevel_ok (orders b) (levels b) sd (k, lp, ps)"
    using layout_okD(1) [OF Cons.prems(1), of sd] by (simp add: side_ok_def G)
  then have price: "l_price (levels b lp) = k" and head: "l_head (levels b lp) = first_or None ps"
    by (auto simp: glevel_ok_def level_ok_def)
  consider (stop) "?r = 0 \<or> \<not> accepts b t sd k" | (go) "?r \<noteq> 0" "accepts b t sd k" by blast
  then show ?case
  proof cases
    case stop
    then show ?thesis using match_side_stop [OF Cons.prems G] by blast
  next
    case go
    obtain b1 ms1 ps' fs1 where run: "fillLevel clk t lp (l_head (levels b lp)) (b, ms) = Some (b1, ms1)"
      and post: "level_post clk t sd k lp gs G F b ms ps b1 ms1 ps' fs1"
      using fillLevel_ok [OF Cons.prems(1,2) G] unfolding head by blast
    note l = level_post_facts [OF post G, of "accepts b t sd", OF go(2)]
    let ?s2 = "if ps' = [] then (drop_level sd k lp b1, ms1) else (b1, ms1)"
    have step: "match_side sd clk t (map (\<lambda>g. (g_key g, g_lp g)) (G sd)) (b, ms) =
        match_side sd clk t (map (\<lambda>g. (g_key g, g_lp g)) gs) ?s2"
      using go run by (auto simp: G price acceptable_def word_gt_0 l(7))
    show ?thesis
    proof (cases "ps' = []")
      case True
      note drop = drop_level_layout [OF l(1) [unfolded True] Cons.prems(3) G]
      have "gs = (G(sd := gs)) sd" by simp
      from Cons.hyps(1) [OF this drop(1) Cons.prems(2) drop(2)] obtain b' ms' G' fs where
        run2: "match_side sd clk t (map (\<lambda>g. (g_key g, g_lp g)) gs) (drop_level sd k lp b1, ms1) = Some (b', ms')"
        and post2: "match_post clk t sd (G(sd := gs)) F (drop_level sd k lp b1) ms1 b' ms' G' fs"
        unfolding fun_upd_same by blast
      show ?thesis using match_post_drop [OF post [unfolded True] G go(2) post2] run2 step True by auto
    next
      case False
      note stay = match_post_stay [OF post G go(2) Cons.prems(3) False]
      have "match_side sd clk t (map (\<lambda>g. (g_key g, g_lp g)) gs) (b1, ms1) = Some (b1, ms1)"
        by (rule match_side_done [OF stay(2)])
      then show ?thesis using stay(1) step False by auto
    qed
  qed
qed

end
