(* ===== verification/Lob_Correct.thy ===== *)
theory Lob_Correct
  imports Lob_Loops
begin

text \<open>
  The order book refines its specification: \<open>addOrder\<close> and \<open>cancelOrder\<close> keep the
  invariant of the book and act on the abstract book as \<open>spec_add\<close> and \<open>spec_cancel\<close>.

  \<open>book_inv b F\<close>: the book has a well-formed layout with no empty level, its abstract
  book satisfies the invariant of the specification, and \<open>F\<close> are the order slots that were
  allocated and never given back. \<open>F\<close> is empty unless a call has thrown after it matched.
\<close>

definition book_inv :: "OrderBook \<Rightarrow> order_ptr multiset \<Rightarrow> bool" where
  "book_inv b F \<longleftrightarrow> (\<exists>G. layout_ok b G F \<and> nonempty_levels G) \<and> spec_inv (abs_book b)"

text \<open>Every level's volume is the sum of what rests at its price.\<close>

definition volumes_ok :: "OrderBook \<Rightarrow> bool" where
  "volumes_ok b \<longleftrightarrow> (\<forall>sd. \<forall>e \<in> set (side_map sd b).
     unat (l_totalVolume (levels b (snd e))) =
     spec_volume (filter (\<lambda>x. r_price x = fst e) (abs_book b sd)))"

lemma book_invE:
  assumes "book_inv b F"
  obtains G where "layout_ok b G F" "nonempty_levels G" "spec_inv (flatten b G)" "abs_book b = flatten b G"
  using assms abs_book_layout unfolding book_inv_def by metis

lemma book_invI:
  "layout_ok b G F \<Longrightarrow> nonempty_levels G \<Longrightarrow> spec_inv (flatten b G) \<Longrightarrow> book_inv b F"
  unfolding book_inv_def using abs_book_layout by metis

lemma spec_volume_map_resting: "spec_volume (map (resting_of h k) ps) = vol_of h ps"
  by (induction ps) (auto simp: resting_of_def)

lemma filter_price_flat:
  assumes "distinct (map g_key gs)" and "g \<in> set gs"
  shows "filter (\<lambda>x. r_price x = g_key g) (flat h gs) = map (resting_of h (g_key g)) (g_ps g)"
proof -
  have other: "filter (\<lambda>x. r_price x = k) (flat h gs') = []" if "k \<notin> g_key ` set gs'" for k gs'
    using that by (induction gs') (auto simp: filter_empty_conv)
  from assms(2) obtain pre post where gs: "gs = pre @ g # post" by (meson split_list)
  have "g_key g \<notin> g_key ` set pre" "g_key g \<notin> g_key ` set post" using assms(1) gs by auto
  then show ?thesis by (simp add: gs other filter_id_conv)
qed

lemma layout_keys_distinct: "layout_ok b G F \<Longrightarrow> distinct (map g_key (G sd))"
  using layout_okD(1) prices.sorted_distinct unfolding side_ok_def by blast

lemma volumes_ok_layout:
  assumes "layout_ok b G F"
  shows "volumes_ok b \<longleftrightarrow> vol_ok b G"
proof -
  have side: "side_map sd b = map (\<lambda>g. (g_key g, g_lp g)) (G sd)" for sd
    using layout_okD(1) [OF assms, of sd] by (simp add: side_ok_def)
  have "spec_volume (filter (\<lambda>x. r_price x = g_key g) (abs_book b sd)) = vol_of (orders b) (g_ps g)"
    if "g \<in> set (G sd)" for g sd
    unfolding abs_book_layout [OF assms] flatten_def
    using filter_price_flat [OF layout_keys_distinct [OF assms] that] by (simp add: spec_volume_map_resting)
  then show ?thesis by (simp add: volumes_ok_def vol_ok_def side)
qed

text \<open>The keys of \<open>orderMap\<close> are the ids of the resting orders.\<close>

lemma spec_ids_flatten: "spec_ids (flatten b G) = (\<lambda>p. o_id (orders b p)) ` set_mset (live G)"
proof -
  have "r_id ` set (flat h gs) = (\<lambda>p. o_id (h p)) ` set_mset (g_orders gs)" for h gs
  proof (induction gs)
    case (Cons g gs)
    have "r_id ` set (map (resting_of h (g_key g)) (g_ps g)) = (\<lambda>p. o_id (h p)) ` set (g_ps g)"
      by (simp add: image_image)
    with Cons show ?case by (simp only: flat_simps g_orders_simps set_append image_Un set_mset_union set_mset_mset)
  qed simp
  then show ?thesis by (simp only: spec_ids_def flatten_def live_def image_Un set_mset_union)
qed

lemma orderMap_keys:
  assumes "layout_ok b G F"
  shows "fst ` set (orderMap b) = spec_ids (flatten b G)"
proof -
  have "mset (orderMap b) = image_mset (\<lambda>p. (o_id (orders b p), p)) (live G)"
    using layout_okD(5) [OF assms] by (simp add: map_ok_def)
  from arg_cong [OF this, of set_mset]
  have "set (orderMap b) = (\<lambda>p. (o_id (orders b p), p)) ` set_mset (live G)"
    by (simp only: set_image_mset set_mset_mset)
  then show ?thesis by (simp only: spec_ids_flatten image_image fst_conv)
qed

lemma orderMap_find:
  assumes "layout_ok b G F"
  shows "map_of (orderMap b) i = Some p \<longleftrightarrow> p \<in># live G \<and> o_id (orders b p) = i"
proof -
  have "distinct (map fst (orderMap b))"
    and "mset (orderMap b) = image_mset (\<lambda>p. (o_id (orders b p), p)) (live G)"
    using layout_okD(5) [OF assms] by (auto simp: map_ok_def)
  then show ?thesis by (subst map_of_eq_Some_iff_mset) auto
qed

lemma orderMap_active:
  assumes "layout_ok b G F"
  shows "map_of (orderMap b) i \<noteq> None \<longleftrightarrow> i \<in> spec_ids (abs_book b)"
  using orderMap_keys [OF assms] abs_book_layout [OF assms] by (metis map_of_eq_None_iff)

section \<open>Adding an order, on either side\<close>

lemma addOrder_side:
  "addOrder clk i sd p q ty b =
     (if q = 0 \<or> map_of (orderMap b) i \<noteq> None then Some (b, Inr [])
      else case allocate (mk_Order i p q sd ty 0) (orderPool b) of
        Inl e \<Rightarrow> Some (b, Inl e)
      | Inr (t, pool) \<Rightarrow> do {
          (b2, ms) \<leftarrow> match_side (opposite sd) clk t
             (side_map (opposite sd) b) (b\<lparr>orderPool := pool\<rparr>, []);
          if o_remainingQty (orders b2 t) > 0 \<and> ty = LIMIT then
            (case getOrCreatePriceLevel sd (o_price (orders b2 t)) b2 of
               Inl e \<Rightarrow> Some (b2, Inl e)
             | Inr (lp, b3) \<Rightarrow>
                 let b4 = on_level lp (PriceLevel_append lp t) b3
                 in Some (b4\<lparr>orderMap := AList.update i t (orderMap b4)\<rparr>, Inr ms))
          else Some (free_order t b2, Inr ms)
        })"
  by (cases sd)
    (simp_all add: addOrder_def matchBuyOrder_def matchSellOrder_def matchBuyLoop_side
      matchSellLoop_side Let_def split: sum.splits prod.splits cong: if_cong)

text \<open>
  Up to the end of matching: the new order is allocated, and the opposite side has been swept.
\<close>

lemma add_match:
  assumes ok: "layout_ok b G F" and ne: "nonempty_levels G"
    and a: "allocate (mk_Order i p q sd ty 0) (orderPool b) = Inr (t, pool)"
  shows "\<exists>b2 G2 fs r. match_side (opposite sd) clk t (side_map (opposite sd) b) (b\<lparr>orderPool := pool\<rparr>, []) =
       Some (b2, mk_events clk i 0 fs) \<and>
     layout_ok b2 G2 (add_mset t F) \<and> nonempty_levels G2 \<and>
     flatten b2 G2 sd = flatten b G sd \<and>
     sweep (acceptable ty sd p) q (flatten b G (opposite sd)) = (r, flatten b2 G2 (opposite sd), fs) \<and>
     orders b2 t = (mk_Order i p q sd ty 0)\<lparr>o_remainingQty := r\<rparr> \<and>
     totalTradesCount b2 = totalTradesCount b + of_nat (length fs) \<and>
     totalVolumeTraded b2 = totalVolumeTraded b + of_nat (spec_volume fs) \<and>
     (vol_ok b G \<longrightarrow> vol_ok b2 G2)"
proof -
  let ?b1 = "b\<lparr>orderPool := pool\<rparr>"
  note alloc = layout_alloc [OF ok a]
  have "side_map (opposite sd) b = map (\<lambda>g. (g_key g, g_lp g)) (G (opposite sd))"
    using layout_okD(1) [OF ok] by (simp add: side_ok_def)
  then obtain b2 ms G2 fs where run: "match_side (opposite sd) clk t (side_map (opposite sd) b) (?b1, []) = Some (b2, ms)"
    and post: "match_post clk t (opposite sd) G (add_mset t F) ?b1 [] b2 ms G2 fs"
    using match_side_ok [OF alloc(1) _ ne, of t "opposite sd" clk "[]"] by auto
  have same: "same_rest (orders b) (orders ?b1) (live G)"
    using alloc(2,3) by (auto simp: same_rest_def)
  have "flat (orders ?b1) (G s) = flat (orders b) (G s)" for s
    using same by (intro flat_cong) (auto simp: same_rest_def live_side [of G s])
  then have flats: "flatten ?b1 G s = flatten b G s" for s by (simp add: flatten_def)
  have t: "orders ?b1 t = mk_Order i p q sd ty 0" using alloc(3) by simp
  have tr: "ms = mk_events clk i 0 fs" "totalTradesCount b2 = totalTradesCount b + of_nat (length fs)"
    "totalVolumeTraded b2 = totalVolumeTraded b + of_nat (spec_volume fs)"
    "\<exists>r. orders b2 t = (mk_Order i p q sd ty 0)\<lparr>o_remainingQty := r\<rparr>"
    using post t by (auto simp: match_post_def traded_def mk_Order_def)
  have "vol_ok ?b1 G" if "vol_ok b G"
  proof -
    have "vol_of (orders ?b1) (g_ps g) = vol_of (orders b) (g_ps g)" if "g \<in> set (G s)" for g s
    proof (rule vol_of_cong)
      fix x assume "x \<in> set (g_ps g)"
      then have "x \<in># live G" using that by (auto simp: live_side [of G s] in_g_orders)
      then show "o_remainingQty (orders ?b1 x) = o_remainingQty (orders b x)"
        using same by (simp add: same_rest_def)
    qed
    then show ?thesis using that by (simp add: vol_ok_def)
  qed
  then show ?thesis
    using run post tr t flats by (auto simp: match_post_def mk_Order_def)
qed

lemma vol_ok_side: "vol_ok b G \<longleftrightarrow>
    (\<forall>g \<in> set (G sd). unat (l_totalVolume (levels b (g_lp g))) = vol_of (orders b) (g_ps g)) \<and>
    (\<forall>g \<in> set (G (opposite sd)). unat (l_totalVolume (levels b (g_lp g))) = vol_of (orders b) (g_ps g))"
proof -
  have all: "(\<forall>s. P s) \<longleftrightarrow> P sd \<and> P (opposite sd)" for P
    by (metis side_eq_opposite)
  show ?thesis unfolding vol_ok_def by (rule all)
qed

text \<open>
  Finding or creating the level of a price changes nothing that rests; an empty level may be
  new. Freed and allocated orders do not change what rests either.
\<close>

lemma vol_new_level:
  assumes ok: "layout_ok b G F" and G: "G sd = pre @ post"
    and a: "allocate (mk_PriceLevel k) (levelPool b) = Inr (lp, P)"
    and vol: "vol_ok b G" and pool: "levelPool b' = P" and O: "orders b' = orders b"
  shows "vol_ok b' (G(sd := pre @ (k, lp, []) # post))"
proof -
  have fresh: "lp \<notin># live_levels G" using pool.alloc_fresh(1) [OF layout_okD(3) [OF ok] a] .
  have L: "levels b' = (levels b)(lp := mk_PriceLevel k)"
    using pool.alloc_read [OF a] by (simp add: pool)
  have old: "unat (l_totalVolume (levels b' (g_lp g))) = vol_of (orders b') (g_ps g)"
    if "g \<in> set (G s)" for g s
  proof -
    have "g_lp g \<noteq> lp"
      using fresh that by (auto simp: live_levels_side [of _ s] in_g_levels)
    then show ?thesis using vol that unfolding vol_ok_def L O by simp
  qed
  have "\<forall>g \<in> set pre \<union> set post.
      unat (l_totalVolume (levels b' (g_lp g))) = vol_of (orders b') (g_ps g)"
    using old [of _ sd] unfolding G by simp
  moreover have "\<forall>g \<in> set (G (opposite sd)).
      unat (l_totalVolume (levels b' (g_lp g))) = vol_of (orders b') (g_ps g)"
    using old by blast
  ultimately show ?thesis
    unfolding vol_ok_side [of _ _ sd] by (simp add: L mk_PriceLevel_def)
qed

lemma get_level:
  assumes ok: "layout_ok b G F" and ne: "nonempty_levels G"
    and get: "getOrCreatePriceLevel sd k b = Inr (lp, b')"
  shows "\<exists>pre ps post. layout_ok b' (G(sd := pre @ (k, lp, ps) # post)) F \<and> orders b' = orders b \<and>
     flat (orders b) (pre @ (k, lp, ps) # post) = flatten b G sd \<and>
     (\<forall>g \<in> set pre \<union> set post. g_ps g \<noteq> []) \<and> orderMap b' = orderMap b \<and>
     totalTradesCount b' = totalTradesCount b \<and> totalVolumeTraded b' = totalVolumeTraded b \<and>
     (vol_ok b G \<longrightarrow> vol_ok b' (G(sd := pre @ (k, lp, ps) # post)))"
proof (cases "map_of (side_map sd b) k")
  case (Some lvl)
  then have "lvl = lp" "b' = b" using get by (simp_all add: getOrCreatePriceLevel_side)
  with Some obtain pre ps post where G: "G sd = pre @ (k, lp, ps) # post"
    using layout_find_level [OF ok] by blast
  have "G(sd := pre @ (k, lp, ps) # post) = G" using G by auto
  moreover have "\<forall>g \<in> set pre \<union> set post. g_ps g \<noteq> []"
    using nonempty_levelsD [OF ne, of _ sd] G by auto
  moreover have "flat (orders b) (pre @ (k, lp, ps) # post) = flatten b G sd"
    by (simp only: flatten_def G)
  ultimately show ?thesis using ok \<open>b' = b\<close> by metis
next
  case None
  then obtain P where a: "allocate (mk_PriceLevel k) (levelPool b) = Inr (lp, P)"
    and b': "b' = upd_side sd (map_assign (better sd) k lp) (b\<lparr>levelPool := P\<rparr>)"
    using get by (auto simp: getOrCreatePriceLevel_side split: sum.splits)
  obtain pre post where G: "G sd = pre @ post"
    and ok': "layout_ok b' (G(sd := pre @ (k, lp, []) # post)) F"
    using layout_create_level [OF ok None a] b' by blast
  have "vol_ok b' (G(sd := pre @ (k, lp, []) # post))" if "vol_ok b G"
    using vol_new_level [OF ok G a that] by (simp add: b')
  moreover have "flat (orders b) (pre @ (k, lp, []) # post) = flatten b G sd"
    by (simp add: flatten_def G)
  moreover have "\<forall>g \<in> set pre \<union> set post. g_ps g \<noteq> []"
    using nonempty_levelsD [OF ne, of _ sd] G by auto
  ultimately show ?thesis
    using ok' by (intro exI [of _ pre] exI [of _ "[]"] exI [of _ post]) (simp add: b')
qed

lemma insert_resting_after:
  "(\<And>y. y \<in> set xs \<Longrightarrow> \<not> better sd (r_price x) (r_price y)) \<Longrightarrow>
     insert_resting sd x (xs @ ys) = xs @ insert_resting sd x ys"
  by (induction xs) auto

lemma insert_resting_before:
  "(\<And>y. y \<in> set ys \<Longrightarrow> better sd (r_price x) (r_price y)) \<Longrightarrow> insert_resting sd x ys = x # ys"
  by (cases ys) auto

lemma price_in_flat: "y \<in> set (flat h gs) \<Longrightarrow> r_price y \<in> g_key ` set gs"
  by (induction gs) auto

text \<open>Appending to the level of its price is insertion in priority order.\<close>

lemma flat_append_level:
  assumes sorted: "sorted_wrt (better sd) (map g_key (pre @ (k, lp, ps) # post))"
  shows "flat h (pre @ (k, lp, ps @ [t]) # post) =
     insert_resting sd (resting_of h k t) (flat h (pre @ (k, lp, ps) # post))"
proof -
  have pre: "\<And>g. g \<in> set pre \<Longrightarrow> \<not> better sd k (g_key g)"
    and post: "\<And>g. g \<in> set post \<Longrightarrow> better sd k (g_key g)"
    using sorted prices.asym by (auto simp: sorted_wrt_append)
  have "\<not> better sd k (r_price y)" if "y \<in> set (flat h pre @ map (resting_of h k) ps)" for y
    using that pre price_in_flat [of y h pre] prices.irrefl [of sd k] by (auto simp: image_iff)
  moreover have "better sd k (r_price y)" if "y \<in> set (flat h post)" for y
    using price_in_flat [OF that] post by auto
  ultimately show ?thesis
    using insert_resting_after [of "flat h pre @ map (resting_of h k) ps" sd "resting_of h k t" "flat h post"]
      insert_resting_before [of "flat h post" sd "resting_of h k t"] by simp
qed

lemma flatten_link:
  assumes ok: "layout_ok b G (add_mset t F)" and G: "G sd = pre @ (k, lp, ps) # post"
  shows "flatten (link lp t b) (G(sd := pre @ (k, lp, ps @ [t]) # post)) =
     (flatten b G)(sd := insert_resting sd (resting_of (orders b) k t) (flatten b G sd))"
proof
  fix s
  have same: "flat (orders (link lp t b)) gs = flat (orders b) gs" for gs
    by (rule flat_cong) (simp add: same_rest_def link_def Let_def heap_frame)
  have "sorted_wrt (better sd) (map g_key (pre @ (k, lp, ps) # post))"
    using layout_okD(1) [OF ok, of sd] unfolding side_ok_def G by blast
  from flat_append_level [OF this]
  show "flatten (link lp t b) (G(sd := pre @ (k, lp, ps @ [t]) # post)) s =
     ((flatten b G)(sd := insert_resting sd (resting_of (orders b) k t) (flatten b G sd))) s"
    by (simp add: flatten_def same G del: flat_simps)
qed

lemma vol_link:
  assumes ok: "layout_ok b G (add_mset t F)" and vol: "vol_ok b G" and G: "G sd = pre @ (k, lp, ps) # post"
    and bound: "vol_of (orders b) ps + unat (o_remainingQty (orders b t)) < 2 ^ 32"
  shows "vol_ok (link lp t b) (G(sd := pre @ (k, lp, ps @ [t]) # post))"
proof (rule vol_replace [OF ok vol G])
  have tv: "unat (l_totalVolume (levels b lp)) = vol_of (orders b) ps"
    using vol_okD [OF vol G] .
  have "vol_of (orders (link lp t b)) (ps @ [t]) = vol_of (orders b) (ps @ [t])"
    by (intro vol_of_cong) (simp add: link_def Let_def heap_frame)
  moreover have "unat (l_totalVolume (levels b lp) + o_remainingQty (orders b t)) =
      unat (l_totalVolume (levels b lp)) + unat (o_remainingQty (orders b t))"
    using bound tv by (intro unat_add_lem [THEN iffD1]) simp
  ultimately show "unat (l_totalVolume (levels (link lp t b) (g_lp (k, lp, ps)))) =
      vol_of (orders (link lp t b)) (g_ps (k, lp, ps @ [t]))"
    using tv by (simp add: link_def Let_def append_volume)
qed (auto simp: link_def Let_def heap_frame same_rest_def)

end
