(* ===== verification/Lob_Add.thy ===== *)
theory Lob_Add
  imports Lob_Correct
begin

text \<open>
  \<open>addOrder\<close> against its specification, on every path: the order is ignored, the order pool
  is exhausted, the level pool is exhausted after matching (the only path that leaks), and the
  order is processed. Slot accounting comes with it: how many slots of each pool are in use is
  a function of the abstract book and of the leaked orders.
\<close>

section \<open>Resting the remainder\<close>

lemma code_link:
  "o_id (orders b t) = i \<Longrightarrow>
     (let b4 = on_level lp (PriceLevel_append lp t) b
      in b4\<lparr>orderMap := AList.update i t (orderMap b4)\<rparr>) = link lp t b"
  by (simp add: link_def)

lemma spec_volume_insert:
  "spec_volume (filter P (insert_resting sd x os)) =
     spec_volume (filter P os) + (if P x then unat (r_qty x) else 0)"
  by (induction os) auto

lemma add_rest:
  assumes ok: "layout_ok b G (add_mset t F)" and ne: "nonempty_levels G"
    and t: "orders b t = (mk_Order i p q sd LIMIT 0)\<lparr>o_remainingQty := r\<rparr>"
    and new: "i \<notin> spec_ids (flatten b G)"
    and get: "getOrCreatePriceLevel sd p b = Inr (lp, b')"
  shows "\<exists>G'. layout_ok (link lp t b') G' F \<and> nonempty_levels G' \<and>
     flatten (link lp t b') G' = (flatten b G)(sd := insert_resting sd (p, i, r) (flatten b G sd)) \<and>
     totalTradesCount (link lp t b') = totalTradesCount b \<and>
     totalVolumeTraded (link lp t b') = totalVolumeTraded b \<and>
     (vol_ok b G \<longrightarrow> spec_volume (filter (\<lambda>x. r_price x = p) (flatten b G sd)) + unat r < 2 ^ 32 \<longrightarrow>
        vol_ok (link lp t b') G')"
proof -
  from get_level [OF ok ne get] obtain pre ps post where
    ok': "layout_ok b' (G(sd := pre @ (p, lp, ps) # post)) (add_mset t F)"
    and same: "orders b' = orders b" "orderMap b' = orderMap b"
      "totalTradesCount b' = totalTradesCount b" "totalVolumeTraded b' = totalVolumeTraded b"
    and flat: "flat (orders b) (pre @ (p, lp, ps) # post) = flatten b G sd"
    and ne': "\<forall>g \<in> set pre \<union> set post. g_ps g \<noteq> []"
    and vol': "vol_ok b G \<longrightarrow> vol_ok b' (G(sd := pre @ (p, lp, ps) # post))"
    by blast
  let ?G = "G(sd := pre @ (p, lp, ps) # post)" and ?G' = "G(sd := pre @ (p, lp, ps @ [t]) # post)"
  have Gsd: "?G sd = pre @ (p, lp, ps) # post" by simp
  have t': "o_price (orders b' t) = p" "o_side (orders b' t) = sd" "o_type (orders b' t) = LIMIT"
    "o_id (orders b' t) = i" "o_remainingQty (orders b' t) = r"
    using t by (simp_all add: same mk_Order_def)
  have fl: "flatten b' ?G = flatten b G"
  proof
    show "flatten b' ?G s = flatten b G s" for s
      using flat by (cases "s = sd") (simp_all add: flatten_def same del: flat_simps)
  qed
  have "o_id (orders b' t) \<notin> fst ` set (orderMap b')"
    using new unfolding orderMap_keys [OF ok'] fl t' .
  from layout_link [OF ok' Gsd t'(1,2,3) this]
  have "layout_ok (link lp t b') ?G' F" by (simp only: fun_upd_upd)
  moreover have "nonempty_levels ?G'"
    using ne' by (intro nonempty_levels_upd [OF ne]) auto
  moreover have "flatten (link lp t b') ?G' =
      (flatten b G)(sd := insert_resting sd (p, i, r) (flatten b G sd))"
  proof -
    have "resting_of (orders b') p t = (p, i, r)" by (simp add: resting_of_def t')
    with flatten_link [OF ok' Gsd] show ?thesis by (simp only: fl fun_upd_upd)
  qed
  moreover have "vol_ok (link lp t b') ?G'"
    if "vol_ok b G" and "spec_volume (filter (\<lambda>x. r_price x = p) (flatten b G sd)) + unat r < 2 ^ 32"
  proof -
    have "(p, lp, ps) \<in> set (?G sd)" by simp
    from filter_price_flat [OF layout_keys_distinct [OF ok'] this, of "orders b"]
    have "filter (\<lambda>x. r_price x = p) (flatten b G sd) = map (resting_of (orders b) p) ps"
      using flat by (simp del: flat_simps)
    then have "vol_of (orders b') ps + unat (o_remainingQty (orders b' t)) < 2 ^ 32"
      using that(2) by (simp add: spec_volume_map_resting same t' [unfolded same])
    with vol' that(1) show ?thesis
      using vol_link [OF ok' _ Gsd] by (simp only: fun_upd_upd simp_thms)
  qed
  moreover have "totalTradesCount (link lp t b') = totalTradesCount b"
    "totalVolumeTraded (link lp t b') = totalVolumeTraded b"
    by (simp_all add: link_def Let_def same)
  ultimately show ?thesis by blast
qed

section \<open>Every path of \<open>addOrder\<close>\<close>

lemma spec_add_unfold:
  assumes "q \<noteq> 0" and "i \<notin> spec_ids S" and "sweep (acceptable ty sd p) q (S (opposite sd)) = (r, os, fs)"
  shows "spec_add i sd p q ty S =
    (if r > 0 \<and> ty = LIMIT then S(opposite sd := os, sd := insert_resting sd (p, i, r) (S sd))
     else S(opposite sd := os), fs)"
  using assms by (simp add: spec_add_def Let_def)

lemma allocate_fails: "allocate v P = Inl e \<longleftrightarrow> available P = 0"
  by (cases e) (simp add: allocate_def available_def Let_def)

lemma getOrCreate_fails:
  assumes "getOrCreatePriceLevel sd p b = Inl e"
  shows "available (levelPool b) = 0" and "map_of (side_map sd b) p = None"
  using assms by (auto simp: getOrCreatePriceLevel_side allocate_fails split: option.splits sum.splits)

lemma flatten_after_match:
  "flatten b' G' sd = flatten b G sd \<Longrightarrow>
     flatten b' G' = (flatten b G)(opposite sd := flatten b' G' (opposite sd))"
proof
  fix s
  assume "flatten b' G' sd = flatten b G sd"
  then show "flatten b' G' s = ((flatten b G)(opposite sd := flatten b' G' (opposite sd))) s"
    by (cases "s = sd") (simp_all add: side_eq_opposite)
qed

text \<open>An order that is neither ignored nor refused: the state after matching, and what is left to do.\<close>

lemma addOrder_matched:
  assumes ok: "layout_ok b G F" and ne: "nonempty_levels G" and sinv: "spec_inv (flatten b G)"
    and go: "q \<noteq> 0" "i \<notin> spec_ids (flatten b G)"
    and a: "allocate (mk_Order i p q sd ty 0) (orderPool b) = Inr (t, P)"
  obtains b2 G2 os r fs where "layout_ok b2 G2 (add_mset t F)" "nonempty_levels G2" "spec_inv (flatten b2 G2)"
    "flatten b2 G2 = (flatten b G)(opposite sd := os)" "i \<notin> spec_ids (flatten b2 G2)"
    "sweep (acceptable ty sd p) q (flatten b G (opposite sd)) = (r, os, fs)"
    "orders b2 t = (mk_Order i p q sd ty 0)\<lparr>o_remainingQty := r\<rparr>"
    "totalTradesCount b2 = totalTradesCount b + of_nat (length fs)"
    "totalVolumeTraded b2 = totalVolumeTraded b + of_nat (spec_volume fs)"
    "volumes_ok b \<Longrightarrow> vol_ok b2 G2"
    "addOrder clk i sd p q ty b = (if r > 0 \<and> ty = LIMIT then
        (case getOrCreatePriceLevel sd p b2 of
           Inl e \<Rightarrow> Some (b2, Inl e)
         | Inr (lp, b3) \<Rightarrow>
             let b4 = on_level lp (PriceLevel_append lp t) b3
             in Some (b4\<lparr>orderMap := AList.update i t (orderMap b4)\<rparr>, Inr (mk_events clk i 0 fs)))
      else Some (free_order t b2, Inr (mk_events clk i 0 fs)))"
proof -
  from add_match [OF ok ne a, of clk] obtain b2 G2 fs r where
    run: "match_side (opposite sd) clk t (side_map (opposite sd) b) (b\<lparr>orderPool := P\<rparr>, []) =
      Some (b2, mk_events clk i 0 fs)"
    and ok2: "layout_ok b2 G2 (add_mset t F)" "nonempty_levels G2"
    and own: "flatten b2 G2 sd = flatten b G sd"
    and sw: "sweep (acceptable ty sd p) q (flatten b G (opposite sd)) = (r, flatten b2 G2 (opposite sd), fs)"
    and t: "orders b2 t = (mk_Order i p q sd ty 0)\<lparr>o_remainingQty := r\<rparr>"
    and tot: "totalTradesCount b2 = totalTradesCount b + of_nat (length fs)"
      "totalVolumeTraded b2 = totalVolumeTraded b + of_nat (spec_volume fs)"
    and vol: "vol_ok b G \<longrightarrow> vol_ok b2 G2" by blast
  note S2 = flatten_after_match [OF own]
  have inv2: "spec_inv (flatten b2 G2)" and "spec_ids (flatten b2 G2) \<subseteq> spec_ids (flatten b G)"
    using spec_inv_sweep [OF sinv sw] unfolding S2 [symmetric] .
  then have ids2: "i \<notin> spec_ids (flatten b2 G2)" using go(2) by blast
  have "map_of (orderMap b) i = None"
    using orderMap_active [OF ok, of i] go(2) abs_book_layout [OF ok] by simp
  moreover have "o_remainingQty (orders b2 t) = r" "o_price (orders b2 t) = p"
    using t by (simp_all add: mk_Order_def)
  ultimately have code: "addOrder clk i sd p q ty b = (if r > 0 \<and> ty = LIMIT then
        (case getOrCreatePriceLevel sd p b2 of
           Inl e \<Rightarrow> Some (b2, Inl e)
         | Inr (lp, b3) \<Rightarrow>
             let b4 = on_level lp (PriceLevel_append lp t) b3
             in Some (b4\<lparr>orderMap := AList.update i t (orderMap b4)\<rparr>, Inr (mk_events clk i 0 fs)))
      else Some (free_order t b2, Inr (mk_events clk i 0 fs)))"
    using go(1) by (simp add: addOrder_side a run)
  have "volumes_ok b \<Longrightarrow> vol_ok b2 G2" using vol volumes_ok_layout [OF ok] by simp
  then show ?thesis using that [OF ok2 inv2 S2 ids2 sw t tot _ code] by blast
qed

text \<open>The two ways to end without an exception: the incoming order is given back, or it rests.\<close>

lemma add_dropped:
  assumes "layout_ok b2 G2 (add_mset t F)" and "nonempty_levels G2" and "spec_inv (flatten b2 G2)"
  shows "book_inv (free_order t b2) F" and "abs_book (free_order t b2) = flatten b2 G2"
    and "vol_ok b2 G2 \<Longrightarrow> volumes_ok (free_order t b2)"
proof -
  have ok': "layout_ok (free_order t b2) G2 F" by (rule layout_free [OF assms(1)])
  have fl: "flatten (free_order t b2) G2 = flatten b2 G2" by (simp add: flatten_def [abs_def])
  show "book_inv (free_order t b2) F" using ok' assms(2,3) fl by (intro book_invI) auto
  show "abs_book (free_order t b2) = flatten b2 G2" using abs_book_layout [OF ok'] by (simp only: fl)
  show "vol_ok b2 G2 \<Longrightarrow> volumes_ok (free_order t b2)" using volumes_ok_layout [OF ok'] by (simp add: vol_ok_def)
qed

lemma add_rested:
  assumes ok: "layout_ok b2 G2 (add_mset t F)" and ne: "nonempty_levels G2"
    and t: "orders b2 t = (mk_Order i p q sd LIMIT 0)\<lparr>o_remainingQty := r\<rparr>"
    and new: "i \<notin> spec_ids (flatten b2 G2)"
    and get: "getOrCreatePriceLevel sd p b2 = Inr (lp, b3)"
    and inv: "spec_inv ((flatten b2 G2)(sd := insert_resting sd (p, i, r) (flatten b2 G2 sd)))"
  defines "b4 \<equiv> link lp t b3"
  shows "book_inv b4 F" and "abs_book b4 = (flatten b2 G2)(sd := insert_resting sd (p, i, r) (flatten b2 G2 sd))"
    and "totalTradesCount b4 = totalTradesCount b2" and "totalVolumeTraded b4 = totalVolumeTraded b2"
    and "vol_ok b2 G2 \<Longrightarrow> spec_volume (filter (\<lambda>x. r_price x = p) (abs_book b4 sd)) < 2 ^ 32 \<Longrightarrow> volumes_ok b4"
    and "(let b' = on_level lp (PriceLevel_append lp t) b3
          in b'\<lparr>orderMap := AList.update i t (orderMap b')\<rparr>) = b4"
proof -
  from add_rest [OF ok ne t new get] obtain G4 where
    ok4: "layout_ok b4 G4 F" and ne4: "nonempty_levels G4"
    and fl4: "flatten b4 G4 = (flatten b2 G2)(sd := insert_resting sd (p, i, r) (flatten b2 G2 sd))"
    and tot4: "totalTradesCount b4 = totalTradesCount b2" "totalVolumeTraded b4 = totalVolumeTraded b2"
    and vol4: "vol_ok b2 G2 \<longrightarrow> spec_volume (filter (\<lambda>x. r_price x = p) (flatten b2 G2 sd)) + unat r < 2 ^ 32 \<longrightarrow>
      vol_ok b4 G4" unfolding b4_def by blast
  show "totalTradesCount b4 = totalTradesCount b2" "totalVolumeTraded b4 = totalVolumeTraded b2" by (fact tot4)+
  show abs4: "abs_book b4 = (flatten b2 G2)(sd := insert_resting sd (p, i, r) (flatten b2 G2 sd))"
    using abs_book_layout [OF ok4] fl4 by simp
  show "book_inv b4 F" using ok4 ne4 inv fl4 by (intro book_invI) auto
  show "volumes_ok b4" if "vol_ok b2 G2" "spec_volume (filter (\<lambda>x. r_price x = p) (abs_book b4 sd)) < 2 ^ 32"
    using vol4 that volumes_ok_layout [OF ok4] by (simp add: abs4 spec_volume_insert)
  have "o_id (orders b3 t) = i" using get_level [OF ok ne get] t by (auto simp: mk_Order_def)
  then show "(let b' = on_level lp (PriceLevel_append lp t) b3
      in b'\<lparr>orderMap := AList.update i t (orderMap b')\<rparr>) = b4"
    unfolding b4_def by (rule code_link)
qed

text \<open>An order that gets a slot: either the level pool runs out after matching, or the order is processed.\<close>

lemma addOrder_allocated:
  fixes clk i sd p q ty b F
  assumes ok: "layout_ok b G F" and ne: "nonempty_levels G" and sinv: "spec_inv (flatten b G)"
    and go: "q \<noteq> 0" "i \<notin> spec_ids (flatten b G)"
    and slot: "allocate (mk_Order i p q sd ty 0) (orderPool b) = Inr (t, P)"
  defines "S \<equiv> flatten b G" and "call \<equiv> addOrder clk i sd p q ty b"
  obtains
      (leaked) b' r os fs where "sweep (acceptable ty sd p) q (S (opposite sd)) = (r, os, fs)" "r > 0" "ty = LIMIT"
        "call = Some (b', Inl PoolExhausted)" "book_inv b' (add_mset t F)"
        "abs_book b' = S(opposite sd := os)" "available (levelPool b') = 0"
        "totalTradesCount b' = totalTradesCount b + of_nat (length fs)"
        "totalVolumeTraded b' = totalVolumeTraded b + of_nat (spec_volume fs)"
        "volumes_ok b \<Longrightarrow> volumes_ok b'"
    | (processed) b' fs where "fs = snd (spec_add i sd p q ty S)"
        "call = Some (b', Inr (mk_events clk i 0 fs))" "book_inv b' F"
        "abs_book b' = fst (spec_add i sd p q ty S)"
        "totalTradesCount b' = totalTradesCount b + of_nat (length fs)"
        "totalVolumeTraded b' = totalVolumeTraded b + of_nat (spec_volume fs)"
        "volumes_ok b \<Longrightarrow> spec_volume (filter (\<lambda>x. r_price x = p) (abs_book b' sd)) < 2 ^ 32 \<Longrightarrow> volumes_ok b'"
proof -
  from addOrder_matched [OF ok ne sinv go slot, of clk, folded S_def call_def]
  obtain b2 G2 os r fs where m: "layout_ok b2 G2 (add_mset t F)" "nonempty_levels G2" "spec_inv (flatten b2 G2)"
      "flatten b2 G2 = S(opposite sd := os)" "i \<notin> spec_ids (flatten b2 G2)"
    and sw: "sweep (acceptable ty sd p) q (S (opposite sd)) = (r, os, fs)"
    and t: "orders b2 t = (mk_Order i p q sd ty 0)\<lparr>o_remainingQty := r\<rparr>"
    and tot: "totalTradesCount b2 = totalTradesCount b + of_nat (length fs)"
      "totalVolumeTraded b2 = totalVolumeTraded b + of_nat (spec_volume fs)"
    and volb: "volumes_ok b \<Longrightarrow> vol_ok b2 G2"
    and code: "call = (if r > 0 \<and> ty = LIMIT then
        (case getOrCreatePriceLevel sd p b2 of
           Inl e \<Rightarrow> Some (b2, Inl e)
         | Inr (lp, b3) \<Rightarrow>
             let b4 = on_level lp (PriceLevel_append lp t) b3
             in Some (b4\<lparr>orderMap := AList.update i t (orderMap b4)\<rparr>, Inr (mk_events clk i 0 fs)))
      else Some (free_order t b2, Inr (mk_events clk i 0 fs)))"
    by blast
  note sa = spec_add_unfold [OF go(1) go(2) [folded S_def] sw]
  consider (drop) "\<not> (r > 0 \<and> ty = LIMIT)" | (none) e where "r > 0" "ty = LIMIT" "getOrCreatePriceLevel sd p b2 = Inl e"
    | (rest) lp b3 where "r > 0" "ty = LIMIT" "getOrCreatePriceLevel sd p b2 = Inr (lp, b3)"
    by (metis old.sum.exhaust prod.exhaust)
  then show ?thesis
  proof cases
    case drop
    then have "spec_add i sd p q ty S = (S(opposite sd := os), fs)" unfolding sa by auto
    then show ?thesis
      using add_dropped [OF m(1-3)] m(4) drop code tot volb
      by (intro processed [of fs "free_order t b2"]) auto
  next
    case none
    then have "call = Some (b2, Inl PoolExhausted)" using code by (cases e) simp
    moreover have "volumes_ok b \<Longrightarrow> volumes_ok b2" using volb volumes_ok_layout [OF m(1)] by simp
    ultimately show ?thesis
      using leaked [OF sw none(1,2)] book_invI [OF m(1-3)] abs_book_layout [OF m(1)] m(4)
        getOrCreate_fails(1) [OF none(3)] tot by simp
  next
    case rest
    have spec: "spec_add i sd p q ty S = ((flatten b2 G2)(sd := insert_resting sd (p, i, r) (flatten b2 G2 sd)), fs)"
      unfolding sa m(4) using rest by simp
    then have inv4: "spec_inv ((flatten b2 G2)(sd := insert_resting sd (p, i, r) (flatten b2 G2 sd)))"
      using spec_inv_add [OF sinv, of i sd p q ty] by (simp add: S_def)
    have t2: "orders b2 t = (mk_Order i p q sd LIMIT 0)\<lparr>o_remainingQty := r\<rparr>" using t rest by simp
    note r4 = add_rested [OF m(1,2) t2 m(5) rest(3) inv4]
    have "call = Some (link lp t b3, Inr (mk_events clk i 0 fs))" using code rest r4(6) by (simp add: Let_def)
    then show ?thesis using processed [of fs "link lp t b3"] tot r4(1-5) spec volb by simp
  qed
qed

lemma addOrder_cases:
  fixes clk i sd p q ty b F
  assumes inv: "book_inv b F"
  defines "S \<equiv> abs_book b" and "call \<equiv> addOrder clk i sd p q ty b"
  obtains
      (ignored) "q = 0 \<or> i \<in> spec_ids S" "call = Some (b, Inr [])"
    | (full) "q \<noteq> 0" "i \<notin> spec_ids S" "available (orderPool b) = 0" "call = Some (b, Inl PoolExhausted)"
    | (leaked) b' t r os fs where "q \<noteq> 0" "i \<notin> spec_ids S" "available (orderPool b) > 0"
        "sweep (acceptable ty sd p) q (S (opposite sd)) = (r, os, fs)" "r > 0" "ty = LIMIT"
        "call = Some (b', Inl PoolExhausted)" "book_inv b' (add_mset t F)"
        "abs_book b' = S(opposite sd := os)" "available (levelPool b') = 0"
        "totalTradesCount b' = totalTradesCount b + of_nat (length fs)"
        "totalVolumeTraded b' = totalVolumeTraded b + of_nat (spec_volume fs)"
        "volumes_ok b \<Longrightarrow> volumes_ok b'"
    | (processed) b' fs where "q \<noteq> 0" "i \<notin> spec_ids S" "available (orderPool b) > 0"
        "fs = snd (spec_add i sd p q ty S)"
        "call = Some (b', Inr (mk_events clk i 0 fs))" "book_inv b' F"
        "abs_book b' = fst (spec_add i sd p q ty S)"
        "totalTradesCount b' = totalTradesCount b + of_nat (length fs)"
        "totalVolumeTraded b' = totalVolumeTraded b + of_nat (spec_volume fs)"
        "volumes_ok b \<Longrightarrow> spec_volume (filter (\<lambda>x. r_price x = p) (abs_book b' sd)) < 2 ^ 32 \<Longrightarrow> volumes_ok b'"
proof -
  obtain G where ok: "layout_ok b G F" and ne: "nonempty_levels G" and sinv: "spec_inv (flatten b G)"
    and S: "S = flatten b G"
    using book_invE [OF inv] unfolding S_def by metis
  have active: "map_of (orderMap b) i \<noteq> None \<longleftrightarrow> i \<in> spec_ids S"
    unfolding S_def using orderMap_active [OF ok] .
  consider (skip) "q = 0 \<or> i \<in> spec_ids S" | (none) e where "q \<noteq> 0" "i \<notin> spec_ids S"
      "allocate (mk_Order i p q sd ty 0) (orderPool b) = Inl e"
    | (some) t P where "q \<noteq> 0" "i \<notin> spec_ids S" "allocate (mk_Order i p q sd ty 0) (orderPool b) = Inr (t, P)"
    by (metis old.sum.exhaust prod.exhaust)
  then show ?thesis
  proof cases
    case skip
    then have "call = Some (b, Inr [])" using active by (simp add: call_def addOrder_side)
    with skip show ?thesis by (rule ignored)
  next
    case none
    then have "call = Some (b, Inl PoolExhausted)"
      using active by (cases e) (simp add: call_def addOrder_side)
    with none show ?thesis using full by (simp add: allocate_fails)
  next
    case some
    have av: "available (orderPool b) > 0"
      using some(3) by (metis Inl_Inr_False allocate_fails neq0_conv)
    from addOrder_allocated [OF ok ne sinv some(1) some(2) [unfolded S] some(3), of clk, folded S call_def]
    show ?thesis
    proof cases
      case 1
      then show ?thesis by (rule leaked [OF some(1,2) av])
    next
      case 2
      then show ?thesis by (rule processed [OF some(1,2) av])
    qed
  qed
qed

end
