(* ===== verification/Lob_Cancel.thy ===== *)
theory Lob_Cancel
  imports Lob_Correct
begin

text \<open>
  \<open>cancelOrder\<close> against its specification: an active order is unlinked from wherever it
  stands in its level, the level goes if it is empty, the slot returns to the pool.
\<close>

lemma filter_other_ids:
  assumes "distinct (map r_id (A @ x # B))"
  shows "filter (\<lambda>y. r_id y \<noteq> r_id x) (A @ x # B) = A @ B"
proof -
  have "r_id x \<notin> r_id ` set A" "r_id x \<notin> r_id ` set B" using assms by auto
  then have "\<And>y. y \<in> set A \<Longrightarrow> r_id y \<noteq> r_id x" "\<And>y. y \<in> set B \<Longrightarrow> r_id y \<noteq> r_id x"
    by (metis imageI)+
  then show ?thesis by (simp add: filter_id_conv)
qed

lemma live_split:
  assumes "p \<in># live G"
  obtains sd pre k lp xs ys post where "G sd = pre @ (k, lp, xs @ p # ys) # post"
proof -
  from assms obtain sd g where g: "g \<in> set (G sd)" and p: "p \<in> set (g_ps g)"
    by (auto simp: live_def in_g_orders)
  obtain k lp ps where "g = (k, lp, ps)" by (cases g)
  with g p that show ?thesis by (metis split_list snd_conv)
qed

text \<open>The body of \<open>cancelOrder\<close> as the moves of the layout.\<close>

lemma cancelOrder_moves:
  assumes "map_of (orderMap b) i = Some p" and "o_level (orders b p) = Some lp"
    and "o_side (orders b p) = sd" "o_price (orders b p) = k" "o_id (orders b p) = i"
  shows "cancelOrder i b = (free_order p (if PriceLevel_empty (levels (unlink lp p b) lp)
     then drop_level sd k lp (unlink lp p b) else unlink lp p b), True)"
proof -
  let ?b' = "on_level lp (PriceLevel_remove (Some p)) b"
  have swap: "unlink lp p b = ?b'\<lparr>orderMap := AList.delete i (orderMap b)\<rparr>"
    using assms(5) by (cases b) (simp add: unlink_def on_level_def split_beta)
  have drop: "(removePriceLevelIfEmpty sd k (Some lp) ?b')
        \<lparr>orderMap := AList.delete i (orderMap (removePriceLevelIfEmpty sd k (Some lp) ?b'))\<rparr> =
      (if PriceLevel_empty (levels (unlink lp p b) lp)
       then drop_level sd k lp (unlink lp p b) else unlink lp p b)"
    unfolding swap drop_level_def
    by (cases sd) (simp_all add: removePriceLevelIfEmpty_def upd_side_def free_level_def Let_def)
  show ?thesis
    using assms(1-4) drop by (simp add: cancelOrder_def Let_def heap_frame)
qed

lemma flatten_unlink:
  assumes inv: "spec_inv (flatten b G)" and G: "G sd = pre @ (k, lp, xs @ p # ys) # post"
  shows "flatten (unlink lp p b) (G(sd := pre @ (k, lp, xs @ ys) # post)) =
     spec_cancel (o_id (orders b p)) (flatten b G)"
proof
  fix s
  let ?i = "o_id (orders b p)"
  have same: "flat (orders (unlink lp p b)) gs = flat (orders b) gs" for gs
    by (rule flat_cong) (simp add: same_rest_def unlink_def heap_frame)
  let ?A = "flat (orders b) pre @ map (resting_of (orders b) k) xs"
    and ?B = "map (resting_of (orders b) k) ys @ flat (orders b) post"
    and ?x = "resting_of (orders b) k p"
  have split: "flatten b G sd = ?A @ ?x # ?B" by (simp add: flatten_def G)
  have dist: "distinct (map r_id (flatten b G sd @ flatten b G (opposite sd)))"
    using inv by (simp add: spec_inv_side [of _ sd] del: map_append)
  show "flatten (unlink lp p b) (G(sd := pre @ (k, lp, xs @ ys) # post)) s =
      spec_cancel ?i (flatten b G) s"
  proof (cases "s = sd")
    case True
    have "distinct (map r_id (?A @ ?x # ?B))"
      using dist unfolding split map_append distinct_append by blast
    from filter_other_ids [OF this] have "filter (\<lambda>y. r_id y \<noteq> ?i) (?A @ ?x # ?B) = ?A @ ?B"
      by (simp only: resting_of_simps)
    then have "spec_cancel ?i (flatten b G) sd = ?A @ ?B"
      unfolding spec_cancel_def split .
    moreover have "flat (orders b) (pre @ (k, lp, xs @ ys) # post) = ?A @ ?B" by simp
    ultimately show ?thesis using True by (simp only: flatten_def same fun_upd_same)
  next
    case False
    then have s: "s = opposite sd" by (simp add: side_eq_opposite)
    have "?i \<in> r_id ` set (flatten b G sd)" unfolding split by simp
    then have "?i \<notin> r_id ` set (flatten b G (opposite sd))"
      using dist unfolding map_append distinct_append set_map by blast
    then have "\<And>y. y \<in> set (flatten b G (opposite sd)) \<Longrightarrow> r_id y \<noteq> ?i" by (metis imageI)
    then have "spec_cancel ?i (flatten b G) (opposite sd) = flatten b G (opposite sd)"
      unfolding spec_cancel_def filter_id_conv by blast
    then show ?thesis using s by (simp add: flatten_def same)
  qed
qed

lemma layout_drop_if_empty:
  assumes ok: "layout_ok b G F" and G: "G sd = pre @ (k, lp, ps) # post"
    and ne: "\<forall>g \<in> set pre \<union> set post. g_ps g \<noteq> []" "\<forall>g \<in> set (G (opposite sd)). g_ps g \<noteq> []"
  defines "b' \<equiv> (if PriceLevel_empty (levels b lp) then drop_level sd k lp b else b)"
  shows "\<exists>G'. layout_ok b' G' F \<and> nonempty_levels G' \<and> flatten b' G' = flatten b G \<and>
     (vol_ok b G \<longrightarrow> vol_ok b' G')"
proof -
  have "level_ok (orders b) (levels b lp) ps"
    using layout_okD(1) [OF ok, of sd] by (simp add: side_ok_def G glevel_ok_def)
  then have empty: "PriceLevel_empty (levels b lp) \<longleftrightarrow> ps = []" by (rule level_ok_empty)
  show ?thesis
  proof (cases "ps = []")
    case True
    let ?G' = "G(sd := pre @ post)"
    have "b' = drop_level sd k lp b" using True empty by (simp add: b'_def)
    moreover have "layout_ok (drop_level sd k lp b) ?G' F"
      using layout_drop_level [OF ok] G True by simp
    moreover have "nonempty_levels ?G'" unfolding nonempty_levels_def
      using ne by (auto simp: side_eq_opposite)
    moreover have "flatten (drop_level sd k lp b) ?G' = flatten b G"
      using True by (intro ext) (simp add: flatten_def drop_level_def G)
    moreover have "vol_ok (drop_level sd k lp b) ?G'" if "vol_ok b G"
      using that unfolding vol_ok_side [of _ _ sd] by (simp add: G drop_level_def)
    ultimately show ?thesis by metis
  next
    case False
    then have "b' = b" using empty by (simp add: b'_def)
    moreover have "nonempty_levels G" unfolding nonempty_levels_def
    proof (intro allI ballI)
      fix s g
      assume "g \<in> set (G s)"
      then show "g_ps g \<noteq> []" using ne False by (cases "s = sd") (auto simp: G side_eq_opposite)
    qed
    ultimately show ?thesis using ok by metis
  qed
qed

text \<open>
  Cancelling on the layout: the order leaves its queue, an emptied level is dropped, the slot is
  given back, and what rests is what the specification leaves.
\<close>

lemma layout_cancel:
  assumes ok: "layout_ok b G F" and ne: "nonempty_levels G" and sinv: "spec_inv (flatten b G)"
    and G: "G sd = pre @ (k, lp, xs @ p # ys) # post"
  defines "b1 \<equiv> unlink lp p b"
  defines "b' \<equiv> free_order p (if PriceLevel_empty (levels b1 lp) then drop_level sd k lp b1 else b1)"
  shows "\<exists>G'. layout_ok b' G' F \<and> nonempty_levels G' \<and>
     flatten b' G' = spec_cancel (o_id (orders b p)) (flatten b G) \<and> (vol_ok b G \<longrightarrow> vol_ok b' G')"
proof -
  define b2 where "b2 = (if PriceLevel_empty (levels b1 lp) then drop_level sd k lp b1 else b1)"
  let ?G1 = "G(sd := pre @ (k, lp, xs @ ys) # post)"
  have G1: "?G1 sd = pre @ (k, lp, xs @ ys) # post" by simp
  have "set pre \<union> set post \<subseteq> set (G sd)" unfolding G by auto
  then have ne1: "\<forall>g \<in> set pre \<union> set post. g_ps g \<noteq> []" "\<forall>g \<in> set (?G1 (opposite sd)). g_ps g \<noteq> []"
    using nonempty_levelsD [OF ne, of _ sd] nonempty_levelsD [OF ne, of _ "opposite sd"] by (blast, simp)
  from layout_drop_if_empty [OF layout_unlink [OF ok G] G1 ne1] obtain G2 where
    ok2: "layout_ok b2 G2 (add_mset p F)" and ne2: "nonempty_levels G2"
    and fl2: "flatten b2 G2 = flatten b1 ?G1" and vol2: "vol_ok b1 ?G1 \<longrightarrow> vol_ok b2 G2"
    unfolding b1_def [symmetric] b2_def [symmetric] by blast
  have b': "b' = free_order p b2" by (simp add: b'_def b2_def)
  have "layout_ok b' G2 F" unfolding b' by (rule layout_free [OF ok2])
  moreover have "flatten b' G2 = spec_cancel (o_id (orders b p)) (flatten b G)"
    using fl2 flatten_unlink [OF sinv G] by (simp add: b' b1_def flatten_def [abs_def])
  moreover have "vol_ok b' G2" if "vol_ok b G"
    using vol2 vol_unlink [OF ok that G] by (simp add: b' b1_def vol_ok_def)
  ultimately show ?thesis using ne2 by blast
qed

lemma cancelOrder_ok:
  assumes inv: "book_inv b F"
  obtains b' where "cancelOrder i b = (b', i \<in> spec_ids (abs_book b))" "book_inv b' F"
    "abs_book b' = spec_cancel i (abs_book b)" "volumes_ok b \<Longrightarrow> volumes_ok b'"
    "totalTradesCount b' = totalTradesCount b" "totalVolumeTraded b' = totalVolumeTraded b"
    "i \<notin> spec_ids (abs_book b) \<Longrightarrow> b' = b"
proof -
  obtain G where ok: "layout_ok b G F" and ne: "nonempty_levels G" and sinv: "spec_inv (flatten b G)"
    and S: "abs_book b = flatten b G" using book_invE [OF inv] .
  note active = orderMap_active [OF ok, of i]
  show ?thesis
  proof (cases "map_of (orderMap b) i")
    case None
    then have "cancelOrder i b = (b, False)" by (simp add: cancelOrder_def)
    then show ?thesis using that [of b] inv active None spec_cancel_fresh by simp
  next
    case (Some p)
    then have p: "p \<in># live G" and i: "o_id (orders b p) = i" using orderMap_find [OF ok] by auto
    obtain sd pre k lp xs ys post where G: "G sd = pre @ (k, lp, xs @ p # ys) # post"
      using live_split [OF p] .
    have "glevel_ok (orders b) (levels b) sd (k, lp, xs @ p # ys)"
      using layout_okD(1) [OF ok, of sd] by (simp add: side_ok_def G)
    then have data: "o_level (orders b p) = Some lp" "o_side (orders b p) = sd" "o_price (orders b p) = k"
      by (auto simp: glevel_ok_def)
    define b1 where "b1 = unlink lp p b"
    define b' where "b' = free_order p (if PriceLevel_empty (levels b1 lp) then drop_level sd k lp b1 else b1)"
    have run: "cancelOrder i b = (b', True)"
      using cancelOrder_moves [OF Some data i] by (simp only: b'_def b1_def)
    from layout_cancel [OF ok ne sinv G, folded b1_def, folded b'_def] i obtain G' where
      ok': "layout_ok b' G' F" and ne': "nonempty_levels G'"
      and fl: "flatten b' G' = spec_cancel i (flatten b G)" and vol: "vol_ok b G \<longrightarrow> vol_ok b' G'" by blast
    have sinv': "spec_inv (spec_cancel i (flatten b G))" using sinv by (rule spec_inv_cancel)
    show ?thesis
    proof (rule that [of b'])
      show "book_inv b' F" using ok' ne' sinv' fl by (intro book_invI) auto
      show "abs_book b' = spec_cancel i (abs_book b)"
        using abs_book_layout [OF ok'] fl S by simp
      show "volumes_ok b'" if "volumes_ok b"
        using that vol volumes_ok_layout [OF ok] volumes_ok_layout [OF ok'] by simp
    qed (use run active Some in \<open>auto simp: b'_def b1_def drop_level_def unlink_def\<close>)
  qed
qed

end
