(* ===== verification/Lob_Account.thy ===== *)
theory Lob_Account
  imports Lob_Add Lob_Cancel
begin

text \<open>
  Slot accounting, queries and destruction. How many slots of the two pools are in use, how
  many levels each side has and how many orders are active are functions of the abstract book;
  the queries read the best prices of the abstract book; the destructor gives every slot back.
\<close>

section \<open>Slots in use\<close>

definition spec_prices :: "spec_book \<Rightarrow> Side \<Rightarrow> Price set" where
  "spec_prices S sd = r_price ` set (S sd)"

definition spec_count :: "spec_book \<Rightarrow> nat" where
  "spec_count S = length (S BUY) + length (S SELL)"

definition spec_levels :: "spec_book \<Rightarrow> nat" where
  "spec_levels S = card (spec_prices S BUY) + card (spec_prices S SELL)"

lemma finite_spec_prices [simp]: "finite (spec_prices S sd)"
  by (simp add: spec_prices_def)

lemma prices_flat:
  assumes "\<forall>g \<in> set gs. g_ps g \<noteq> []"
  shows "r_price ` set (flat h gs) = set (map g_key gs)"
  using assms
proof (induction gs)
  case (Cons g gs)
  then have "g_ps g \<noteq> []" by simp
  then have "r_price ` set (map (resting_of h (g_key g)) (g_ps g)) = {g_key g}"
    by (cases "g_ps g") (simp_all add: image_image image_constant_conv)
  with Cons show ?case by (simp only: flat_simps set_append image_Un list.simps set_simps) simp
qed simp

lemma side_map_length:
  assumes "book_inv b F"
  shows "length (side_map sd b) = card (spec_prices (abs_book b) sd)"
    and "set (map fst (side_map sd b)) = spec_prices (abs_book b) sd"
proof -
  obtain G where ok: "layout_ok b G F" and ne: "nonempty_levels G" and S: "abs_book b = flatten b G"
    using book_invE [OF assms] .
  have keys: "spec_prices (abs_book b) sd = set (map g_key (G sd))"
    unfolding spec_prices_def S flatten_def using ne by (intro prices_flat) (simp add: nonempty_levels_def)
  have sm: "side_map sd b = map (\<lambda>g. (g_key g, g_lp g)) (G sd)"
    using layout_okD(1) [OF ok, of sd] by (simp add: side_ok_def)
  show "set (map fst (side_map sd b)) = spec_prices (abs_book b) sd"
    unfolding keys sm by (simp add: comp_def)
  have "card (set (map g_key (G sd))) = length (G sd)"
    using distinct_card [OF layout_keys_distinct [OF ok, of sd]] by simp
  then show "length (side_map sd b) = card (spec_prices (abs_book b) sd)"
    unfolding keys sm by simp
qed

lemma size_g_orders: "size (g_orders gs) = length (flat h gs)"
  by (induction gs) auto

lemma active_count:
  assumes "book_inv b F"
  shows "length (orderMap b) = spec_count (abs_book b)"
proof -
  obtain G where ok: "layout_ok b G F" and S: "abs_book b = flatten b G"
    using book_invE [OF assms] .
  have "mset (orderMap b) = image_mset (\<lambda>p. (o_id (orders b p), p)) (live G)"
    using layout_okD(5) [OF ok] by (simp add: map_ok_def)
  from arg_cong [OF this, of size] have "length (orderMap b) = size (live G)" by simp
  then show ?thesis
    by (simp add: spec_count_def S flatten_def live_def size_g_orders [of _ "orders b"])
qed

lemma order_slots:
  assumes "book_inv b F"
  shows "available (orderPool b) + spec_count (abs_book b) + size F = poolCapacity (orderPool b)"
proof -
  obtain G where ok: "layout_ok b G F" and S: "abs_book b = flatten b G"
    using book_invE [OF assms] .
  have "available (orderPool b) + size (live G + F) = poolCapacity (orderPool b)"
    using pool.ok_size [OF layout_okD(2) [OF ok]] .
  then show ?thesis
    by (simp add: spec_count_def S flatten_def live_def size_g_orders [of _ "orders b"])
qed

lemma level_slots:
  assumes "book_inv b F"
  shows "available (levelPool b) + spec_levels (abs_book b) = poolCapacity (levelPool b)"
proof -
  obtain G where ok: "layout_ok b G F" using book_invE [OF assms] .
  have "available (levelPool b) + size (live_levels G) = poolCapacity (levelPool b)"
    using pool.ok_size [OF layout_okD(3) [OF ok]] .
  moreover have "length (G sd) = card (spec_prices (abs_book b) sd)" for sd
    using side_map_length(1) [OF assms, of sd] layout_okD(1) [OF ok, of sd] by (simp add: side_ok_def)
  ultimately show ?thesis by (simp add: spec_levels_def live_levels_def g_levels_def)
qed

section \<open>Capacities do not change\<close>

definition caps :: "OrderBook \<Rightarrow> nat \<times> nat" where
  "caps b = (poolCapacity (orderPool b), poolCapacity (levelPool b))"

lemma caps_fillMaker: "caps (fst (fillMaker clk t lp m s)) = caps (fst s)"
  by (cases s) (simp add: fillMaker_def Let_def caps_def)

lemma caps_fillLevel:
  assumes "fillLevel clk t lp m s = Some s'"
  shows "caps (fst s') = caps (fst s)"
proof (rule fillLevel.raw_induct [where P = "\<lambda>clk t lp m s s'. caps (fst s') = caps (fst s)", OF _ assms])
  fix fl clk taker lp makerOrder s s'
  assume IH: "\<And>clk taker lp m s s'. fl clk taker lp m s = Some s' \<Longrightarrow> caps (fst s') = caps (fst s)"
    and run: "(case makerOrder of None \<Rightarrow> Some s
      | Some maker \<Rightarrow> if o_remainingQty (orders (fst s) taker) > 0
          then fl clk taker lp (o_next (orders (fst s) maker)) (fillMaker clk taker lp maker s)
          else Some s) = Some s'"
  show "caps (fst s') = caps (fst s)"
  proof (cases makerOrder)
    case None
    then show ?thesis using run by simp
  next
    case (Some maker)
    show ?thesis
    proof (cases "o_remainingQty (orders (fst s) taker) > 0")
      case True
      with run Some have "caps (fst s') = caps (fst (fillMaker clk taker lp maker s))"
        by (intro IH) simp
      then show ?thesis by (simp only: caps_fillMaker)
    next
      case False
      then show ?thesis using run Some by simp
    qed
  qed
qed

lemma caps_match_side: "match_side sd clk t it s = Some s' \<Longrightarrow> caps (fst s') = caps (fst s)"
proof (induction sd clk t it s arbitrary: s' rule: match_side.induct)
  case (2 sd clk t k lp it b ms)
  have d: "caps (drop_level sd k lp b1) = caps b1" for b1
    by (simp add: drop_level_def caps_def)
  show ?case
  proof (cases "o_remainingQty (orders b t) > 0 \<and>
      \<not> (o_type (orders b t) = LIMIT \<and> better sd (o_price (orders b t)) (l_price (levels b lp)))")
    case True
    then obtain b1 ms1 where f: "fillLevel clk t lp (l_head (levels b lp)) (b, ms) = Some (b1, ms1)"
      using "2.prems" by (auto simp: bind_eq_Some_conv split: if_splits)
    have "match_side sd clk t it
        (if PriceLevel_empty (levels b1 lp) then (drop_level sd k lp b1, ms1) else (b1, ms1)) = Some s'"
      using "2.prems" True f by auto
    from "2.IH" [OF _ _ f _ this] True
    have "caps (fst s') = caps (fst (if PriceLevel_empty (levels b1 lp) then (drop_level sd k lp b1, ms1) else (b1, ms1)))"
      by auto
    then show ?thesis using caps_fillLevel [OF f] d by (simp split: if_splits)
  next
    case False
    then have "s' = (b, ms)" using "2.prems" by (simp split: if_splits)
    then show ?thesis by simp
  qed
qed simp

lemma caps_getOrCreate: "getOrCreatePriceLevel sd k b = Inr (lp, b') \<Longrightarrow> caps b' = caps b"
  using pool.alloc_size
  by (fastforce simp: getOrCreatePriceLevel_side caps_def split: option.splits sum.splits)

lemma caps_addOrder:
  assumes "addOrder clk i sd p q ty b = Some (b', res)"
  shows "caps b' = caps b"
proof (cases "q = 0 \<or> map_of (orderMap b) i \<noteq> None")
  case True
  then show ?thesis using assms by (simp add: addOrder_side)
next
  case go: False
  show ?thesis
  proof (cases "allocate (mk_Order i p q sd ty 0) (orderPool b)")
    case (Inl e)
    then show ?thesis using assms go by (simp add: addOrder_side)
  next
    case (Inr tp)
    then obtain t P where a: "allocate (mk_Order i p q sd ty 0) (orderPool b) = Inr (t, P)"
      by (cases tp) auto
    have "caps (b\<lparr>orderPool := P\<rparr>) = caps b" using pool.alloc_size [OF a] by (simp add: caps_def)
    moreover obtain b2 ms where
      m: "match_side (opposite sd) clk t (side_map (opposite sd) b) (b\<lparr>orderPool := P\<rparr>, []) = Some (b2, ms)"
      using assms go a by (auto simp: addOrder_side bind_eq_Some_conv)
    ultimately have c2: "caps b2 = caps b" using caps_match_side [OF m] by simp
    have "caps (on_level lp f b3) = caps b3" "caps (b3\<lparr>orderMap := om\<rparr>) = caps b3"
      "caps (free_order x b3) = caps b3" for lp f b3 om x
      by (simp_all add: caps_def)
    then show ?thesis
      using assms go a m c2 caps_getOrCreate
      by (auto simp: addOrder_side Let_def split: if_splits sum.splits)
  qed
qed

lemma caps_cancelOrder: "caps (fst (cancelOrder i b)) = caps b"
  by (simp add: cancelOrder_def Let_def removePriceLevelIfEmpty_def caps_def split: option.splits)

section \<open>Queries\<close>

lemma side_head:
  assumes "book_inv b F"
  shows "(case side_map sd b of [] \<Rightarrow> abs_book b sd = []
     | (k, lp) # _ \<Rightarrow> abs_book b sd \<noteq> [] \<and> r_price (hd (abs_book b sd)) = k)"
proof -
  obtain G where ok: "layout_ok b G F" and ne: "nonempty_levels G" and S: "abs_book b = flatten b G"
    using book_invE [OF assms] .
  have sm: "side_map sd b = map (\<lambda>g. (g_key g, g_lp g)) (G sd)"
    using layout_okD(1) [OF ok, of sd] by (simp add: side_ok_def)
  show ?thesis
  proof (cases "G sd")
    case Nil
    then show ?thesis by (simp add: sm S flatten_def)
  next
    case (Cons g gs)
    then have "g_ps g \<noteq> []" using nonempty_levelsD [OF ne, of g sd] by simp
    then obtain p ps where "g_ps g = p # ps" by (cases "g_ps g") auto
    then show ?thesis using Cons by (simp add: sm S flatten_def resting_of_def)
  qed
qed

definition side_best :: "Side \<Rightarrow> OrderBook \<Rightarrow> (Price \<times> Quantity) option" where
  "side_best sd b = (case side_map sd b of [] \<Rightarrow> None
     | (price, lp) # _ \<Rightarrow> Some (price, l_totalVolume (levels b lp)))"

lemma side_best_code: "side_best BUY = getBestBid" "side_best SELL = getBestAsk"
  by (simp_all add: side_best_def getBestBid_def getBestAsk_def fun_eq_iff)

lemma side_best_spec:
  assumes inv: "book_inv b F" and vol: "volumes_ok b"
  shows "map_option (map_prod id unat) (side_best sd b) = spec_best (abs_book b) sd"
proof (cases "side_map sd b")
  case Nil
  then show ?thesis using side_head [OF inv, of sd] by (simp add: side_best_def spec_best_def)
next
  case (Cons e es)
  obtain k lp where e: "e = (k, lp)" by (cases e)
  have hd: "abs_book b sd \<noteq> []" "r_price (hd (abs_book b sd)) = k"
    using side_head [OF inv, of sd] Cons e by simp_all
  have "unat (l_totalVolume (levels b lp)) = spec_volume (filter (\<lambda>x. r_price x = k) (abs_book b sd))"
    using vol Cons e unfolding volumes_ok_def by (metis fst_conv list.set_intros(1) snd_conv)
  then show ?thesis
    using hd Cons e by (cases "abs_book b sd") (simp_all add: side_best_def spec_best_def)
qed

text \<open>The spread is defined whenever both sides are quoted, and it is positive.\<close>

lemma getSpread_spec:
  assumes inv: "book_inv b F"
  shows "getSpread b = (case (abs_book b BUY, abs_book b SELL) of
      (x # _, y # _) \<Rightarrow> Some (r_price y - r_price x) | _ \<Rightarrow> None)"
proof -
  have un: "uncrossed (abs_book b)" using inv by (simp add: book_inv_def spec_inv_def)
  note h = side_head [OF inv, of BUY] side_head [OF inv, of SELL]
  show ?thesis
  proof (cases "bids b = [] \<or> asks b = []")
    case True
    then show ?thesis using h by (auto simp: getSpread_def split: list.splits)
  next
    case False
    then obtain k lp bs k' lp' as where m: "bids b = (k, lp) # bs" "asks b = (k', lp') # as"
      by (metis list.exhaust prod.exhaust)
    obtain x xs y ys where S: "abs_book b BUY = x # xs" "abs_book b SELL = y # ys"
      using h m by (cases "abs_book b BUY"; cases "abs_book b SELL") auto
    have "r_price x < r_price y" using un S by (simp add: uncrossed_def)
    then show ?thesis using h m S by (simp add: getSpread_def)
  qed
qed

section \<open>Destruction\<close>

lemma fold_free_order:
  "fold (\<lambda>(_, order) b. free_order order b) xs b =
     b\<lparr>orderPool := (orderPool b)\<lparr>freeList := freeList (orderPool b) @ map snd xs\<rparr>\<rparr>"
  by (induction xs arbitrary: b) (auto simp: free_order_def deallocate_def)

lemma fold_free_level:
  "fold (\<lambda>(_, lvl) b. free_level lvl b) xs b =
     b\<lparr>levelPool := (levelPool b)\<lparr>freeList := freeList (levelPool b) @ map snd xs\<rparr>\<rparr>"
  by (induction xs arbitrary: b) (auto simp: free_level_def deallocate_def)

lemma destroy_pools:
  assumes "book_inv b F"
  shows "pool_ok (orderPool (OrderBook_destroy b)) F" and "pool_ok (levelPool (OrderBook_destroy b)) {#}"
    and "caps (OrderBook_destroy b) = caps b"
proof -
  obtain G where ok: "layout_ok b G F" using book_invE [OF assms] .
  have side: "mset (map snd (side_map sd b)) = g_levels (G sd)" for sd
    using layout_okD(1) [OF ok, of sd] by (simp add: side_ok_def g_levels_def comp_def)
  have "mset (orderMap b) = image_mset (\<lambda>p. (o_id (orders b p), p)) (live G)"
    using layout_okD(5) [OF ok] by (simp add: map_ok_def)
  then have "mset (map snd (orderMap b)) = live G"
    by (simp add: multiset.map_comp comp_def)
  then show "pool_ok (orderPool (OrderBook_destroy b)) F"
    using layout_okD(2) [OF ok]
    by (simp add: OrderBook_destroy_def Let_def fold_free_order fold_free_level pool_ok_def ac_simps)
  show "pool_ok (levelPool (OrderBook_destroy b)) {#}"
    using layout_okD(3) [OF ok] side [of BUY] side [of SELL]
    by (simp add: OrderBook_destroy_def Let_def fold_free_order fold_free_level pool_ok_def live_levels_def ac_simps)
  show "caps (OrderBook_destroy b) = caps b"
    by (simp add: OrderBook_destroy_def Let_def fold_free_order fold_free_level caps_def)
qed

end
