(* ===== verification/Lob_Run.thy ===== *)
theory Lob_Run
  imports Lob_Account
begin

text \<open>
  Sequences of calls on one book, as a client makes them: every sequence returns and keeps the
  invariant of the book; while the pools suffice, it does what the specification says, and
  while the submitted quantity fits 32 bits the level volumes are exact. The bounds are
  in terms of the number of calls, so they apply to every schedule of additions and cancels.
\<close>

datatype request = Add OrderId Side Price Quantity OrderType | Cancel OrderId

datatype reply = Added "exn + MatchEvent list" | Canceled bool

type_synonym clock = "nat \<Rightarrow> Timestamp"

fun request_step :: "clock \<Rightarrow> request \<Rightarrow> OrderBook \<Rightarrow> (OrderBook \<times> reply) option" where
  "request_step clk (Add i sd p q ty) b = map_option (map_prod id Added) (addOrder clk i sd p q ty b)"
| "request_step clk (Cancel i) b = Some (map_prod id Canceled (cancelOrder i b))"

fun run_book :: "(clock \<times> request) list \<Rightarrow> OrderBook \<Rightarrow> (OrderBook \<times> reply list) option" where
  "run_book [] b = Some (b, [])"
| "run_book ((clk, req) # reqs) b = do {
     (b1, rep) \<leftarrow> request_step clk req b;
     (b2, reps) \<leftarrow> run_book reqs b1;
     Some (b2, rep # reps)
   }"

fun spec_step :: "clock \<Rightarrow> request \<Rightarrow> spec_book \<Rightarrow> spec_book \<times> reply" where
  "spec_step clk (Add i sd p q ty) S =
     (let (S', fs) = spec_add i sd p q ty S in (S', Added (Inr (mk_events clk i 0 fs))))"
| "spec_step clk (Cancel i) S = (spec_cancel i S, Canceled (i \<in> spec_ids S))"

fun spec_run :: "(clock \<times> request) list \<Rightarrow> spec_book \<Rightarrow> spec_book \<times> reply list" where
  "spec_run [] S = (S, [])"
| "spec_run ((clk, req) # reqs) S =
     (let (S1, rep) = spec_step clk req S; (S2, reps) = spec_run reqs S1 in (S2, rep # reps))"

text \<open>What the replies report: the failed calls, the trades and the traded quantity.\<close>

fun failed :: "reply \<Rightarrow> bool" where
  "failed (Added (Inl e)) = True"
| "failed (Added (Inr ms)) = False"
| "failed (Canceled c) = False"

fun trades_of :: "reply \<Rightarrow> MatchEvent list" where
  "trades_of (Added (Inr ms)) = ms"
| "trades_of (Added (Inl e)) = []"
| "trades_of (Canceled c) = []"

definition traded_volume :: "MatchEvent list \<Rightarrow> nat" where
  "traded_volume ms = (\<Sum>m\<leftarrow>ms. unat (matchQuantity m))"

lemma traded_volume_simps [simp]:
  "traded_volume [] = 0" "traded_volume (m # ms) = unat (matchQuantity m) + traded_volume ms"
  "traded_volume (ms @ ms') = traded_volume ms + traded_volume ms'"
  by (simp_all add: traded_volume_def)

lemma traded_volume_events [simp]: "traded_volume (mk_events clk i n fs) = spec_volume fs"
  by (induction fs arbitrary: n) auto

section \<open>Every sequence of calls\<close>

lemma step_ok:
  assumes inv: "book_inv b F"
  shows "\<exists>b' rep F'. request_step clk req b = Some (b', rep) \<and> book_inv b' F' \<and> F \<subseteq># F' \<and>
     size F' \<le> size F + (if failed rep then 1 else 0) \<and> caps b' = caps b"
proof (cases req)
  case (Add i sd p q ty)
  have caps: "caps b' = caps b" if "addOrder clk i sd p q ty b = Some (b', r)" for b' r
    using caps_addOrder [OF that] .
  from inv show ?thesis
  proof (cases rule: addOrder_cases [where clk = clk and i = i and sd = sd and p = p and q = q and ty = ty])
    case (leaked b' t r os fs)
    then show ?thesis using Add caps [OF leaked(7)]
      by (intro exI [of _ b'] exI [of _ "Added (Inl PoolExhausted)"] exI [of _ "add_mset t F"]) simp
  next
    case (processed b' fs)
    then show ?thesis using Add caps [OF processed(5)]
      by (intro exI [of _ b'] exI [of _ "Added (Inr (mk_events clk i 0 fs))"] exI [of _ F]) simp
  qed (use Add inv in auto)
next
  case (Cancel i)
  from cancelOrder_ok [OF inv, of i] obtain b' c where
    "cancelOrder i b = (b', c)" "book_inv b' F" by metis
  then show ?thesis using Cancel caps_cancelOrder [of i b]
    by (intro exI [of _ b'] exI [of _ "Canceled c"] exI [of _ F]) simp
qed

lemma run_ok:
  assumes "book_inv b F"
  shows "\<exists>b' reps F'. run_book reqs b = Some (b', reps) \<and> book_inv b' F' \<and> F \<subseteq># F' \<and>
     size F' \<le> size F + length (filter failed reps) \<and> caps b' = caps b"
  using assms
proof (induction reqs arbitrary: b F)
  case Nil
  then show ?case by auto
next
  case (Cons x reqs)
  obtain clk req where x: "x = (clk, req)" by (cases x)
  from step_ok [OF Cons.prems, of clk req] obtain b1 rep F1 where
    one: "request_step clk req b = Some (b1, rep)" "book_inv b1 F1" "F \<subseteq># F1"
      "size F1 \<le> size F + (if failed rep then 1 else 0)" "caps b1 = caps b" by metis
  from Cons.IH [OF one(2)] obtain b' reps F' where
    rest: "run_book reqs b1 = Some (b', reps)" "book_inv b' F'" "F1 \<subseteq># F'"
      "size F' \<le> size F1 + length (filter failed reps)" "caps b' = caps b1" by metis
  have "F \<subseteq># F'" using one(3) rest(3) by (rule subset_mset.order_trans)
  moreover have "size F' \<le> size F + length (filter failed (rep # reps))"
    using one(4) rest(4) by (simp split: if_splits)
  moreover have "run_book (x # reqs) b = Some (b', rep # reps)" using x one rest by simp
  ultimately show ?case using rest one(5) by metis
qed

lemma book_inv_init: "n < 2 ^ 64 \<Longrightarrow> book_inv (book_init n m) {#}"
  and abs_book_init: "abs_book (book_init n m) = (\<lambda>_. [])"
  and volumes_ok_init: "volumes_ok (book_init n m)"
proof -
  have sm: "side_map sd (book_init n m) = []" for sd
    by (cases sd) (simp_all add: book_init_def)
  then show "abs_book (book_init n m) = (\<lambda>_. [])" "volumes_ok (book_init n m)"
    by (auto simp: abs_book_def volumes_ok_def)
  show "book_inv (book_init n m) {#}" if "n < 2 ^ 64"
    using that layout_ok_init by (intro book_invI [where G = "\<lambda>_. []"]) (auto simp: nonempty_levels_def flatten_def [abs_def])
qed

section \<open>While the pools suffice\<close>

lemma card_insert_price: "card (spec_prices (S(sd := insert_resting sd x (S sd))) sd) \<le> Suc (card (spec_prices S sd))"
  by (simp add: spec_prices_def card_insert_if)

lemma sweep_shrinks:
  assumes "sweep ok r os = (r', os', fs)"
  shows "length os' \<le> length os" "r_price ` set os' \<subseteq> r_price ` set os" "spec_volume os' \<le> spec_volume os"
proof -
  obtain n where n: "map (\<lambda>x. (r_price x, r_id x)) os' = drop n (map (\<lambda>x. (r_price x, r_id x)) os)"
    using sweep_keeps [OF assms] by blast
  have "length os' = length os - n" using arg_cong [OF n, of length] by simp
  then show "length os' \<le> length os" by simp
  show "r_price ` set os' \<subseteq> r_price ` set os"
    unfolding list.set_map [symmetric] keep_prices_ids(1) [OF n] by (rule set_drop_subset)
  show "spec_volume os' \<le> spec_volume os" using sweep_conserves [OF assms] by simp
qed

definition spec_total :: "spec_book \<Rightarrow> nat" where
  "spec_total S = spec_volume (S BUY) + spec_volume (S SELL)"

lemma spec_side_sums:
  "spec_count S = length (S sd) + length (S (opposite sd))"
  "spec_levels S = card (spec_prices S sd) + card (spec_prices S (opposite sd))"
  "spec_total S = spec_volume (S sd) + spec_volume (S (opposite sd))"
  by (cases sd; simp add: spec_count_def spec_levels_def spec_total_def)+

lemma insert_resting_sums:
  "length (insert_resting sd x os) = Suc (length os)"
  "spec_volume (insert_resting sd x os) = spec_volume os + unat (r_qty x)"
  by (induction os) auto

text \<open>An addition adds at most one order, one level and its own quantity.\<close>

lemma spec_add_bounds:
  assumes "spec_add i sd p q ty S = (S', fs)"
  shows "spec_count S' \<le> Suc (spec_count S)" "spec_levels S' \<le> Suc (spec_levels S)"
    "spec_total S' + 2 * spec_volume fs \<le> spec_total S + unat q"
proof -
  have "spec_count S' \<le> Suc (spec_count S) \<and> spec_levels S' \<le> Suc (spec_levels S) \<and>
    spec_total S' + 2 * spec_volume fs \<le> spec_total S + unat q"
  proof (cases "q = 0 \<or> i \<in> spec_ids S")
    case True
    then show ?thesis using assms by (auto simp: spec_add_def)
  next
    case go: False
    obtain r os gs where sw: "sweep (acceptable ty sd p) q (S (opposite sd)) = (r, os, gs)"
      by (metis prod_cases3)
    have add: "spec_add i sd p q ty S = (if r > 0 \<and> ty = LIMIT
        then S(opposite sd := os, sd := insert_resting sd (p, i, r) (S sd)) else S(opposite sd := os), gs)"
      using go sw by (intro spec_add_unfold) auto
    have fs: "gs = fs" using assms add by simp
    note shrink = sweep_shrinks [OF sw] and cons = sweep_conserves [OF sw]
    have prices: "card (r_price ` set os) \<le> card (r_price ` set (S (opposite sd)))"
      using shrink(2) by (intro card_mono) auto
    show ?thesis
    proof (cases "r > 0 \<and> ty = LIMIT")
      case True
      then have "S' = S(opposite sd := os, sd := insert_resting sd (p, i, r) (S sd))"
        using assms add by simp
      then show ?thesis
        using shrink prices cons fs
        by (simp add: spec_side_sums [of _ sd] insert_resting_sums spec_prices_def card_insert_if)
    next
      case False
      then have "S' = S(opposite sd := os)" using assms add by auto
      then show ?thesis
        using shrink prices cons fs by (simp add: spec_side_sums [of _ sd] spec_prices_def)
    qed
  qed
  then show "spec_count S' \<le> Suc (spec_count S)" "spec_levels S' \<le> Suc (spec_levels S)"
    "spec_total S' + 2 * spec_volume fs \<le> spec_total S + unat q" by auto
qed

lemma spec_volume_filter_le: "spec_volume (filter P os) \<le> spec_volume os"
  by (induction os) auto

lemma spec_cancel_bounds:
  "spec_count (spec_cancel i S) \<le> spec_count S" "spec_levels (spec_cancel i S) \<le> spec_levels S"
  "spec_total (spec_cancel i S) \<le> spec_total S"
proof -
  have "card (spec_prices (spec_cancel i S) sd) \<le> card (spec_prices S sd)" for sd
    by (intro card_mono) (auto simp: spec_prices_def spec_cancel_def)
  then show "spec_levels (spec_cancel i S) \<le> spec_levels S"
    unfolding spec_levels_def by (intro add_mono)
  show "spec_count (spec_cancel i S) \<le> spec_count S"
    unfolding spec_count_def spec_cancel_def by (intro add_mono length_filter_le)
  show "spec_total (spec_cancel i S) \<le> spec_total S"
    unfolding spec_total_def spec_cancel_def by (intro add_mono spec_volume_filter_le)
qed

text \<open>The quantity a request submits.\<close>

fun submitted :: "request \<Rightarrow> nat" where
  "submitted (Add i sd p q ty) = unat q"
| "submitted (Cancel i) = 0"

fun submitted_all :: "(clock \<times> request) list \<Rightarrow> nat" where
  "submitted_all [] = 0"
| "submitted_all ((clk, req) # reqs) = submitted req + submitted_all reqs"

text \<open>
  After the sweep the book has no more levels than before, so with a free level slot the level
  pool cannot be what runs out.
\<close>

lemma sweep_leaves_a_slot:
  assumes inv: "book_inv b F" "book_inv b' F'" and caps: "poolCapacity (levelPool b') = poolCapacity (levelPool b)"
    and swept: "sweep ok q (abs_book b (opposite sd)) = (r, os, fs)" "abs_book b' = (abs_book b)(opposite sd := os)"
  shows "available (levelPool b) \<le> available (levelPool b')"
proof -
  let ?S = "abs_book b"
  have "card (spec_prices (?S(opposite sd := os)) (opposite sd)) \<le> card (spec_prices ?S (opposite sd))"
    using sweep_shrinks(2) [OF swept(1)] by (intro card_mono) (auto simp: spec_prices_def)
  then have "spec_levels (abs_book b') \<le> spec_levels ?S"
    unfolding swept(2) spec_side_sums(2) [of _ sd] by (simp add: spec_prices_def)
  then show ?thesis using level_slots [OF inv(1)] level_slots [OF inv(2)] caps by simp
qed

text \<open>What rests at one price after an order is at most what rested plus the order.\<close>

lemma spec_add_price_volume:
  assumes "spec_add i sd p q ty S = (S', fs)"
  shows "spec_volume (filter (\<lambda>x. r_price x = p) (S' sd)) \<le> spec_total S + unat q"
proof -
  have "spec_volume (filter (\<lambda>x. r_price x = p) (S' sd)) \<le> spec_volume (S' sd)"
    by (rule spec_volume_filter_le)
  also have "\<dots> \<le> spec_total S'" by (simp add: spec_side_sums(3) [of _ sd])
  also have "\<dots> \<le> spec_total S + unat q" using spec_add_bounds(3) [OF assms] by simp
  finally show ?thesis .
qed

text \<open>
  One request with room in both pools: the reply and the new book are those of the
  specification, and the counters count its trades.
\<close>

lemma step_refines:
  assumes inv: "book_inv b F" and room: "0 < available (orderPool b)" "0 < available (levelPool b)"
  shows "\<exists>b' rep. request_step clk req b = Some (b', rep) \<and> book_inv b' F \<and>
     spec_step clk req (abs_book b) = (abs_book b', rep) \<and>
     totalTradesCount b' = totalTradesCount b + of_nat (length (trades_of rep)) \<and>
     totalVolumeTraded b' = totalVolumeTraded b + of_nat (traded_volume (trades_of rep)) \<and>
     (volumes_ok b \<longrightarrow> spec_total (abs_book b) + submitted req < 2 ^ 32 \<longrightarrow> volumes_ok b')"
proof (cases req)
  case (Add i sd p q ty)
  from inv show ?thesis
  proof (cases rule: addOrder_cases [where clk = clk and i = i and sd = sd and p = p and q = q and ty = ty])
    case ignored
    then have "spec_add i sd p q ty (abs_book b) = (abs_book b, [])" by (auto simp: spec_add_def)
    then show ?thesis using Add ignored inv
      by (intro exI [of _ b] exI [of _ "Added (Inr [])"]) simp
  next
    case full
    then show ?thesis using room by simp
  next
    case (leaked b' t r os fs)
    have "poolCapacity (levelPool b') = poolCapacity (levelPool b)"
      using caps_addOrder [OF leaked(7)] by (simp add: caps_def)
    from sweep_leaves_a_slot [OF inv leaked(8) this leaked(4,9)] show ?thesis
      using leaked(10) room by simp
  next
    case (processed b' fs)
    let ?rep = "Added (Inr (mk_events clk i 0 fs))"
    have sp: "spec_add i sd p q ty (abs_book b) = (abs_book b', fs)"
      using processed(4,7) by simp
    have vol: "volumes_ok b'" if "volumes_ok b" "spec_total (abs_book b) + unat q < 2 ^ 32"
      using processed(10) [OF that(1)] spec_add_price_volume [OF sp] that(2) by simp
    have len: "length (mk_events clk i 0 fs) = length fs" by simp
    have step: "spec_step clk req (abs_book b) = (abs_book b', ?rep)" by (simp add: Add sp)
    have "request_step clk req b = Some (b', ?rep)" using Add processed(5) by simp
    with vol processed(6,8,9) step show ?thesis
      by (intro exI [of _ b'] exI [of _ ?rep]) (simp add: Add)
  qed
next
  case (Cancel i)
  from cancelOrder_ok [OF inv, of i] obtain b' where
    b': "cancelOrder i b = (b', i \<in> spec_ids (abs_book b))" "book_inv b' F"
      "abs_book b' = spec_cancel i (abs_book b)" "volumes_ok b \<Longrightarrow> volumes_ok b'"
      "totalTradesCount b' = totalTradesCount b" "totalVolumeTraded b' = totalVolumeTraded b" by metis
  then show ?thesis using Cancel
    by (intro exI [of _ b'] exI [of _ "Canceled (i \<in> spec_ids (abs_book b))"]) simp
qed

lemma spec_step_bounds:
  assumes "spec_step clk req S = (S', rep)"
  shows "spec_count S' \<le> Suc (spec_count S)" "spec_levels S' \<le> Suc (spec_levels S)"
    "spec_total S' \<le> spec_total S + submitted req"
proof -
  have "spec_count S' \<le> Suc (spec_count S) \<and> spec_levels S' \<le> Suc (spec_levels S) \<and>
    spec_total S' \<le> spec_total S + submitted req"
  proof (cases req)
    case (Add i sd p q ty)
    then obtain fs where "spec_add i sd p q ty S = (S', fs)"
      using assms by (simp split: prod.splits)
    from spec_add_bounds [OF this] Add show ?thesis by simp
  next
    case (Cancel i)
    then have "S' = spec_cancel i S" using assms by simp
    then show ?thesis using spec_cancel_bounds [of i S] Cancel by simp
  qed
  then show "spec_count S' \<le> Suc (spec_count S)" "spec_levels S' \<le> Suc (spec_levels S)"
    "spec_total S' \<le> spec_total S + submitted req" by auto
qed

lemma run_refines_gen:
  assumes "book_inv b F"
    and "spec_count (abs_book b) + size F + length reqs \<le> fst (caps b)"
    and "spec_levels (abs_book b) + length reqs \<le> snd (caps b)"
  shows "\<exists>b' reps. run_book reqs b = Some (b', reps) \<and> book_inv b' F \<and>
     spec_run reqs (abs_book b) = (abs_book b', reps) \<and>
     totalTradesCount b' = totalTradesCount b + of_nat (length (concat (map trades_of reps))) \<and>
     totalVolumeTraded b' = totalVolumeTraded b + of_nat (traded_volume (concat (map trades_of reps))) \<and>
     (volumes_ok b \<longrightarrow> spec_total (abs_book b) + submitted_all reqs < 2 ^ 32 \<longrightarrow> volumes_ok b')"
  using assms
proof (induction reqs arbitrary: b)
  case Nil
  then show ?case by simp
next
  case (Cons x reqs)
  obtain clk req where x: "x = (clk, req)" by (cases x)
  have "0 < available (orderPool b)" "0 < available (levelPool b)"
    using order_slots [OF Cons.prems(1)] level_slots [OF Cons.prems(1)] Cons.prems(2,3)
    by (simp_all add: caps_def)
  from step_refines [OF Cons.prems(1) this, of clk req] obtain b1 rep where
    one: "request_step clk req b = Some (b1, rep)" "book_inv b1 F"
      "spec_step clk req (abs_book b) = (abs_book b1, rep)"
      "totalTradesCount b1 = totalTradesCount b + of_nat (length (trades_of rep))"
      "totalVolumeTraded b1 = totalVolumeTraded b + of_nat (traded_volume (trades_of rep))"
      "volumes_ok b \<longrightarrow> spec_total (abs_book b) + submitted req < 2 ^ 32 \<longrightarrow> volumes_ok b1" by blast
  have caps: "caps b1 = caps b" using step_ok [OF Cons.prems(1), of clk req] one(1) by auto
  note bounds = spec_step_bounds [OF one(3)]
  have "\<exists>b' reps. run_book reqs b1 = Some (b', reps) \<and> book_inv b' F \<and>
     spec_run reqs (abs_book b1) = (abs_book b', reps) \<and>
     totalTradesCount b' = totalTradesCount b1 + of_nat (length (concat (map trades_of reps))) \<and>
     totalVolumeTraded b' = totalVolumeTraded b1 + of_nat (traded_volume (concat (map trades_of reps))) \<and>
     (volumes_ok b1 \<longrightarrow> spec_total (abs_book b1) + submitted_all reqs < 2 ^ 32 \<longrightarrow> volumes_ok b')"
    using Cons.prems bounds by (intro Cons.IH one(2)) (simp_all add: caps)
  then obtain b' reps where
    rest: "run_book reqs b1 = Some (b', reps)" "book_inv b' F" "spec_run reqs (abs_book b1) = (abs_book b', reps)"
      "totalTradesCount b' = totalTradesCount b1 + of_nat (length (concat (map trades_of reps)))"
      "totalVolumeTraded b' = totalVolumeTraded b1 + of_nat (traded_volume (concat (map trades_of reps)))"
      "volumes_ok b1 \<longrightarrow> spec_total (abs_book b1) + submitted_all reqs < 2 ^ 32 \<longrightarrow> volumes_ok b'"
    by blast
  have "volumes_ok b'" if "volumes_ok b"
    "spec_total (abs_book b) + submitted_all (x # reqs) < 2 ^ 32"
    using that one(6) rest(6) bounds(3) x by simp
  then show ?case
    using x one rest by (intro exI [of _ b'] exI [of _ "rep # reps"]) simp
qed

end
