(* ===== verification/Lob_Props.thy ===== *)
theory Lob_Props
  imports Lob_Run
begin

text \<open>
  The properties of the matching engine, each with a run of the code's model on a concrete book
  where it has hypotheses. \<open>demo\<close> is the book those runs start from: two sell orders of 50
  rest at price 100, in a book with room for eight orders and four levels.
\<close>

definition no_clock :: clock where "no_clock = (\<lambda>_. 0)"

definition demo_requests :: "(clock \<times> request) list" where
  "demo_requests = [(no_clock, Add 1 SELL 100 50 LIMIT), (no_clock, Add 2 SELL 100 50 LIMIT)]"

definition demo :: OrderBook where
  "demo = fst (the (run_book demo_requests (book_init 8 4)))"

lemma book_init_caps [simp]: "caps (book_init n m) = (n, m)"
  by (simp add: caps_def book_init_def ObjectPool_init_def)

text \<open>A run from an empty book with a capacity of at least the number of requests.\<close>

lemma run_refines_init:
  assumes "n < 2 ^ 64" and "length reqs \<le> n" and "length reqs \<le> m"
  shows "\<exists>b' reps. run_book reqs (book_init n m) = Some (b', reps) \<and> book_inv b' {#} \<and>
     spec_run reqs (\<lambda>_. []) = (abs_book b', reps) \<and>
     totalTradesCount b' = of_nat (length (concat (map trades_of reps))) \<and>
     totalVolumeTraded b' = of_nat (traded_volume (concat (map trades_of reps))) \<and>
     (submitted_all reqs < 2 ^ 32 \<longrightarrow> volumes_ok b') \<and> caps b' = (n, m)"
proof -
  have inv: "book_inv (book_init n m) {#}" using assms(1) by (rule book_inv_init)
  have zero: "spec_count (\<lambda>_. []) = 0" "spec_levels (\<lambda>_. []) = 0" "spec_total (\<lambda>_. []) = 0"
    by (simp_all add: spec_count_def spec_levels_def spec_total_def spec_prices_def)
  have tot: "totalTradesCount (book_init n m) = 0" "totalVolumeTraded (book_init n m) = 0"
    by (simp_all add: book_init_def)
  from run_refines_gen [OF inv, of reqs] obtain b' reps where
    r: "run_book reqs (book_init n m) = Some (b', reps)" "book_inv b' {#}"
      "spec_run reqs (abs_book (book_init n m)) = (abs_book b', reps)"
      "totalTradesCount b' = totalTradesCount (book_init n m) + of_nat (length (concat (map trades_of reps)))"
      "totalVolumeTraded b' = totalVolumeTraded (book_init n m) + of_nat (traded_volume (concat (map trades_of reps)))"
      "volumes_ok (book_init n m) \<longrightarrow> spec_total (abs_book (book_init n m)) + submitted_all reqs < 2 ^ 32 \<longrightarrow> volumes_ok b'"
    using assms(2,3) by (auto simp: abs_book_init zero)
  have "caps b' = (n, m)" using run_ok [OF inv, of reqs] r(1) by auto
  then show ?thesis using r volumes_ok_init by (auto simp: abs_book_init zero tot)
qed

lemma demo_spec: "spec_run demo_requests (\<lambda>_. []) =
    ((\<lambda>_. [])(SELL := [(100, 1, 50), (100, 2, 50)]), [Added (Inr []), Added (Inr [])])"
  by (simp add: demo_requests_def spec_add_def spec_ids_def) (simp add: fun_eq_iff)

lemma demo_facts:
  "book_inv demo {#}" "abs_book demo = (\<lambda>_. [])(SELL := [(100, 1, 50), (100, 2, 50)])"
  "volumes_ok demo" "caps demo = (8, 4)"
proof -
  obtain b' reps where r: "run_book demo_requests (book_init 8 4) = Some (b', reps)" "book_inv b' {#}"
    "spec_run demo_requests (\<lambda>_. []) = (abs_book b', reps)"
    "submitted_all demo_requests < 2 ^ 32 \<longrightarrow> volumes_ok b'" "caps b' = (8, 4)"
    using run_refines_init [of 8 demo_requests 4] by (auto simp: demo_requests_def)
  have "demo = b'" by (simp add: demo_def r(1))
  then show "book_inv demo {#}" "abs_book demo = (\<lambda>_. [])(SELL := [(100, 1, 50), (100, 2, 50)])"
    "volumes_ok demo" "caps demo = (8, 4)"
    using r demo_spec by (simp_all add: demo_requests_def)
qed

lemma demo_room: "0 < available (orderPool demo)" "0 < available (levelPool demo)"
  using order_slots [OF demo_facts(1)] level_slots [OF demo_facts(1)] demo_facts(2,4)
  by (simp_all add: caps_def spec_count_def spec_levels_def spec_prices_def)

lemma demo_ids: "spec_ids (abs_book demo) = {1, 2}"
  by (simp add: demo_facts(2) spec_ids_def)

lemma demo_sweep: "spec_add 3 BUY 100 60 LIMIT (abs_book demo) =
    ((\<lambda>_. [])(SELL := [(100, 2, 40)]), [(100, 1, 50), (100, 2, 10)])"
  by (simp add: spec_add_def demo_ids) (simp add: demo_facts(2) acceptable_def fun_eq_iff)

section \<open>Each call refines its specification\<close>

text \<open>C1. Refinement of \<open>addOrder\<close>: from any reachable book with a free slot in each pool,
  every call returns (the matching loops end), reports exactly the fills of the specification
  in their order, and leaves the pools, maps and intrusive lists well formed and standing for the
  book the specification computes.\<close>

theorem addOrder_refines:
  assumes "book_inv b F" and "0 < available (orderPool b)" and "0 < available (levelPool b)"
  shows "\<exists>b'. addOrder clk i sd p q ty b =
      Some (b', Inr (mk_events clk i 0 (snd (spec_add i sd p q ty (abs_book b))))) \<and>
    book_inv b' F \<and> abs_book b' = fst (spec_add i sd p q ty (abs_book b))"
  using step_refines [OF assms, of clk "Add i sd p q ty"] by (auto split: prod.splits)

theorem addOrder_refines_witness:
  "\<exists>b'. addOrder no_clock 3 BUY 100 60 LIMIT demo =
      Some (b', Inr (mk_events no_clock 3 0 [(100, 1, 50), (100, 2, 10)])) \<and>
    abs_book b' = (\<lambda>_. [])(SELL := [(100, 2, 40)])"
  using addOrder_refines [OF demo_facts(1) demo_room, of no_clock 3 BUY 100 60 LIMIT]
  by (auto simp: demo_sweep)

text \<open>C2. Refinement of \<open>cancelOrder\<close>: it reports whether the id was active, and exactly that
  order leaves the abstract book, wherever it stood in its level; well-formedness, the level
  volumes and the counters are kept, and a cancel of an unknown id changes nothing.\<close>

theorem cancelOrder_refines:
  assumes "book_inv b F"
  shows "\<exists>b'. cancelOrder i b = (b', i \<in> spec_ids (abs_book b)) \<and> book_inv b' F \<and>
    abs_book b' = spec_cancel i (abs_book b) \<and> (volumes_ok b \<longrightarrow> volumes_ok b') \<and>
    totalTradesCount b' = totalTradesCount b \<and> totalVolumeTraded b' = totalVolumeTraded b \<and>
    (i \<notin> spec_ids (abs_book b) \<longrightarrow> b' = b)"
  using cancelOrder_ok [OF assms, of i] by metis

theorem cancelOrder_refines_witness:
  "\<exists>b'. cancelOrder 1 demo = (b', True) \<and> abs_book b' = (\<lambda>_. [])(SELL := [(100, 2, 50)]) \<and> volumes_ok b'"
  using cancelOrder_refines [OF demo_facts(1), of 1] demo_facts(3) demo_ids
  by (auto simp: demo_facts(2) spec_cancel_def fun_eq_iff)

text \<open>C3. Any sequence of up to 10,000 additions and cancels on a new book of the code's
  capacities returns, and all its replies and the book it ends with are those of the
  specification; no call fails, nothing leaks, and the two counters are the number of reported
  trades and their total quantity (modulo \<open>2 ^ 64\<close>).\<close>

theorem run_refines_spec:
  assumes "length reqs \<le> DEFAULT_MAX_LEVELS"
  shows "\<exists>b' reps. run_book reqs OrderBook_init = Some (b', reps) \<and> book_inv b' {#} \<and>
    spec_run reqs (\<lambda>_. []) = (abs_book b', reps) \<and>
    totalTradesCount b' = of_nat (length (concat (map trades_of reps))) \<and>
    totalVolumeTraded b' = of_nat (traded_volume (concat (map trades_of reps)))"
  using run_refines_init [of DEFAULT_MAX_ORDERS reqs DEFAULT_MAX_LEVELS] assms
  by (auto simp: OrderBook_init_def DEFAULT_MAX_ORDERS_def DEFAULT_MAX_LEVELS_def)

theorem run_refines_spec_witness:
  "\<exists>b'. run_book demo_requests OrderBook_init = Some (b', [Added (Inr []), Added (Inr [])]) \<and>
    abs_book b' = (\<lambda>_. [])(SELL := [(100, 1, 50), (100, 2, 50)])"
proof -
  have "length demo_requests \<le> DEFAULT_MAX_LEVELS"
    by (simp add: demo_requests_def DEFAULT_MAX_LEVELS_def)
  from run_refines_spec [OF this] show ?thesis by (auto simp: demo_spec)
qed

text \<open>C17. Termination and well-formedness without any bound: every sequence of calls, of any
  length, on a new book returns and leaves a well-formed, uncrossed book; at most one order slot
  is lost per call that threw.\<close>

theorem every_run_returns:
  "\<exists>b' reps F. run_book reqs OrderBook_init = Some (b', reps) \<and> book_inv b' F \<and>
    size F \<le> length (filter failed reps) \<and>
    available (orderPool b') + getActiveOrdersCount b' + size F = DEFAULT_MAX_ORDERS \<and>
    available (levelPool b') + getBidLevelsCount b' + getAskLevelsCount b' = DEFAULT_MAX_LEVELS"
proof -
  have "book_inv OrderBook_init {#}"
    unfolding OrderBook_init_def by (rule book_inv_init) (simp add: DEFAULT_MAX_ORDERS_def)
  from run_ok [OF this, of reqs] obtain b' reps F where
    r: "run_book reqs OrderBook_init = Some (b', reps)" "book_inv b' F"
      "size F \<le> length (filter failed reps)" "caps b' = caps OrderBook_init" by auto
  have "length (bids b') = card (spec_prices (abs_book b') BUY)"
    "length (asks b') = card (spec_prices (abs_book b') SELL)"
    using side_map_length(1) [OF r(2), of BUY] side_map_length(1) [OF r(2), of SELL] by simp_all
  then show ?thesis
    using r order_slots [OF r(2)] level_slots [OF r(2)] active_count [OF r(2)]
    by (intro exI [of _ b'] exI [of _ reps] exI [of _ F])
      (auto simp: OrderBook_init_def caps_def [of b'] getActiveOrdersCount_def getBidLevelsCount_def
        getAskLevelsCount_def spec_levels_def)
qed

section \<open>Failures\<close>

text \<open>
  A remainder that is to rest has emptied every level it could trade with, so a call that
  traded has freed a level: the level pool can run out only in a call that traded nothing.
\<close>

lemma sweep_frees_price:
  assumes sorted: "sorted_wrt (prio sd) os" and sw: "sweep (acceptable LIMIT (opposite sd) p) r os = (r', os', fs)"
    and "r' > 0" and "fs \<noteq> []"
  shows "r_price ` set os' \<subset> r_price ` set os"
proof -
  from \<open>r' > 0\<close> have "r' \<noteq> 0" by auto
  with sw obtain "os = fs @ os'" and stop: "os' = [] \<or> \<not> acceptable LIMIT (opposite sd) p (r_price (hd os'))"
    by (cases rule: sweep_cases) auto
  obtain x fs' where fs: "fs = x # fs'" using \<open>fs \<noteq> []\<close> by (cases fs) auto
  have ok: "\<not> better sd p (r_price x)"
    using sweep_fills_ok [OF sw, of x] by (simp add: fs acceptable_def)
  have differ: "r_price y \<noteq> r_price x" if y: "y \<in> set os'" for y
  proof -
    have hd: "better sd p (r_price (hd os'))" using y stop by (auto simp: acceptable_def)
    have "sorted_wrt (prio sd) os'" using sorted unfolding \<open>os = fs @ os'\<close> sorted_wrt_append by blast
    then have "y = hd os' \<or> prio sd (hd os') y" using y by (cases os') auto
    then have "\<not> better sd (r_price y) (r_price (hd os'))"
      using prices.irrefl [of sd "r_price y"] by (elim disjE) (simp_all only: prio_def simp_thms)
    with hd have "better sd p (r_price y)" by (rule prices.lt_le_trans)
    with ok show ?thesis by auto
  qed
  have "r_price x \<notin> r_price ` set os'"
  proof
    assume "r_price x \<in> r_price ` set os'"
    then obtain y where "y \<in> set os'" "r_price x = r_price y" by (elim imageE)
    with differ [of y] show False by simp
  qed
  moreover have "r_price x \<in> r_price ` set os" unfolding \<open>os = fs @ os'\<close> fs by simp
  ultimately show ?thesis using sweep_shrinks(2) [OF sw] by blast
qed

lemma leak_without_trades:
  assumes inv: "book_inv b F" and inv': "book_inv b' F'" and caps: "caps b' = caps b"
    and sw: "sweep (acceptable LIMIT sd p) q (abs_book b (opposite sd)) = (r, os, fs)" and "r > 0"
    and abs: "abs_book b' = (abs_book b)(opposite sd := os)" and none: "available (levelPool b') = 0"
  shows "fs = []"
proof (rule ccontr)
  assume "fs \<noteq> []"
  have "sorted_wrt (prio (opposite sd)) (abs_book b (opposite sd))"
    using inv by (simp add: book_inv_def spec_inv_def)
  from sweep_frees_price [OF this _ \<open>r > 0\<close> \<open>fs \<noteq> []\<close>] sw
  have "card (spec_prices (abs_book b') (opposite sd)) < card (spec_prices (abs_book b) (opposite sd))"
    by (intro psubset_card_mono) (simp_all add: spec_prices_def abs)
  then have "spec_levels (abs_book b') < spec_levels (abs_book b)"
    by (simp add: spec_side_sums(2) [of _ sd] abs spec_prices_def)
  then show False
    using level_slots [OF inv] level_slots [OF inv'] caps none by (simp add: caps_def)
qed

text \<open>C18. A call of \<open>addOrder\<close> that throws has no visible effect: the resting orders and
  both counters are as before. Either the order pool was full and the book is unchanged, or the
  level pool was full, and then the slot of the incoming order is lost: it is neither free nor
  in the book, and the order pool has one slot less.\<close>

theorem addOrder_throws:
  assumes "book_inv b F" and "addOrder clk i sd p q ty b = Some (b', Inl e)"
  shows "abs_book b' = abs_book b \<and> totalTradesCount b' = totalTradesCount b \<and>
    totalVolumeTraded b' = totalVolumeTraded b \<and>
    (available (orderPool b) = 0 \<and> b' = b \<or>
     available (levelPool b') = 0 \<and> (\<exists>t. book_inv b' (add_mset t F)) \<and>
     available (orderPool b) = Suc (available (orderPool b')))"
  using assms(1)
proof (cases rule: addOrder_cases [where clk = clk and i = i and sd = sd and p = p and q = q and ty = ty])
  case (leaked b1 t r os fs)
  have b1: "b1 = b'" using leaked(7) assms(2) by simp
  have caps: "caps b' = caps b" using caps_addOrder [OF assms(2)] .
  have "fs = []"
    using leaked by (intro leak_without_trades [OF assms(1) _ caps]) (simp_all add: b1)
  moreover have "abs_book b (opposite sd) = fs @ os"
    using leaked(4) by (cases rule: sweep_cases) (use leaked(5) in auto)
  then have "abs_book b' = abs_book b" using leaked(9) calculation by (simp add: b1 fun_upd_idem)
  moreover have "available (orderPool b) = Suc (available (orderPool b'))"
    using order_slots [OF assms(1)] order_slots [OF leaked(8)] calculation(2) caps
    by (simp add: b1 caps_def)
  ultimately show ?thesis using leaked by (auto simp: b1)
qed (use assms(2) in auto)

text \<open>A book with room for one level, which a sell order at price 100 takes.\<close>

definition one_level :: OrderBook where
  "one_level = fst (the (run_book [(no_clock, Add 1 SELL 100 50 LIMIT)] (book_init 8 1)))"

lemma one_level_facts:
  "book_inv one_level {#}" "abs_book one_level = (\<lambda>_. [])(SELL := [(100, 1, 50)])" "caps one_level = (8, 1)"
proof -
  let ?reqs = "[(no_clock, Add 1 SELL 100 50 LIMIT)]"
  obtain b' reps where r: "run_book ?reqs (book_init 8 1) = Some (b', reps)" "book_inv b' {#}"
    "spec_run ?reqs (\<lambda>_. []) = (abs_book b', reps)" "caps b' = (8, 1)"
    using run_refines_init [of 8 ?reqs 1] by auto
  have "one_level = b'" unfolding one_level_def r(1) by simp
  then show "book_inv one_level {#}" "abs_book one_level = (\<lambda>_. [])(SELL := [(100, 1, 50)])" "caps one_level = (8, 1)"
    using r by (simp_all add: spec_add_def spec_ids_def fun_upd_idem [of "\<lambda>_. []"])
qed

lemma one_level_leak: "\<exists>b'. addOrder no_clock 2 BUY 90 10 LIMIT one_level = Some (b', Inl PoolExhausted)"
proof -
  have "available (levelPool one_level) = 0"
    using level_slots [OF one_level_facts(1)] one_level_facts(2,3)
    by (simp add: caps_def spec_levels_def spec_prices_def)
  from one_level_facts(1) show ?thesis
  proof (cases rule: addOrder_cases [where clk = no_clock and i = 2 and sd = BUY and p = 90 and q = 10 and ty = LIMIT])
    case ignored
    then show ?thesis by (simp add: one_level_facts(2) spec_ids_def)
  next
    case (processed b' fs)
    have "caps b' = (8, 1)" using caps_addOrder [OF processed(5)] one_level_facts(3) by simp
    moreover have "spec_levels (abs_book b') = 2"
      unfolding processed(7)
      by (simp add: spec_add_def one_level_facts(2) spec_ids_def acceptable_def spec_levels_def spec_prices_def)
    ultimately have False using level_slots [OF processed(6)] by (simp add: caps_def)
    then show ?thesis ..
  qed blast+
qed

theorem addOrder_throws_witness:
  "\<exists>b'. addOrder no_clock 2 BUY 90 10 LIMIT one_level = Some (b', Inl PoolExhausted) \<and>
    abs_book b' = (\<lambda>_. [])(SELL := [(100, 1, 50)]) \<and> available (orderPool one_level) = Suc (available (orderPool b'))"
proof -
  obtain b' where b': "addOrder no_clock 2 BUY 90 10 LIMIT one_level = Some (b', Inl PoolExhausted)"
    using one_level_leak by blast
  have "0 < available (orderPool one_level)"
    using order_slots [OF one_level_facts(1)] one_level_facts(2,3) by (simp add: caps_def spec_count_def)
  with addOrder_throws [OF one_level_facts(1) b'] b' show ?thesis by (simp add: one_level_facts(2))
qed

end
