(* ===== verification/Lob_Market.thy ===== *)
theory Lob_Market
  imports Lob_Props
begin

text \<open>
  What the participants of the market rely on, stated on the code's model: conservation of
  quantity, price-time priority, a book that never crosses, quotes that are exact while
  volumes fit 32 bits (and wrong once they do not), and the accounting of orders, levels and
  slots. The scenarios of \<open>tests/TestOrderBook.cpp\<close> close the theory.
\<close>

lemma events_makers:
  "map (\<lambda>m. (matchPrice m, makerOrderId m, matchQuantity m)) (mk_events clk i n fs) = fs"
  by (induction fs arbitrary: n) auto

definition event_fills :: "MatchEvent list \<Rightarrow> resting list" where
  "event_fills ms = map (\<lambda>m. (matchPrice m, makerOrderId m, matchQuantity m)) ms"

lemma event_fills_mk [simp]: "event_fills (mk_events clk i n fs) = fs"
  by (simp add: event_fills_def events_makers)

lemma takers_mk: "m \<in> set (mk_events clk i n fs) \<Longrightarrow> takerOrderId m = i"
  by (induction fs arbitrary: n) auto

text \<open>What a call that did not throw did, in terms of one sweep.\<close>

lemma addOrder_sweep:
  assumes inv: "book_inv b F" and run: "addOrder clk i sd p q ty b = Some (b', Inr ms)"
    and go: "q \<noteq> 0" "i \<notin> spec_ids (abs_book b)"
  obtains r os where "sweep (acceptable ty sd p) q (abs_book b (opposite sd)) = (r, os, event_fills ms)"
    "book_inv b' F" "ms = mk_events clk i 0 (event_fills ms)" "abs_book b' (opposite sd) = os"
    "abs_book b' sd = (if r > 0 \<and> ty = LIMIT then insert_resting sd (p, i, r) (abs_book b sd) else abs_book b sd)"
  using inv
proof (cases rule: addOrder_cases [where clk = clk and i = i and sd = sd and p = p and q = q and ty = ty])
  case (processed b1 fs)
  obtain r os fs1 where sw: "sweep (acceptable ty sd p) q (abs_book b (opposite sd)) = (r, os, fs1)"
    by (metis prod_cases3)
  have "spec_add i sd p q ty (abs_book b) = (if r > 0 \<and> ty = LIMIT
      then (abs_book b)(opposite sd := os, sd := insert_resting sd (p, i, r) (abs_book b sd))
      else (abs_book b)(opposite sd := os), fs1)"
    using go sw by (intro spec_add_unfold)
  then show ?thesis using processed run sw that by simp
qed (use run go in auto)

section \<open>Conservation and priority\<close>

text \<open>C8. Quantity is conserved by every accepted call: what the incoming order asked for is
  what was traded, plus what now rests of it, plus (unless it is a limit order) what is
  dropped; and the opposite side lost exactly what was traded.\<close>

theorem addOrder_conserves:
  assumes "book_inv b F" and "addOrder clk i sd p q ty b = Some (b', Inr ms)"
    and "q \<noteq> 0" and "i \<notin> spec_ids (abs_book b)"
  shows "spec_volume (abs_book b (opposite sd)) =
      spec_volume (abs_book b' (opposite sd)) + traded_volume ms \<and>
    traded_volume ms \<le> unat q \<and>
    spec_volume (abs_book b' sd) =
      spec_volume (abs_book b sd) + (if ty = LIMIT then unat q - traded_volume ms else 0)"
proof -
  obtain r os where sw: "sweep (acceptable ty sd p) q (abs_book b (opposite sd)) = (r, os, event_fills ms)"
    and ms: "ms = mk_events clk i 0 (event_fills ms)" and opp: "abs_book b' (opposite sd) = os"
    and own: "abs_book b' sd = (if r > 0 \<and> ty = LIMIT then insert_resting sd (p, i, r) (abs_book b sd) else abs_book b sd)"
    using addOrder_sweep [OF assms] by metis
  have tv: "traded_volume ms = spec_volume (event_fills ms)" by (subst ms) simp
  have "r = 0 \<or> r > 0" by (auto simp: word_gt_0)
  then show ?thesis
    using sweep_conserves [OF sw] by (auto simp: tv opp own insert_resting_sums)
qed

theorem addOrder_conserves_witness:
  "\<exists>b' ms. addOrder no_clock 3 BUY 100 60 LIMIT demo = Some (b', Inr ms) \<and>
    traded_volume ms \<le> 60 \<and> 100 = spec_volume (abs_book b' SELL) + traded_volume ms"
proof -
  obtain b' where b': "addOrder no_clock 3 BUY 100 60 LIMIT demo =
      Some (b', Inr (mk_events no_clock 3 0 (snd (spec_add 3 BUY 100 60 LIMIT (abs_book demo)))))"
    using step_refines [OF demo_facts(1) demo_room, of no_clock "Add 3 BUY 100 60 LIMIT"]
    by (auto split: prod.splits)
  from addOrder_conserves [OF demo_facts(1) b'] b' show ?thesis
    by (simp add: demo_ids) (simp add: demo_facts(2))
qed

text \<open>C9. Price-time priority: the trades go through the opposite side in its order of priority
  (best price first, then first come) without skipping an order. Every order before the last
  one is filled in full and leaves; at most one, the last, is filled in part and stays at the
  front with the rest; all orders behind it are untouched. Every trade is at the resting order's
  price, within the limit of the incoming order, and names the incoming order as the taker; and
  if the order was not filled, no order it could trade with is left.\<close>

theorem addOrder_priority:
  assumes "book_inv b F" and "addOrder clk i sd p q ty b = Some (b', Inr ms)"
    and "q \<noteq> 0" and "i \<notin> spec_ids (abs_book b)"
  shows "(abs_book b (opposite sd) = event_fills ms @ abs_book b' (opposite sd) \<or>
      (\<exists>full p' i' q' f rest. abs_book b (opposite sd) = full @ (p', i', q') # rest \<and>
        event_fills ms = full @ [(p', i', f)] \<and>
        abs_book b' (opposite sd) = (p', i', q' - f) # rest \<and> 0 < f \<and> f < q')) \<and>
    (\<forall>m \<in> set ms. acceptable ty sd p (matchPrice m) \<and> takerOrderId m = i) \<and>
    (traded_volume ms < unat q \<longrightarrow> abs_book b' (opposite sd) = [] \<or>
       \<not> acceptable ty sd p (r_price (hd (abs_book b' (opposite sd)))))"
proof -
  obtain r where sw: "sweep (acceptable ty sd p) q (abs_book b (opposite sd)) =
      (r, abs_book b' (opposite sd), event_fills ms)"
    and ms: "ms = mk_events clk i 0 (event_fills ms)"
    using addOrder_sweep [OF assms] by metis
  have tv: "traded_volume ms = spec_volume (event_fills ms)" by (subst ms) simp
  have "acceptable ty sd p (matchPrice m)" if "m \<in> set ms" for m
    using sweep_fills_ok [OF sw, of "(matchPrice m, makerOrderId m, matchQuantity m)"] that
    by (auto simp: event_fills_def)
  moreover have "takerOrderId m = i" if "m \<in> set ms" for m
    using that takers_mk ms by metis
  moreover have "r \<noteq> 0" if "traded_volume ms < unat q"
    using sweep_conserves [OF sw] that tv by auto
  ultimately show ?thesis
    using sweep_prefix [OF sw] sweep_exhausts [OF sw] by blast
qed

theorem addOrder_priority_witness:
  "\<exists>b' ms. addOrder no_clock 3 BUY 100 60 LIMIT demo = Some (b', Inr ms) \<and>
    (\<forall>m \<in> set ms. acceptable LIMIT BUY 100 (matchPrice m) \<and> takerOrderId m = 3)"
proof -
  obtain b' where b': "addOrder no_clock 3 BUY 100 60 LIMIT demo =
      Some (b', Inr (mk_events no_clock 3 0 (snd (spec_add 3 BUY 100 60 LIMIT (abs_book demo)))))"
    using step_refines [OF demo_facts(1) demo_room, of no_clock "Add 3 BUY 100 60 LIMIT"]
    by (auto split: prod.splits)
  from addOrder_priority [OF demo_facts(1) b'] b' show ?thesis by (auto simp: demo_ids)
qed

text \<open>An order that is not a limit order never rests: its own side is unchanged and its id is
  not active afterwards. This holds of \<open>MARKET\<close> and of \<open>CANCEL\<close>, which \<open>addOrder\<close> executes
  as a market order.\<close>

lemma only_limit_orders_rest:
  assumes "book_inv b F" and "addOrder clk i sd p q ty b = Some (b', Inr ms)" and "ty \<noteq> LIMIT"
    and "i \<notin> spec_ids (abs_book b)"
  shows "abs_book b' sd = abs_book b sd \<and> map_of (orderMap b') i = None"
proof (cases "q = 0")
  case True
  then have "b' = b" using assms(2) by (simp add: addOrder_def)
  moreover obtain G where "layout_ok b G F" using book_invE [OF assms(1)] .
  ultimately show ?thesis using orderMap_active assms(4) by blast
next
  case False
  obtain r where sw: "sweep (acceptable ty sd p) q (abs_book b (opposite sd)) =
      (r, abs_book b' (opposite sd), event_fills ms)" and inv': "book_inv b' F"
    and own: "abs_book b' sd = abs_book b sd"
    using addOrder_sweep [OF assms(1,2) False assms(4)] assms(3) by metis
  have "(abs_book b)(opposite sd := abs_book b' (opposite sd)) = abs_book b'"
    using own by (auto simp: fun_eq_iff side_eq_opposite)
  then have "spec_ids (abs_book b') \<subseteq> spec_ids (abs_book b)"
    using spec_inv_sweep(2) [where S = "abs_book b" and sd = "opposite sd", OF _ sw] assms(1)
    by (simp add: book_inv_def)
  then have "i \<notin> spec_ids (abs_book b')" using assms(4) by blast
  moreover obtain G where "layout_ok b' G F" using book_invE [OF inv'] .
  ultimately show ?thesis using orderMap_active own by blast
qed

lemma only_limit_orders_rest_witness:
  "\<exists>b' ms. addOrder no_clock 3 BUY 0 500 CANCEL demo = Some (b', Inr ms) \<and> length ms = 2 \<and>
    map_of (orderMap b') 3 = None"
proof -
  have sp: "spec_add 3 BUY 0 500 CANCEL (abs_book demo) = ((\<lambda>_. []), [(100, 1, 50), (100, 2, 50)])"
    by (simp add: spec_add_def demo_ids) (simp add: demo_facts(2) acceptable_def fun_eq_iff)
  obtain b' where b': "addOrder no_clock 3 BUY 0 500 CANCEL demo =
      Some (b', Inr (mk_events no_clock 3 0 [(100, 1, 50), (100, 2, 50)]))"
    using step_refines [OF demo_facts(1) demo_room, of no_clock "Add 3 BUY 0 500 CANCEL"]
    by (auto simp: sp)
  from only_limit_orders_rest [OF demo_facts(1) b'] b' show ?thesis by (simp add: demo_ids)
qed

section \<open>Quotes\<close>

text \<open>C14. After any sequence of calls on a new book, the best bid is below the best ask, and
  \<open>getSpread\<close> answers exactly when both sides are quoted, with their (positive) difference:
  its guard \<open>bestAsk >= bestBid\<close> is never false.\<close>

theorem book_never_crosses:
  "case run_book reqs OrderBook_init of
     None \<Rightarrow> False
   | Some (b, _) \<Rightarrow> (case (getBestBid b, getBestAsk b) of
         (Some (bid, _), Some (ask, _)) \<Rightarrow> bid < ask \<and> getSpread b = Some (ask - bid)
       | _ \<Rightarrow> getSpread b = None)"
proof -
  have "book_inv OrderBook_init {#}"
    unfolding OrderBook_init_def by (rule book_inv_init) (simp add: DEFAULT_MAX_ORDERS_def)
  from run_ok [OF this, of reqs] obtain b reps F where
    r: "run_book reqs OrderBook_init = Some (b, reps)" "book_inv b F" by auto
  have un: "uncrossed (abs_book b)" using r(2) by (simp add: book_inv_def spec_inv_def)
  show ?thesis
  proof (cases "bids b = [] \<or> asks b = []")
    case True
    then show ?thesis by (auto simp: r(1) getBestBid_def getBestAsk_def getSpread_def split: list.splits)
  next
    case False
    then obtain k lp bs k' lp' as where m: "bids b = (k, lp) # bs" "asks b = (k', lp') # as"
      by (metis list.exhaust prod.exhaust)
    obtain x xs y ys where S: "abs_book b BUY = x # xs" "r_price x = k" "abs_book b SELL = y # ys" "r_price y = k'"
      using side_head [OF r(2), of BUY] side_head [OF r(2), of SELL] m
      by (cases "abs_book b BUY"; cases "abs_book b SELL") auto
    have "r_price x < r_price y" using un S by (simp add: uncrossed_def)
    then show ?thesis using S by (simp add: r(1) m getBestBid_def getBestAsk_def getSpread_def)
  qed
qed

text \<open>C15. Over up to 10,000 calls on a new book (as many as its level pool has slots), as long as the
  quantities submitted add up to less than \<open>2 ^ 32\<close>, the best bid and ask are quoted exactly: the best price of the side, with the sum of the remaining
  quantities that rest at it.\<close>

theorem best_quotes_exact:
  assumes "length reqs \<le> DEFAULT_MAX_LEVELS" and "submitted_all reqs < 2 ^ 32"
  shows "\<exists>b reps. run_book reqs OrderBook_init = Some (b, reps) \<and>
    map_option (map_prod id unat) (getBestBid b) = spec_best (abs_book b) BUY \<and>
    map_option (map_prod id unat) (getBestAsk b) = spec_best (abs_book b) SELL"
proof -
  obtain b reps where r: "run_book reqs OrderBook_init = Some (b, reps)" "book_inv b {#}" "volumes_ok b"
    using run_refines_init [of DEFAULT_MAX_ORDERS reqs DEFAULT_MAX_LEVELS] assms
    by (auto simp: OrderBook_init_def DEFAULT_MAX_ORDERS_def DEFAULT_MAX_LEVELS_def)
  then show ?thesis
    using side_best_spec [OF r(2,3), of BUY] side_best_spec [OF r(2,3), of SELL]
    by (simp add: side_best_code)
qed

theorem best_quotes_exact_witness:
  "\<exists>b reps. run_book demo_requests OrderBook_init = Some (b, reps) \<and>
    map_option (map_prod id unat) (getBestAsk b) = Some (100, 100)"
proof -
  have len: "length demo_requests \<le> DEFAULT_MAX_LEVELS" and sub: "submitted_all demo_requests < 2 ^ 32"
    by (simp_all add: demo_requests_def DEFAULT_MAX_LEVELS_def)
  obtain b reps where r: "run_book demo_requests OrderBook_init = Some (b, reps)"
    "spec_run demo_requests (\<lambda>_. []) = (abs_book b, reps)"
    using run_refines_init [of DEFAULT_MAX_ORDERS demo_requests DEFAULT_MAX_LEVELS] len
    by (auto simp: OrderBook_init_def DEFAULT_MAX_ORDERS_def DEFAULT_MAX_LEVELS_def)
  then have "abs_book b = (\<lambda>_. [])(SELL := [(100, 1, 50), (100, 2, 50)])" by (simp add: demo_spec)
  with best_quotes_exact [OF len sub] r show ?thesis by (simp add: spec_best_def)
qed

text \<open>The book of the next property: two bids of \<open>2 ^ 31\<close> each at one price.\<close>

definition heavy_requests :: "(clock \<times> request) list" where
  "heavy_requests = [(no_clock, Add 1 BUY 100 0x80000000 LIMIT), (no_clock, Add 2 BUY 100 0x80000000 LIMIT)]"

lemmas book_eval =
  book_init_def ObjectPool_init_def addOrder_def allocate_def mk_Order_def Let_def
  matchSellOrder_def matchBuyOrder_def getOrCreatePriceLevel_def mk_PriceLevel_def
  PriceLevel_append_def fillLevel.simps fillMaker_def PriceLevel_empty_def PriceLevel_remove_def
  upd_order_def upd_level_def on_level_def free_order_def free_level_def deallocate_def
  cancelOrder_def removePriceLevelIfEmpty_def

text \<open>C16. The bound of the quotes is needed: \<open>totalVolume\<close> is a 32-bit sum that
  \<open>append\<close> lets wrap. Two bids of \<open>2 ^ 31\<close> at one price rest correctly, but the best bid
  is quoted with quantity 0.\<close>

theorem level_volume_wraps:
  "\<exists>b reps. run_book heavy_requests OrderBook_init = Some (b, reps) \<and>
    abs_book b BUY = [(100, 1, 0x80000000), (100, 2, 0x80000000)] \<and>
    spec_best (abs_book b) BUY = Some (100, 2 ^ 32) \<and> getBestBid b = Some (100, 0)"
proof -
  obtain b reps where r: "run_book heavy_requests OrderBook_init = Some (b, reps)"
    "spec_run heavy_requests (\<lambda>_. []) = (abs_book b, reps)"
    using run_refines_init [of DEFAULT_MAX_ORDERS heavy_requests DEFAULT_MAX_LEVELS]
    by (auto simp: OrderBook_init_def DEFAULT_MAX_ORDERS_def DEFAULT_MAX_LEVELS_def heavy_requests_def)
  have S: "abs_book b BUY = [(100, 1, 0x80000000), (100, 2, 0x80000000)]"
  proof -
    have "abs_book b = fst (spec_run heavy_requests (\<lambda>_. []))" using r(2) by simp
    then show ?thesis by (simp add: heavy_requests_def spec_add_def spec_ids_def)
  qed
  have "map_option (\<lambda>(b, reps). getBestBid b) (run_book heavy_requests OrderBook_init) = Some (Some (100, 0))"
    by (simp add: heavy_requests_def OrderBook_init_def DEFAULT_MAX_ORDERS_def DEFAULT_MAX_LEVELS_def
        book_eval getBestBid_def cong: run_cong)
  then show ?thesis using r(1) S by (simp add: spec_best_def)
qed

section \<open>Accounting\<close>

text \<open>The counting queries are exact: the active orders are the resting ones, and each side has one
  level per distinct resting price (no level is empty, no two levels share a price).\<close>

lemma counts_exact:
  assumes "book_inv b F"
  shows "getActiveOrdersCount b = length (abs_book b BUY) + length (abs_book b SELL) \<and>
    getBidLevelsCount b = card (r_price ` set (abs_book b BUY)) \<and>
    getAskLevelsCount b = card (r_price ` set (abs_book b SELL))"
  using active_count [OF assms] side_map_length(1) [OF assms, of BUY] side_map_length(1) [OF assms, of SELL]
  by (simp add: getActiveOrdersCount_def getBidLevelsCount_def getAskLevelsCount_def spec_count_def spec_prices_def)

text \<open>The id lookup is exact: an id is in \<open>orderMap\<close> exactly when an order with this id
  rests, and the slot found holds that order, on the side, at the price and with the remaining
  quantity with which it rests.\<close>

lemma lookup_exact:
  assumes "book_inv b F"
  shows "(map_of (orderMap b) i \<noteq> None \<longleftrightarrow> i \<in> spec_ids (abs_book b)) \<and>
    (\<forall>p. map_of (orderMap b) i = Some p \<longrightarrow> o_id (orders b p) = i \<and>
      (o_price (orders b p), i, o_remainingQty (orders b p)) \<in> set (abs_book b (o_side (orders b p))))"
proof -
  obtain G where ok: "layout_ok b G F" and S: "abs_book b = flatten b G" using book_invE [OF assms] .
  have "o_id (orders b p) = i \<and> (o_price (orders b p), i, o_remainingQty (orders b p)) \<in>
      set (abs_book b (o_side (orders b p)))" if found: "map_of (orderMap b) i = Some p" for p
  proof -
    have p: "p \<in># live G" and i: "o_id (orders b p) = i" using orderMap_find [OF ok] found by auto
    obtain sd pre k lp xs ys post where G: "G sd = pre @ (k, lp, xs @ p # ys) # post"
      using live_split [OF p] .
    have "glevel_ok (orders b) (levels b) sd (k, lp, xs @ p # ys)"
      using layout_okD(1) [OF ok, of sd] by (simp add: side_ok_def G)
    then have "o_side (orders b p) = sd" "o_price (orders b p) = k" by (auto simp: glevel_ok_def)
    then show ?thesis using i by (simp add: S flatten_def G resting_of_def)
  qed
  then show ?thesis using orderMap_active [OF ok] by blast
qed

lemma lookup_exact_witness: "map_of (orderMap demo) 2 \<noteq> None \<and> map_of (orderMap demo) 3 = None"
  using lookup_exact [OF demo_facts(1), of 2] lookup_exact [OF demo_facts(1), of 3] by (simp add: demo_ids)

lemma spec_cancel_insert:
  assumes "i \<notin> r_id ` set os"
  shows "filter (\<lambda>x. r_id x \<noteq> i) (insert_resting sd (p, i, r) os) = os"
proof -
  have "\<And>y. y \<in> set os \<Longrightarrow> r_id y \<noteq> i" using assms by (metis imageI)
  then show ?thesis by (induction os) auto
qed

lemma addOrder_no_trade:
  assumes "book_inv b F" and "addOrder clk i sd p q ty b = Some (b1, Inr [])"
  shows "totalTradesCount b1 = totalTradesCount b \<and> totalVolumeTraded b1 = totalVolumeTraded b"
  using assms(1)
proof (cases rule: addOrder_cases [where clk = clk and i = i and sd = sd and p = p and q = q and ty = ty])
  case (processed b' fs)
  then have "mk_events clk i 0 fs = []" using assms(2) by simp
  then have "fs = []" by (metis length_0_conv length_mk_events)
  then show ?thesis using processed assms(2) by simp
qed (use assms(2) in simp_all)

text \<open>C37. Round trip: a limit order that trades with nothing and is then cancelled leaves the
  resting orders, both pools' free slots and both counters as they were before it was added; and it had not
  changed the counters when it was added.\<close>

theorem add_then_cancel:
  assumes "book_inv b F" and "addOrder clk i sd p q LIMIT b = Some (b1, Inr [])"
    and "q \<noteq> 0" and "i \<notin> spec_ids (abs_book b)"
  shows "\<exists>b2. cancelOrder i b1 = (b2, True) \<and> book_inv b2 F \<and> abs_book b2 = abs_book b \<and>
    available (orderPool b2) = available (orderPool b) \<and> available (levelPool b2) = available (levelPool b) \<and>
    totalTradesCount b1 = totalTradesCount b \<and> totalVolumeTraded b1 = totalVolumeTraded b \<and>
    totalTradesCount b2 = totalTradesCount b \<and> totalVolumeTraded b2 = totalVolumeTraded b"
proof -
  have counters: "totalTradesCount b1 = totalTradesCount b" "totalVolumeTraded b1 = totalVolumeTraded b"
    using addOrder_no_trade [OF assms(1,2)] by simp_all
  obtain r where sw: "sweep (acceptable LIMIT sd p) q (abs_book b (opposite sd)) =
      (r, abs_book b1 (opposite sd), event_fills [])" and inv1: "book_inv b1 F"
    and own: "abs_book b1 sd = (if r > 0 then insert_resting sd (p, i, r) (abs_book b sd) else abs_book b sd)"
    using addOrder_sweep [OF assms] by metis
  have "event_fills [] = []" by (simp add: event_fills_def)
  then have "unat r = unat q" using sweep_conserves [OF sw] by simp
  then have r: "r > 0" using assms(3) by (metis unat_gt_0 word_gt_0 word_neq_0_unat)
  have opp: "abs_book b1 (opposite sd) = abs_book b (opposite sd)"
    using sweep_prefix [OF sw] \<open>event_fills [] = []\<close> by auto
  have fresh: "i \<notin> r_id ` set (abs_book b sd)" "i \<notin> r_id ` set (abs_book b (opposite sd))"
    using assms(4) by (auto simp: spec_ids_side [of _ sd])
  have "spec_cancel i (abs_book b1) = abs_book b"
  proof
    fix s
    have "\<And>y. y \<in> set (abs_book b (opposite sd)) \<Longrightarrow> r_id y \<noteq> i" using fresh(2) by (metis imageI)
    then have "filter (\<lambda>x. r_id x \<noteq> i) (abs_book b (opposite sd)) = abs_book b (opposite sd)"
      by (simp add: filter_id_conv)
    then show "spec_cancel i (abs_book b1) s = abs_book b s"
      using spec_cancel_insert [OF fresh(1)] opp own r
      by (cases "s = sd") (simp_all add: spec_cancel_def side_eq_opposite)
  qed
  moreover have act: "i \<in> spec_ids (abs_book b1)"
    unfolding spec_ids_side [of _ sd] using own r by (simp add: image_Un)
  moreover obtain b2 where c: "cancelOrder i b1 = (b2, i \<in> spec_ids (abs_book b1))" "book_inv b2 F"
    "abs_book b2 = spec_cancel i (abs_book b1)"
    "totalTradesCount b2 = totalTradesCount b1" "totalVolumeTraded b2 = totalVolumeTraded b1"
    using cancelOrder_ok [OF inv1, of i] by metis
  moreover have "caps b2 = caps b"
    using caps_addOrder [OF assms(2)] caps_cancelOrder [of i b1] c(1) by simp
  moreover have "abs_book b2 = abs_book b" using calculation(1) c(3) by simp
  ultimately show ?thesis
    using order_slots [OF assms(1)] order_slots [OF c(2)] level_slots [OF assms(1)] level_slots [OF c(2)]
    by (simp add: caps_def counters)
qed

theorem add_then_cancel_witness:
  "\<exists>b1 b2. addOrder no_clock 7 BUY 99 5 LIMIT demo = Some (b1, Inr []) \<and>
    cancelOrder 7 b1 = (b2, True) \<and> abs_book b2 = abs_book demo \<and> totalTradesCount b2 = totalTradesCount demo"
proof -
  have sp: "snd (spec_add 7 BUY 99 5 LIMIT (abs_book demo)) = []"
    by (simp add: spec_add_def demo_ids) (simp add: demo_facts(2) acceptable_def)
  obtain b1 where b1: "addOrder no_clock 7 BUY 99 5 LIMIT demo = Some (b1, Inr [])"
    using step_refines [OF demo_facts(1) demo_room, of no_clock "Add 7 BUY 99 5 LIMIT"] sp
    by (auto split: prod.splits)
  from add_then_cancel [OF demo_facts(1) b1] b1 show ?thesis by (auto simp: demo_ids)
qed

text \<open>C38. The destructor returns every slot: afterwards the level pool has all its slots free, the
  order pool all but the leaked ones, each exactly once, and the maps are empty.\<close>

theorem destroy_returns_slots:
  assumes "book_inv b F"
  shows "pool_ok (orderPool (OrderBook_destroy b)) F \<and> pool_ok (levelPool (OrderBook_destroy b)) {#} \<and>
    available (orderPool (OrderBook_destroy b)) + size F = poolCapacity (orderPool b) \<and>
    available (levelPool (OrderBook_destroy b)) = poolCapacity (levelPool b) \<and>
    orderMap (OrderBook_destroy b) = [] \<and> bids (OrderBook_destroy b) = [] \<and> asks (OrderBook_destroy b) = []"
  using destroy_pools [OF assms] pool.ok_size [OF destroy_pools(1) [OF assms]]
    pool.ok_size [OF destroy_pools(2) [OF assms]]
  by (simp add: caps_def) (simp add: OrderBook_destroy_def Let_def fold_free_order fold_free_level)

theorem destroy_returns_slots_witness: "available (orderPool (OrderBook_destroy demo)) = 8"
  using destroy_returns_slots [OF demo_facts(1)] demo_facts(4) by (simp add: caps_def)

section \<open>The parts: pool and level\<close>

text \<open>A slot is handed out to one user at a time: \<open>allocate\<close> throws exactly when no slot is free;
  otherwise the slot is in range and not in use, only that slot is written, and the pool stays
  consistent; giving the slot back restores the free slots, and it is the next one handed out.\<close>

lemma pool_allocate_fresh:
  assumes "pool_ok P M"
  shows "case allocate v P of
      Inl e \<Rightarrow> available P = 0
    | Inr (p, P') \<Rightarrow> available P = Suc (available P') \<and> p < capacity P \<and> p \<notin># M \<and>
        pool_ok P' (add_mset p M) \<and> poolStorage P' = (poolStorage P)(p := v) \<and>
        pool_ok (deallocate (Some p) P') M \<and> available (deallocate (Some p) P') = available P \<and>
        (\<forall>w. \<exists>P''. allocate w (deallocate (Some p) P') = Inr (p, P''))"
proof (cases "allocate v P")
  case (Inl e)
  then show ?thesis using allocate_fails [of v P e] by simp
next
  case (Inr x)
  then obtain p P' where a: "allocate v P = Inr (p, P')" by (cases x) auto
  have "\<exists>P''. allocate w (deallocate (Some p) P') = Inr (p, P'')" for w
    by (simp add: allocate_def deallocate_def Let_def)
  moreover have "available P = Suc (available P')"
    using pool.ok_size [OF assms] pool.ok_size [OF pool.alloc_ok [OF assms a]] pool.alloc_size [OF a] by simp
  ultimately show ?thesis
    using pool.alloc_fresh [OF assms a] pool.alloc_ok [OF assms a] pool.alloc_read [OF a]
      pool.alloc_free_avail [OF assms a] a by (simp add: capacity_def)
qed

lemma pool_allocate_fresh_witness:
  "case allocate (5::int) (ObjectPool_init 3 0) of Inl e \<Rightarrow> False | Inr (p, P') \<Rightarrow> p < 3 \<and> available P' = 2"
  using pool_allocate_fresh [OF pool_ok_init, where v = "5::int"]
  by (simp add: allocate_def ObjectPool_init_def available_def capacity_def Let_def)

text \<open>A price level is a FIFO queue under \<open>append\<close>: the order goes to the tail, behind every
  order already there, and the links, the ends and the count stay consistent.\<close>

lemma level_append_fifo:
  assumes "level_ok h l ps" and "p \<notin> set ps" and "length ps < n"
  shows "level_ok (fst (PriceLevel_append this p (h, l))) (snd (PriceLevel_append this p (h, l))) (ps @ [p]) \<and>
    walk n (fst (PriceLevel_append this p (h, l))) (l_head (snd (PriceLevel_append this p (h, l)))) =
      walk n h (l_head l) @ [p] \<and>
    o_level (fst (PriceLevel_append this p (h, l)) p) = Some this"
  using append_level_ok [OF assms(1,2), of this] assms(3) walk_level [OF assms(1), of n]
  by (simp add: walk_level heap_frame)

text \<open>\<open>remove\<close> unlinks an order wherever it stands: the others keep their order, the removed
  order has no links left, and orders of other levels are untouched.\<close>

lemma level_remove_unlinks:
  assumes "level_ok h l (xs @ p # ys)" and "length (xs @ p # ys) < 2 ^ 64" and "length (xs @ p # ys) \<le> n"
  shows "level_ok (fst (PriceLevel_remove (Some p) (h, l))) (snd (PriceLevel_remove (Some p) (h, l))) (xs @ ys) \<and>
    walk n (fst (PriceLevel_remove (Some p) (h, l))) (l_head (snd (PriceLevel_remove (Some p) (h, l)))) = xs @ ys \<and>
    o_prev (fst (PriceLevel_remove (Some p) (h, l)) p) = None \<and>
    o_next (fst (PriceLevel_remove (Some p) (h, l)) p) = None \<and>
    o_level (fst (PriceLevel_remove (Some p) (h, l)) p) = None \<and>
    (\<forall>q. q \<notin> set (xs @ p # ys) \<longrightarrow> fst (PriceLevel_remove (Some p) (h, l)) q = h q)"
proof -
  have ok: "level_ok (fst (PriceLevel_remove (Some p) (h, l))) (snd (PriceLevel_remove (Some p) (h, l))) (xs @ ys)"
    by (rule remove_level_ok [OF assms(1,2)])
  have "o_prev (fst (PriceLevel_remove (Some p) (h, l)) p) = None"
    "o_next (fst (PriceLevel_remove (Some p) (h, l)) p) = None"
    by (auto simp: PriceLevel_remove_def Let_def split: option.splits)
  then show ?thesis
    using ok walk_level [OF ok, of n] assms(3) remove_other [OF assms(1), of p] by (auto simp: heap_frame)
qed

end
