(* ===== verification/Text_Out.thy ===== *)
theory Text_Out
  imports Complex_Main Prelude
begin

text \<open>
  What the programs use of output streams: numbers in decimal, \<open>setw\<close> with a fill character,
  \<open>fixed\<close> with \<open>setprecision\<close>. Output is the list of its lines; every output of the programs
  ends with a line break. A \<open>double\<close> is modelled by the rational number it stands for, so what is
  computed with it is exact; it is printed rounded to nearest, ties to even.
\<close>

fun decimal :: "nat \<Rightarrow> string" where
  "decimal n = (if n < 10 then [char_of (48 + n)] else decimal (n div 10) @ [char_of (48 + n mod 10)])"

declare decimal.simps [simp del]

definition show_int :: "int \<Rightarrow> string" where
  "show_int i = (if i < 0 then ''-'' @ decimal (nat (- i)) else decimal (nat i))"

definition show_word :: "'a::len word \<Rightarrow> string" where
  "show_word w = decimal (unat w)"

definition setw :: "char \<Rightarrow> nat \<Rightarrow> string \<Rightarrow> string" where
  "setw fill w s = replicate (w - length s) fill @ s"

definition round_even :: "rat \<Rightarrow> int" where
  "round_even x =
     (let n = \<lfloor>x\<rfloor>; d = x - of_int n
      in if d < 1 / 2 \<or> d = 1 / 2 \<and> even n then n else n + 1)"

definition fixed :: "nat \<Rightarrow> rat \<Rightarrow> string" where
  "fixed prec x =
     (let n = nat (round_even (\<bar>x\<bar> * 10 ^ prec))
      in (if x < 0 then ''-'' else []) @ decimal (n div 10 ^ prec) @
         (if prec = 0 then [] else ''.'' @ setw CHR ''0'' prec (decimal (n mod 10 ^ prec))))"

text \<open>
  \<open>values[values.size() * q]\<close> for the quantile \<open>q = num / den\<close> of the sorted values. The
  product is rounded to a \<open>double\<close> and truncated; for the quantiles of the programs and sizes below
  \<open>2 ^ 45\<close> that is the integer quotient.
\<close>

definition quantile :: "nat \<Rightarrow> nat \<Rightarrow> 'a list \<Rightarrow> 'a" where
  "quantile num den xs = xs ! (length xs * num div den)"

lemma quantile_mem:
  assumes "xs \<noteq> []" and "num < den"
  shows "quantile num den (sort xs) \<in> set xs"
proof -
  have "0 < length xs" using assms(1) by simp
  then have "length xs * num < length xs * den" using assms(2) by simp
  then have "length (sort xs) * num div den < length (sort xs)"
    using assms(2) by (simp add: div_less_iff_less_mult)
  then have "quantile num den (sort xs) \<in> set (sort xs)" unfolding quantile_def by (rule nth_mem)
  then show ?thesis by simp
qed

lemma quantile_mono:
  assumes "xs \<noteq> []" and "num \<le> num'" and "num' < den"
  shows "quantile num den (sort xs) \<le> quantile num' den (sort xs)"
proof -
  have "0 < length xs" using assms(1) by simp
  then have "length xs * num' < length xs * den" using assms(3) by simp
  then have "length (sort xs) * num' div den < length (sort xs)"
    using assms(3) by (simp add: div_less_iff_less_mult)
  moreover have "length (sort xs) * num div den \<le> length (sort xs) * num' div den"
    using assms(2) by (intro div_le_mono) simp
  ultimately show ?thesis unfolding quantile_def by (simp add: sorted_nth_mono)
qed

section \<open>Widths\<close>

lemma decimal_0: "decimal 0 = ''0''"
  by (subst decimal.simps) (simp add: char_of_def bit_0)

lemma decimal_not_Nil [simp]: "decimal n \<noteq> []"
  by (subst decimal.simps) simp

lemma length_decimal: "0 < k \<Longrightarrow> length (decimal n) \<le> k \<longleftrightarrow> n < 10 ^ k"
proof (induction n arbitrary: k rule: decimal.induct)
  case (1 n)
  show ?case
  proof (cases "n < 10")
    case True
    have "(10 :: nat) ^ 1 \<le> 10 ^ k" using 1(2) by (intro power_increasing) simp_all
    then show ?thesis using True 1(2) by (subst decimal.simps) simp
  next
    case False
    obtain j where k: "k = Suc j" using 1(2) by (cases k) auto
    show ?thesis
    proof (cases "j = 0")
      case True
      then show ?thesis using False by (subst decimal.simps) (simp add: k Suc_le_eq)
    next
      case j: False
      have "n div 10 < 10 ^ j \<longleftrightarrow> n < 10 ^ k" by (simp add: k div_less_iff_less_mult mult.commute)
      then show ?thesis using 1(1) [of j] False j by (subst decimal.simps) (simp add: k)
    qed
  qed
qed

lemma length_setw [simp]: "length (setw c w s) = max w (length s)"
  by (simp add: setw_def)

lemma setw_wide [simp]: "w \<le> length s \<Longrightarrow> setw c w s = s"
  by (simp add: setw_def)

section \<open>Rounding\<close>

lemma round_even_close: "\<bar>of_int (round_even x) - x\<bar> \<le> 1 / 2"
proof -
  have floor: "of_int \<lfloor>x\<rfloor> \<le> x" "x < of_int \<lfloor>x\<rfloor> + 1" by linarith+
  show ?thesis
  proof (cases "x - of_int \<lfloor>x\<rfloor> < 1 / 2 \<or> x - of_int \<lfloor>x\<rfloor> = 1 / 2 \<and> even \<lfloor>x\<rfloor>")
    case True
    then have "round_even x = \<lfloor>x\<rfloor>" by (simp only: round_even_def Let_def if_True)
    then show ?thesis using True floor by linarith
  next
    case False
    then have "round_even x = \<lfloor>x\<rfloor> + 1" by (simp only: round_even_def Let_def if_False)
    then show ?thesis using False floor by linarith
  qed
qed

lemma round_even_int [simp]: "round_even (of_int n) = n"
  by (simp add: round_even_def)

text \<open>A printed number has exactly the digits asked for after its point, and is off by at most
  half a unit of the last of them.\<close>

lemma fixed_shape:
  assumes "0 < prec"
  shows "\<exists>whole frac. fixed prec x = (if x < 0 then ''-'' else []) @ decimal whole @ ''.'' @
      setw CHR ''0'' prec (decimal frac) \<and> length (setw CHR ''0'' prec (decimal frac)) = prec \<and>
      \<bar>of_nat (whole * 10 ^ prec + frac) / 10 ^ prec - \<bar>x\<bar>\<bar> \<le> 1 / (2 * 10 ^ prec)"
proof -
  let ?y = "\<bar>x\<bar> * 10 ^ prec"
  define n where "n = nat (round_even ?y)"
  have "0 \<le> ?y" by simp
  then have "- 1 < (of_int (round_even ?y) :: rat)" using round_even_close [of ?y] by linarith
  then have "0 \<le> round_even ?y" by linarith
  then have n: "(of_nat n :: rat) = of_int (round_even ?y)" by (simp add: n_def of_nat_nat)
  have frac: "length (decimal (n mod 10 ^ prec)) \<le> prec" using length_decimal [OF assms] by simp
  have "\<bar>of_nat n - ?y\<bar> \<le> 1 / 2" unfolding n by (rule round_even_close)
  then have "\<bar>of_nat n - ?y\<bar> / 10 ^ prec \<le> 1 / 2 / 10 ^ prec" by (intro divide_right_mono) simp_all
  moreover have "of_nat n / 10 ^ prec - \<bar>x\<bar> = (of_nat n - ?y) / 10 ^ prec" by (simp add: diff_divide_distrib)
  then have "\<bar>of_nat n / 10 ^ prec - \<bar>x\<bar>\<bar> = \<bar>of_nat n - ?y\<bar> / 10 ^ prec" by (simp only: abs_divide) simp
  ultimately have "\<bar>of_nat n / 10 ^ prec - \<bar>x\<bar>\<bar> \<le> 1 / (2 * 10 ^ prec)" by simp
  moreover have "n div 10 ^ prec * 10 ^ prec + n mod 10 ^ prec = n" by (rule div_mult_mod_eq)
  ultimately show ?thesis
    using assms frac by (intro exI [of _ "n div 10 ^ prec"] exI [of _ "n mod 10 ^ prec"])
      (simp add: fixed_def n_def [symmetric] Let_def)
qed

end
