(* ===== verification/Lob_Demo.thy ===== *)
theory Lob_Demo
  imports Lob_Market Text_Out
begin

text \<open>
  What the programs around the engine do with it: the market depth that \<open>printBook\<close> writes
  (\<open>src/OrderBook.cpp\<close>), the session of \<open>src/main.cpp\<close>, and the calls of the latency
  benchmark (\<open>benchmarks/BenchmarkLOB.cpp\<close>).
\<close>

section \<open>Market depth\<close>

text \<open>The loops of \<open>printBook\<close>: at most \<open>n\<close> entries from an iterator on.\<close>

fun depth_rows :: "nat \<Rightarrow> (level_ptr \<Rightarrow> PriceLevel) \<Rightarrow> (Price \<times> level_ptr) list \<Rightarrow> (Price \<times> Quantity) list" where
  "depth_rows n L [] = []"
| "depth_rows 0 L (e # it) = []"
| "depth_rows (Suc n) L ((price, lp) # it) = (price, l_totalVolume (L lp)) # depth_rows n L it"

text \<open>The text of the market depth, given the rows above the spread, the spread and the rows below it.\<close>

definition price_row :: "Price \<times> nat \<Rightarrow> string" where
  "price_row = (\<lambda>(price, vol). ''   Price: '' @ setw CHR '' '' 8 (show_word price) @
     '' | Vol: '' @ setw CHR '' '' 6 (decimal vol))"

definition depth_text :: "(Price \<times> nat) list \<Rightarrow> Price option \<Rightarrow> (Price \<times> nat) list \<Rightarrow> string list" where
  "depth_text rows1 spread rows2 =
     ['''', ''------------------ MARKET DEPTH ------------------'', '' ASKS (SELLS)''] @
     map price_row rows1 @
     [case spread of
        Some s \<Rightarrow> ''   ---------------- SPREAD: '' @ show_word s @ '' --------------- ''
      | None \<Rightarrow> ''   ---------------- SPREAD: N/A -------------- '',
      '' BIDS (BUYS)''] @
     map price_row rows2 @
     [''--------------------------------------------------'']"

definition printBook :: "nat \<Rightarrow> OrderBook \<Rightarrow> string list" where
  "printBook maxLevels b =
     (let askList = depth_rows maxLevels (levels b) (asks b);
          printed = map (\<lambda>(price, vol). (price, unat vol))
      in depth_text (printed (rev askList)) (getSpread b) (printed (depth_rows maxLevels (levels b) (bids b))))"

text \<open>The depth of one side of the abstract book: its distinct prices in their order, each with the
  quantity that rests at it.\<close>

definition spec_depth :: "resting list \<Rightarrow> (Price \<times> nat) list" where
  "spec_depth os = map (\<lambda>p. (p, spec_volume (filter (\<lambda>x. r_price x = p) os))) (remdups (map r_price os))"

lemma depth_rows_take: "depth_rows n L m = take n (map (\<lambda>(p, lp). (p, l_totalVolume (L lp))) m)"
  by (induction n L m rule: depth_rows.induct) auto

lemma remdups_block: "k \<notin> set ks \<Longrightarrow> remdups (replicate (Suc n) k @ ks) = k # remdups ks"
  by (induction n) auto

lemma prices_of_flat:
  assumes "distinct (map g_key gs)" and "\<forall>g \<in> set gs. g_ps g \<noteq> []"
  shows "remdups (map r_price (flat h gs)) = map g_key gs"
  using assms
proof (induction gs)
  case (Cons g gs)
  obtain n where n: "length (g_ps g) = Suc n" using Cons.prems(2) by (cases "g_ps g") auto
  have block: "map r_price (map (resting_of h (g_key g)) (g_ps g)) = replicate (Suc n) (g_key g)"
    using n by (simp add: resting_of_def comp_def map_replicate_const)
  have "r_price ` set (flat h gs) \<subseteq> g_key ` set gs" by (force simp: flat_def resting_of_def)
  then have "g_key g \<notin> set (map r_price (flat h gs))" using Cons.prems(1) by auto
  then show ?case
    using Cons remdups_block [of "g_key g" "map r_price (flat h gs)" n]
    unfolding flat_simps(2) map_append block by simp
qed simp

lemma depth_rows_spec:
  assumes inv: "book_inv b F" and vol: "volumes_ok b"
  shows "map (\<lambda>(p, v). (p, unat v)) (depth_rows n (levels b) (side_map sd b)) = take n (spec_depth (abs_book b sd))"
proof -
  obtain G where ok: "layout_ok b G F" and ne: "nonempty_levels G" and S: "abs_book b = flatten b G"
    using book_invE [OF inv] .
  have keys: "remdups (map r_price (abs_book b sd)) = map g_key (G sd)"
    unfolding S flatten_def using layout_keys_distinct [OF ok] ne
    by (intro prices_of_flat) (auto simp: nonempty_levels_def)
  have side: "side_map sd b = map (\<lambda>g. (g_key g, g_lp g)) (G sd)"
    using layout_okD(1) [OF ok, of sd] by (simp add: side_ok_def)
  have "unat (l_totalVolume (levels b (g_lp g))) =
      spec_volume (filter (\<lambda>x. r_price x = g_key g) (abs_book b sd))" if "g \<in> set (G sd)" for g
  proof -
    have "(g_key g, g_lp g) \<in> set (side_map sd b)" using that by (simp add: side)
    then show ?thesis using vol unfolding volumes_ok_def by (metis fst_conv snd_conv)
  qed
  then show ?thesis
    by (simp add: depth_rows_take side spec_depth_def keys take_map comp_def map_prod_def case_prod_beta)
      (auto dest: in_set_takeD)
qed

text \<open>While the level volumes are exact, \<open>printBook\<close> writes the true depth of the market: per side the
  best \<open>maxLevels\<close> distinct prices, each with the quantity resting at it, asks from the highest shown
  down and bids from the best down, and between them the difference of the best prices.\<close>

lemma printBook_depth:
  assumes "book_inv b F" and "volumes_ok b"
  shows "printBook maxLevels b = depth_text (rev (take maxLevels (spec_depth (abs_book b SELL))))
    (case (abs_book b BUY, abs_book b SELL) of (x # _, y # _) \<Rightarrow> Some (r_price y - r_price x) | _ \<Rightarrow> None)
    (take maxLevels (spec_depth (abs_book b BUY)))"
  using depth_rows_spec [OF assms, of maxLevels SELL] depth_rows_spec [OF assms, of maxLevels BUY]
    getSpread_spec [OF assms(1)]
  by (simp add: printBook_def Let_def rev_map [symmetric])

lemma printBook_depth_witness:
  "printBook 5 demo =
     ['''',
      ''------------------ MARKET DEPTH ------------------'',
      '' ASKS (SELLS)'',
      ''   Price:      100 | Vol:    100'',
      ''   ---------------- SPREAD: N/A -------------- '',
      '' BIDS (BUYS)'',
      ''--------------------------------------------------'']"
proof -
  have "price_row (100, 100) = ''   Price:      100 | Vol:    100''" by code_simp
  then show ?thesis
    using printBook_depth [OF demo_facts(1,3), of 5] by (simp add: demo_facts(2) spec_depth_def depth_text_def)
qed

section \<open>The demonstration\<close>

text \<open>
  \<open>clk k\<close> is the clock during the \<open>k\<close>-th call. \<open>None\<close> stands for an exception,
  which nothing here catches.
\<close>

definition main_orders :: "(nat \<Rightarrow> clock) \<Rightarrow> (clock \<times> request) list" where
  "main_orders clk =
     [(clk 1, Add 101 SELL 105 50 LIMIT), (clk 2, Add 102 SELL 106 100 LIMIT), (clk 3, Add 103 SELL 107 200 LIMIT),
      (clk 4, Add 201 BUY 103 70 LIMIT), (clk 5, Add 202 BUY 102 120 LIMIT), (clk 6, Add 203 BUY 100 300 LIMIT)]"

definition trade_row :: "MatchEvent \<Rightarrow> string" where
  "trade_row m = ''      [TRADE] Maker Order #'' @ show_word (makerOrderId m) @
     '' <-> Taker Order #'' @ show_word (takerOrderId m) @
     '' @ Price '' @ show_word (matchPrice m) @ '' | Qty '' @ show_word (matchQuantity m)"

definition lob_main :: "(nat \<Rightarrow> clock) \<Rightarrow> string list option" where
  "lob_main clk = do {
     (b1, reps) \<leftarrow> run_book (main_orders clk) OrderBook_init;
     (b2, rep) \<leftarrow> request_step (clk 7) (Add 301 BUY 106 120 LIMIT) b1;
     if list_ex failed (reps @ [rep]) then None
     else let matches = trades_of rep; (b3, c) = cancelOrder 201 b2 in
       Some (
         [''=================================================='',
          ''  LOB-Engine: C++20 Financial Matching Engine'',
          ''=================================================='',
          '''', ''1. Submitting initial Limit Orders into the Book...''] @
         printBook 5 b1 @
         ['''', ''2. Submitting aggressive Aggressor Buy Order (Price 106, Qty 120)...'',
          ''   -> Matched '' @ decimal (length matches) @ '' trades:''] @
         map trade_row matches @
         printBook 5 b2 @
         ['''', ''3. Canceling Buy Order #201...''] @
         (if c then [''   -> Order #201 successfully canceled in O(1) time.''] else []) @
         printBook 5 b3 @
         ['''', ''Stats Summary:'',
          ''  Total Trades Executed: '' @ show_word (getTotalTradesCount b3),
          ''  Total Volume Traded:   '' @ show_word (getTotalVolumeTraded b3),
          ''  Active Orders Remaining: '' @ decimal (getActiveOrdersCount b3)])
   }"

lemma main_spec: "spec_run (main_orders clk) (\<lambda>_. []) =
    ((\<lambda>_. [])(SELL := [(105, 101, 50), (106, 102, 100), (107, 103, 200)],
       BUY := [(103, 201, 70), (102, 202, 120), (100, 203, 300)]), replicate 6 (Added (Inr [])))"
  by (simp add: main_orders_def spec_add_def spec_ids_def acceptable_def) (simp add: fun_eq_iff numeral_eq_Suc)

text \<open>What the demonstration writes: two trades, a cancel, and the depth after each step.\<close>

lemma demo_rows:
  "price_row (100, 300) = ''   Price:      100 | Vol:    300''" "price_row (102, 120) = ''   Price:      102 | Vol:    120''"
  "price_row (103, 70) = ''   Price:      103 | Vol:     70''" "price_row (105, 50) = ''   Price:      105 | Vol:     50''"
  "price_row (106, 30) = ''   Price:      106 | Vol:     30''" "price_row (106, 100) = ''   Price:      106 | Vol:    100''"
  "price_row (107, 200) = ''   Price:      107 | Vol:    200''"
  by code_simp+

lemma demo_numbers:
  "show_word (2 :: u64) = ''2''" "show_word (3 :: u64) = ''3''" "show_word (4 :: u64) = ''4''"
  "show_word (120 :: u64) = ''120''" "decimal (Suc (Suc 0)) = ''2''" "decimal 4 = ''4''"
  by code_simp+

lemma demo_trades:
  "map trade_row (mk_events clk 301 n [(105, 101, 50), (106, 102, 70)]) =
     [''      [TRADE] Maker Order #101 <-> Taker Order #301 @ Price 105 | Qty 50'',
      ''      [TRADE] Maker Order #102 <-> Taker Order #301 @ Price 106 | Qty 70'']"
proof -
  have "show_word (301 :: u64) = ''301''" "show_word (101 :: u64) = ''101''" "show_word (102 :: u64) = ''102''"
    "show_word (105 :: u64) = ''105''" "show_word (106 :: u64) = ''106''" "show_word (50 :: u32) = ''50''"
    "show_word (70 :: u32) = ''70''" by code_simp+
  then show ?thesis by (simp add: trade_row_def)
qed

lemma lob_main_shows:
  "lob_main clk = Some
     [''=================================================='',
      ''  LOB-Engine: C++20 Financial Matching Engine'',
      ''=================================================='',
      '''', ''1. Submitting initial Limit Orders into the Book...'',
      '''', ''------------------ MARKET DEPTH ------------------'',
      '' ASKS (SELLS)'',
      ''   Price:      107 | Vol:    200'', ''   Price:      106 | Vol:    100'', ''   Price:      105 | Vol:     50'',
      ''   ---------------- SPREAD: 2 --------------- '',
      '' BIDS (BUYS)'',
      ''   Price:      103 | Vol:     70'', ''   Price:      102 | Vol:    120'', ''   Price:      100 | Vol:    300'',
      ''--------------------------------------------------'',
      '''', ''2. Submitting aggressive Aggressor Buy Order (Price 106, Qty 120)...'',
      ''   -> Matched 2 trades:'',
      ''      [TRADE] Maker Order #101 <-> Taker Order #301 @ Price 105 | Qty 50'',
      ''      [TRADE] Maker Order #102 <-> Taker Order #301 @ Price 106 | Qty 70'',
      '''', ''------------------ MARKET DEPTH ------------------'',
      '' ASKS (SELLS)'',
      ''   Price:      107 | Vol:    200'', ''   Price:      106 | Vol:     30'',
      ''   ---------------- SPREAD: 3 --------------- '',
      '' BIDS (BUYS)'',
      ''   Price:      103 | Vol:     70'', ''   Price:      102 | Vol:    120'', ''   Price:      100 | Vol:    300'',
      ''--------------------------------------------------'',
      '''', ''3. Canceling Buy Order #201...'',
      ''   -> Order #201 successfully canceled in O(1) time.'',
      '''', ''------------------ MARKET DEPTH ------------------'',
      '' ASKS (SELLS)'',
      ''   Price:      107 | Vol:    200'', ''   Price:      106 | Vol:     30'',
      ''   ---------------- SPREAD: 4 --------------- '',
      '' BIDS (BUYS)'',
      ''   Price:      102 | Vol:    120'', ''   Price:      100 | Vol:    300'',
      ''--------------------------------------------------'',
      '''', ''Stats Summary:'',
      ''  Total Trades Executed: 2'', ''  Total Volume Traded:   120'', ''  Active Orders Remaining: 4'']"
proof -
  let ?S1 = "(\<lambda>_. [])(SELL := [(105, 101, 50), (106, 102, 100), (107, 103, 200)],
       BUY := [(103, 201, 70), (102, 202, 120), (100, 203, 300)]) :: spec_book"
  let ?fills = "[(105, 101, 50), (106, 102, 70)] :: resting list"
  obtain b1 where b1: "run_book (main_orders clk) OrderBook_init = Some (b1, replicate 6 (Added (Inr [])))"
    "book_inv b1 {#}" "abs_book b1 = ?S1" "totalTradesCount b1 = 0" "totalVolumeTraded b1 = 0" "volumes_ok b1"
    "caps b1 = (DEFAULT_MAX_ORDERS, DEFAULT_MAX_LEVELS)"
    using run_refines_init [of DEFAULT_MAX_ORDERS "main_orders clk" DEFAULT_MAX_LEVELS] main_spec [of clk]
    by (auto simp: OrderBook_init_def DEFAULT_MAX_ORDERS_def DEFAULT_MAX_LEVELS_def main_orders_def)
  have room: "0 < available (orderPool b1)" "0 < available (levelPool b1)"
    using order_slots [OF b1(2)] level_slots [OF b1(2)] b1(3,7)
    by (simp_all add: caps_def spec_count_def spec_levels_def spec_prices_def DEFAULT_MAX_ORDERS_def DEFAULT_MAX_LEVELS_def)
  have add: "spec_add 301 BUY 106 120 LIMIT ?S1 =
      (?S1(SELL := [(106, 102, 30), (107, 103, 200)]), ?fills)"
    by (simp add: spec_add_def spec_ids_def acceptable_def)
  from step_refines [OF b1(2) room, of "clk 7" "Add 301 BUY 106 120 LIMIT"] obtain b2 where
    b2: "request_step (clk 7) (Add 301 BUY 106 120 LIMIT) b1 = Some (b2, Added (Inr (mk_events (clk 7) 301 0 ?fills)))"
      "book_inv b2 {#}" "abs_book b2 = ?S1(SELL := [(106, 102, 30), (107, 103, 200)])"
      "totalTradesCount b2 = 2" "totalVolumeTraded b2 = 120" "volumes_ok b2"
    using b1(3-6) add by (auto simp: spec_total_def)
  have "201 \<in> spec_ids (abs_book b2)" by (simp add: b2(3) spec_ids_def)
  then obtain b3 where b3: "cancelOrder 201 b2 = (b3, True)" "book_inv b3 {#}"
    "abs_book b3 = spec_cancel 201 (abs_book b2)" "volumes_ok b3" "totalTradesCount b3 = 2" "totalVolumeTraded b3 = 120"
    using cancelOrder_ok [OF b2(2), of 201] b2(4-6) by metis
  have S3: "abs_book b3 BUY = [(102, 202, 120), (100, 203, 300)]" "abs_book b3 SELL = [(106, 102, 30), (107, 103, 200)]"
    by (simp_all add: b3(3) b2(3) spec_cancel_def)
  have count: "getActiveOrdersCount b3 = 4"
    using active_count [OF b3(2)] S3 by (simp add: getActiveOrdersCount_def spec_count_def)
  note spread = getSpread_spec [OF b1(2)] getSpread_spec [OF b2(2)] getSpread_spec [OF b3(2)]
  have print: "printBook 5 b1 = depth_text [(107, 200), (106, 100), (105, 50)] (Some 2) [(103, 70), (102, 120), (100, 300)]"
    "printBook 5 b2 = depth_text [(107, 200), (106, 30)] (Some 3) [(103, 70), (102, 120), (100, 300)]"
    "printBook 5 b3 = depth_text [(107, 200), (106, 30)] (Some 4) [(102, 120), (100, 300)]"
    using depth_rows_spec [OF b1(2,6), of 5 BUY] depth_rows_spec [OF b1(2,6), of 5 SELL]
      depth_rows_spec [OF b2(2,6), of 5 BUY] depth_rows_spec [OF b2(2,6), of 5 SELL]
      depth_rows_spec [OF b3(2,4), of 5 BUY] depth_rows_spec [OF b3(2,4), of 5 SELL] spread
    by (simp_all add: printBook_def rev_map [symmetric] b1(3) b2(3) S3 spec_depth_def)
  have "\<not> list_ex failed (replicate 6 (Added (Inr [])))" by (simp add: list_ex_iff)
  then show ?thesis
    using b1(1) b2(1) b3(1,5,6) count demo_trades [of "clk 7" 0]
    by (simp add: lob_main_def print depth_text_def demo_rows demo_numbers
        getTotalTradesCount_def getTotalVolumeTraded_def)
qed

section \<open>The workload of the benchmark\<close>

text \<open>The ids a sequence of requests adds, and what a call can make active.\<close>

fun added_ids :: "request \<Rightarrow> OrderId set" where
  "added_ids (Add i sd p q ty) = {i}"
| "added_ids (Cancel i) = {}"

lemma spec_add_ids:
  assumes "spec_inv S"
  shows "spec_ids (fst (spec_add i sd p q ty S)) \<subseteq> insert i (spec_ids S)"
proof (cases "q = 0 \<or> i \<in> spec_ids S")
  case True
  then show ?thesis by (auto simp: spec_add_def)
next
  case False
  obtain r os fs where sw: "sweep (acceptable ty sd p) q (S (opposite sd)) = (r, os, fs)" by (metis prod_cases3)
  have sub: "spec_ids (S(opposite sd := os)) \<subseteq> spec_ids S" by (rule spec_inv_sweep(2) [OF assms sw])
  have "spec_ids (S(opposite sd := os, sd := insert_resting sd (p, i, r) (S sd))) \<subseteq> insert i (spec_ids (S(opposite sd := os)))"
    by (cases sd) (auto simp: spec_ids_def)
  with sub show ?thesis using spec_add_unfold [of q i S ty sd p r os fs] False sw by auto
qed

lemma step_ids:
  assumes inv: "book_inv b F" and step: "request_step clk req b = Some (b', rep)"
  shows "spec_ids (abs_book b') \<subseteq> spec_ids (abs_book b) \<union> added_ids req"
    and "req = Cancel i \<Longrightarrow> rep = Canceled (i \<in> spec_ids (abs_book b))"
proof -
  have sinv: "spec_inv (abs_book b)" using inv by (simp add: book_inv_def)
  show "spec_ids (abs_book b') \<subseteq> spec_ids (abs_book b) \<union> added_ids req"
  proof (cases req)
    case (Add i sd p q ty)
    from inv show ?thesis
    proof (cases rule: addOrder_cases [where clk = clk and i = i and sd = sd and p = p and q = q and ty = ty])
      case (leaked b1 t r os fs)
      then show ?thesis using Add step spec_inv_sweep(2) [OF sinv leaked(4)] by auto
    next
      case (processed b1 fs)
      then show ?thesis using Add step spec_add_ids [OF sinv, of i sd p q ty] by auto
    qed (use Add step in auto)
  next
    case (Cancel i)
    obtain b1 where "cancelOrder i b = (b1, i \<in> spec_ids (abs_book b))" "abs_book b1 = spec_cancel i (abs_book b)"
      using cancelOrder_ok [OF inv, of i] by metis
    then have "abs_book b' = spec_cancel i (abs_book b)" using step Cancel by simp
    then show ?thesis by (auto simp: spec_cancel_def spec_ids_def)
  qed
  show "rep = Canceled (i \<in> spec_ids (abs_book b))" if "req = Cancel i"
  proof -
    obtain b1 where "cancelOrder i b = (b1, i \<in> spec_ids (abs_book b))"
      using cancelOrder_ok [OF inv, of i] by metis
    then show ?thesis using step that by simp
  qed
qed

text \<open>A cancel of an id that is not active at the start and that no earlier request adds answers no.\<close>

lemma unknown_cancels:
  assumes "book_inv b F" and "run_book reqs b = Some (b', reps)"
  shows "length reps = length reqs \<and> (\<forall>k i. k < length reqs \<and> snd (reqs ! k) = Cancel i \<and>
     i \<notin> spec_ids (abs_book b) \<and> (\<forall>j < k. i \<notin> added_ids (snd (reqs ! j))) \<longrightarrow> reps ! k = Canceled False)"
  using assms
proof (induction reqs arbitrary: b F reps)
  case (Cons x reqs)
  obtain clk req where x: "x = (clk, req)" by (cases x)
  from step_ok [OF Cons.prems(1), of clk req] obtain b1 rep F1 where
    one: "request_step clk req b = Some (b1, rep)" "book_inv b1 F1" by metis
  from Cons.prems(2) obtain reps1 where
    rest: "run_book reqs b1 = Some (b', reps1)" "reps = rep # reps1"
    using x one by (cases "run_book reqs b1") auto
  note ids = step_ids [OF Cons.prems(1) one(1)] and IH = Cons.IH [OF one(2) rest(1)]
  show ?case
  proof (intro conjI allI impI)
    show "length reps = length (x # reqs)" using IH rest(2) by simp
    fix k i
    assume k: "k < length (x # reqs) \<and> snd ((x # reqs) ! k) = Cancel i \<and>
      i \<notin> spec_ids (abs_book b) \<and> (\<forall>j < k. i \<notin> added_ids (snd ((x # reqs) ! j)))"
    show "reps ! k = Canceled False"
    proof (cases k)
      case 0
      then show ?thesis using k ids(2) [of i] x rest(2) by simp
    next
      case (Suc k')
      have "i \<notin> added_ids req" using k Suc x by (metis nth_Cons_0 snd_conv zero_less_Suc)
      then have "i \<notin> spec_ids (abs_book b1)" using ids(1) k by blast
      moreover have "i \<notin> added_ids (snd (reqs ! j))" if "j < k'" for j
        using k Suc that by (metis Suc_less_eq nth_Cons_Suc)
      ultimately show ?thesis using k IH Suc rest(2) by simp
    qed
  qed
qed simp

text \<open>
  The operation of round \<open>i\<close> (from 1). The random side, price and quantity of the round are
  arguments, so what is proved holds for every seed.
\<close>

definition bench_request :: "(nat \<Rightarrow> Side) \<Rightarrow> (nat \<Rightarrow> Price) \<Rightarrow> (nat \<Rightarrow> Quantity) \<Rightarrow> nat \<Rightarrow> request" where
  "bench_request side price qty i =
     (if i mod 5 = 0 \<and> i > 10 then Cancel (of_nat i - 5) else Add (of_nat i) (side i) (price i) (qty i) LIMIT)"

definition bench_requests ::
  "(nat \<Rightarrow> clock) \<Rightarrow> (nat \<Rightarrow> Side) \<Rightarrow> (nat \<Rightarrow> Price) \<Rightarrow> (nat \<Rightarrow> Quantity) \<Rightarrow> nat \<Rightarrow> (clock \<times> request) list" where
  "bench_requests clk side price qty n = map (\<lambda>i. (clk i, bench_request side price qty i)) [1..<Suc n]"

text \<open>C39. The benchmark's cancels cancel nothing: from round 20 on a cancel names the id of a round that was
  itself a cancel, so that id was never added, and \<open>cancelOrder\<close> returns false, for every seed
  and any number of rounds. The workload measured is one of additions and failed lookups.\<close>

theorem benchmark_cancels_nothing:
  assumes "n < 2 ^ 64"
  shows "\<exists>b reps. run_book (bench_requests clk side price qty n) OrderBook_init = Some (b, reps) \<and> length reps = n \<and>
    (\<forall>i. 20 \<le> i \<and> i \<le> n \<and> i mod 5 = 0 \<longrightarrow> reps ! (i - 1) = Canceled False)"
proof -
  let ?reqs = "bench_requests clk side price qty n"
  have inv: "book_inv OrderBook_init {#}"
    unfolding OrderBook_init_def by (rule book_inv_init) (simp add: DEFAULT_MAX_ORDERS_def)
  have empty: "spec_ids (abs_book OrderBook_init) = {}"
    by (simp add: OrderBook_init_def abs_book_init spec_ids_def)
  have len: "length ?reqs = n" by (simp add: bench_requests_def)
  have nth: "snd (?reqs ! j) = bench_request side price qty (Suc j)" if "j < n" for j
    using that by (simp add: bench_requests_def del: upt_Suc)
  obtain b reps where run: "run_book ?reqs OrderBook_init = Some (b, reps)" using run_ok [OF inv] by metis
  note cancels = unknown_cancels [OF inv run]
  have "reps ! (i - 1) = Canceled False" if i: "20 \<le> i" "i \<le> n" "i mod 5 = 0" for i
  proof -
    have s: "Suc (i - 1) = i" "i - 1 < n" "10 < i" using i(1,2) by arith+
    have word: "(of_nat i :: u64) - 5 = of_nat (i - 5)" using of_nat_diff [of 5 i, where ?'a = u64] i(1) by simp
    have "snd (?reqs ! (i - 1)) = Cancel (of_nat (i - 5))"
      unfolding nth [OF s(2)] s(1) bench_request_def word [symmetric] using i(3) s(3) by (simp only: simp_thms if_True)
    moreover have "of_nat (i - 5) \<notin> added_ids (snd (?reqs ! j))" if j: "j < i - 1" for j
    proof -
      have jn: "j < n" using j s by arith
      show ?thesis
      proof (cases "Suc j = i - 5")
        case True
        then have "Suc j mod 5 = 0" "Suc j > 10" using i by presburger+
        then have "bench_request side price qty (Suc j) = Cancel (of_nat (Suc j) - 5)"
          unfolding bench_request_def by (simp only: simp_thms if_True)
        then show ?thesis unfolding nth [OF jn] by (simp only: added_ids.simps empty_iff not_False_eq_True)
      next
        case False
        have "i - 5 < 2 ^ LENGTH(64)" "Suc j < 2 ^ LENGTH(64)" using j i assms by simp_all
        then have "unat (of_nat (i - 5) :: u64) = i - 5" "unat (of_nat (Suc j) :: u64) = Suc j"
          by (simp_all only: unat_of_nat mod_less)
        then have "(of_nat (i - 5) :: u64) \<noteq> of_nat (Suc j)" using False by metis
        then show ?thesis unfolding nth [OF jn] bench_request_def by (cases "Suc j mod 5 = 0 \<and> 10 < Suc j") (simp_all del: of_nat_Suc)
      qed
    qed
    moreover have "of_nat (i - 5) \<notin> spec_ids (abs_book OrderBook_init)" unfolding empty by blast
    ultimately show ?thesis using cancels s(2) unfolding len by blast
  qed
  then show ?thesis using run cancels len by auto
qed

text \<open>The witness: the 500,000 rounds of the program.\<close>

theorem benchmark_cancels_nothing_witness:
  "\<exists>b reps. run_book (bench_requests (\<lambda>_. no_clock) (\<lambda>_. BUY) (\<lambda>_. 100) (\<lambda>_. 1) 500000) OrderBook_init = Some (b, reps) \<and>
     reps ! 19 = Canceled False"
proof -
  have "(500000 :: nat) < 2 ^ 64" by simp
  from benchmark_cancels_nothing [OF this, of "\<lambda>_. no_clock" "\<lambda>_. BUY" "\<lambda>_. 100" "\<lambda>_. 1"] obtain b reps where
    r: "run_book (bench_requests (\<lambda>_. no_clock) (\<lambda>_. BUY) (\<lambda>_. 100) (\<lambda>_. 1) 500000) OrderBook_init = Some (b, reps)"
      "\<And>i. 20 \<le> i \<and> i \<le> 500000 \<and> i mod 5 = 0 \<Longrightarrow> reps ! (i - 1) = Canceled False" by blast
  from r(2) [of 20] have "reps ! 19 = Canceled False" by simp
  with r(1) show ?thesis by (intro exI conjI)
qed

section \<open>The program of the benchmark\<close>

text \<open>\<open>tick n\<close> is the \<open>n\<close>-th reading of the clock, in nanoseconds: one at the start, two around
  each operation, one at the end.\<close>

definition NUM_OPERATIONS :: nat where "NUM_OPERATIONS = 500000"

record bench_report =
  totalSec :: rat
  meanNs :: rat
  bp50 :: rat
  bp90 :: rat
  bp99 :: rat
  bp999 :: rat

definition bench_latencies :: "(nat \<Rightarrow> int) \<Rightarrow> nat \<Rightarrow> rat list" where
  "bench_latencies tick n = map (\<lambda>i. of_int (tick (2 * i) - tick (2 * i - 1))) [1..<Suc n]"

definition bench_results :: "(nat \<Rightarrow> int) \<Rightarrow> nat \<Rightarrow> bench_report" where
  "bench_results tick n =
     (let latenciesNs = sort (bench_latencies tick n) in
      \<lparr>totalSec = of_int (tick (2 * n + 1) - tick 0) / 10 ^ 9,
       meanNs = sum_list latenciesNs / of_nat (length latenciesNs),
       bp50 = quantile 50 100 latenciesNs, bp90 = quantile 90 100 latenciesNs,
       bp99 = quantile 99 100 latenciesNs, bp999 = quantile 999 1000 latenciesNs\<rparr>)"

definition ns_line :: "string \<Rightarrow> rat \<Rightarrow> string" where
  "ns_line label ns = label @ fixed 2 ns @ '' ns ('' @ fixed 2 (ns / 1000) @ '' us)''"

definition bench_text :: "nat \<Rightarrow> bench_report \<Rightarrow> string list" where
  "bench_text n r =
    [''======================================================'',
     ''                BENCHMARK RESULTS                     '',
     ''======================================================'',
     ''Total Time Elapsed:   '' @ fixed 4 (totalSec r) @ '' seconds'',
     ''Throughput:           '' @ (if totalSec r = 0 then ''inf'' else fixed 2 (of_nat n / totalSec r)) @ '' ops/sec'',
     ''------------------------------------------------------'',
     ''Latency Distribution Profile:'',
     ns_line ''  Mean Latency:       '' (meanNs r),
     ns_line ''  50th %ile (p50):    '' (bp50 r),
     ns_line ''  90th %ile (p90):    '' (bp90 r),
     ns_line ''  99th %ile (p99):    '' (bp99 r),
     ns_line ''  99.9th %ile (p99.9): '' (bp999 r),
     ''======================================================'',
     '''']"

text \<open>\<open>None\<close> stands for an exception of an order, which ends the program.\<close>

definition bench_main ::
  "(nat \<Rightarrow> clock) \<Rightarrow> (nat \<Rightarrow> Side) \<Rightarrow> (nat \<Rightarrow> Price) \<Rightarrow> (nat \<Rightarrow> Quantity) \<Rightarrow> (nat \<Rightarrow> int) \<Rightarrow> string list option" where
  "bench_main clk side price qty tick = do {
     (b, reps) \<leftarrow> run_book (bench_requests clk side price qty NUM_OPERATIONS) OrderBook_init;
     if list_ex failed reps then None
     else Some (
       ['''',
        ''======================================================'',
        ''  LOB-Engine High-Frequency Latency Benchmark'',
        ''======================================================'',
        ''Workload: '' @ decimal NUM_OPERATIONS @ '' order operations'',
        ''Benchmarking hot path execution latency...'',
        ''''] @ bench_text NUM_OPERATIONS (bench_results tick NUM_OPERATIONS))
   }"

text \<open>Each percentile is the latency of an operation that was measured, and they are in order.\<close>

lemma bench_percentiles:
  assumes "0 < n"
  shows "{bp50 (bench_results tick n), bp90 (bench_results tick n), bp99 (bench_results tick n), bp999 (bench_results tick n)}
      \<subseteq> set (bench_latencies tick n)"
    and "bp50 (bench_results tick n) \<le> bp90 (bench_results tick n)"
    and "bp90 (bench_results tick n) \<le> bp99 (bench_results tick n)"
proof -
  have ne: "bench_latencies tick n \<noteq> []" using assms by (simp add: bench_latencies_def)
  show "{bp50 (bench_results tick n), bp90 (bench_results tick n), bp99 (bench_results tick n), bp999 (bench_results tick n)}
      \<subseteq> set (bench_latencies tick n)"
    using quantile_mem [OF ne] by (simp add: bench_results_def Let_def)
  show "bp50 (bench_results tick n) \<le> bp90 (bench_results tick n)" "bp90 (bench_results tick n) \<le> bp99 (bench_results tick n)"
    using quantile_mono [OF ne] by (simp_all add: bench_results_def Let_def)
qed

end
