(* ===== verification/Lob_Wf.thy ===== *)
theory Lob_Wf
  imports Lob_Props
begin

text \<open>
  The well-formed states of an order book, as a predicate that computes: it follows the pointers
  from the maps and inspects what it finds, without the specification and without a layout. Every
  book that the program reaches passes it.
\<close>

section \<open>The predicate\<close>

text \<open>The slots of a level, from its head along \<open>next\<close>, and those of all levels.\<close>

definition level_queue :: "OrderBook \<Rightarrow> level_ptr \<Rightarrow> order_ptr list" where
  "level_queue b lp = walk (poolCapacity (orderPool b)) (orders b) (l_head (levels b lp))"

definition used_orders :: "OrderBook \<Rightarrow> order_ptr list" where
  "used_orders b = concat (map (level_queue b) (map snd (bids b @ asks b)))"

definition used_levels :: "OrderBook \<Rightarrow> level_ptr list" where
  "used_levels b = map snd (bids b @ asks b)"

text \<open>
  A resting order points back to its level, agrees with it on side and price, is a limit order
  with something left, and is what \<open>orderMap\<close> finds under its id.
\<close>

definition wf_order :: "OrderBook \<Rightarrow> Side \<Rightarrow> Price \<Rightarrow> level_ptr \<Rightarrow> order_ptr \<Rightarrow> bool" where
  "wf_order b sd k lp p = (let x = orders b p in
     o_level x = Some lp \<and> o_price x = k \<and> o_side x = sd \<and> o_type x = LIMIT \<and>
     o_remainingQty x \<noteq> 0 \<and> map_of (orderMap b) (o_id x) = Some p)"

text \<open>
  A level in a map has the price of its key and holds at least one order; its queue is linked
  both ways from head to tail, and its count is the length of the queue.
\<close>

definition wf_level :: "OrderBook \<Rightarrow> Side \<Rightarrow> Price \<times> level_ptr \<Rightarrow> bool" where
  "wf_level b sd e = (case e of (k, lp) \<Rightarrow>
     let l = levels b lp; ps = level_queue b lp
     in l_price l = k \<and> ps \<noteq> [] \<and> l_head l = Some (hd ps) \<and> l_tail l = Some (last ps) \<and>
        dseg (orders b) None ps None \<and> l_orderCount l = of_nat (length ps) \<and>
        list_all (wf_order b sd k lp) ps)"

text \<open>No slot is out of range, used twice, or both used and on the free list.\<close>

definition wf_slots :: "nat list \<Rightarrow> 'a ObjectPool \<Rightarrow> bool" where
  "wf_slots used pool \<longleftrightarrow> distinct (used @ freeList pool) \<and>
     list_all (\<lambda>p. p < poolCapacity pool) (used @ freeList pool)"

definition wf_book :: "OrderBook \<Rightarrow> bool" where
  "wf_book b \<longleftrightarrow>
     sorted_wrt (>) (map fst (bids b)) \<and> list_all (wf_level b BUY) (bids b) \<and>
     sorted_wrt (<) (map fst (asks b)) \<and> list_all (wf_level b SELL) (asks b) \<and>
     wf_slots (used_orders b) (orderPool b) \<and> wf_slots (used_levels b) (levelPool b) \<and>
     distinct (map fst (orderMap b)) \<and> length (orderMap b) = length (used_orders b)"

section \<open>The invariant of the book implies it\<close>

lemma layout_queue:
  assumes "layout_ok b G F" and "g \<in> set (G sd)"
  shows "level_queue b (g_lp g) = g_ps g"
  unfolding level_queue_def
proof (rule walk_level)
  show "level_ok (orders b) (levels b (g_lp g)) (g_ps g)"
    using layout_okD(1) [OF assms(1), of sd] assms(2) by (simp add: side_ok_def glevel_ok_def)
qed (rule layout_queue_length [OF assms])

lemma layout_side: "layout_ok b G F \<Longrightarrow> side_map sd b = map (\<lambda>g. (g_key g, g_lp g)) (G sd)"
  using layout_okD(1) by (simp add: side_ok_def)

lemma layout_used_orders:
  assumes "layout_ok b G F"
  shows "mset (used_orders b) = live G"
proof -
  have side: "map (level_queue b) (map snd (side_map sd b)) = map g_ps (G sd)" for sd
    using layout_queue [OF assms, of _ sd] by (simp add: layout_side [OF assms])
  have "used_orders b = concat (map g_ps (G BUY)) @ concat (map g_ps (G SELL))"
    using side [of BUY] side [of SELL] by (simp only: used_orders_def side_map_simps map_append concat_append)
  then show ?thesis by (simp add: live_def g_orders_def)
qed

lemma layout_used_levels:
  assumes "layout_ok b G F"
  shows "mset (used_levels b) = live_levels G"
proof -
  have side: "map snd (side_map sd b) = map g_lp (G sd)" for sd
    by (simp add: layout_side [OF assms])
  show ?thesis
    using side [of BUY] side [of SELL] by (simp add: used_levels_def live_levels_def g_levels_def)
qed

lemma wf_slots_pool:
  assumes "pool_ok P (mset used + F)"
  shows "wf_slots used P"
proof -
  obtain fs where "F = mset fs" by (metis ex_mset)
  then have all: "mset (used @ freeList P @ fs) = mset [0..<poolCapacity P]"
    using assms by (simp add: pool_ok_def ac_simps)
  have "distinct (used @ freeList P @ fs)"
    using mset_eq_imp_distinct_iff [OF all] by simp
  moreover have "set (used @ freeList P @ fs) = {0..<poolCapacity P}"
    using mset_eq_setD [OF all] by simp
  ultimately show ?thesis by (auto simp: wf_slots_def list_all_iff)
qed

lemma wf_level_layout:
  assumes ok: "layout_ok b G F" and ne: "nonempty_levels G" and sinv: "spec_inv (flatten b G)"
    and g: "g \<in> set (G sd)"
  shows "wf_level b sd (g_key g, g_lp g)"
proof -
  have lev: "glevel_ok (orders b) (levels b) sd g"
    using layout_okD(1) [OF ok, of sd] g by (simp add: side_ok_def)
  have ps: "level_queue b (g_lp g) = g_ps g" by (rule layout_queue [OF ok g])
  have "g_ps g \<noteq> []" using nonempty_levelsD [OF ne g] .
  then have ends: "first_or None (g_ps g) = Some (hd (g_ps g))" "last_or None (g_ps g) = Some (last (g_ps g))"
    by (auto simp: neq_Nil_conv last_or_def)
  have "wf_order b sd (g_key g) (g_lp g) p" if p: "p \<in> set (g_ps g)" for p
  proof -
    have "resting_of (orders b) (g_key g) p \<in> set (flatten b G sd)"
      using g p by (auto simp: flatten_def flat_def)
    moreover have "\<And>x. x \<in> set (flatten b G sd) \<Longrightarrow> r_qty x \<noteq> 0" using sinv by (simp add: spec_inv_def)
    ultimately have "o_remainingQty (orders b p) \<noteq> 0" by (force simp: resting_of_def)
    moreover have "p \<in># live G" using g p by (auto simp: live_side [of G sd] in_g_orders)
    then have "map_of (orderMap b) (o_id (orders b p)) = Some p" using orderMap_find [OF ok] by blast
    ultimately show ?thesis using lev p by (auto simp: wf_order_def glevel_ok_def)
  qed
  then show ?thesis
    using lev \<open>g_ps g \<noteq> []\<close> ends by (simp add: wf_level_def ps glevel_ok_def level_ok_def list_all_iff)
qed

lemma book_inv_wf:
  assumes "book_inv b F"
  shows "wf_book b"
proof -
  obtain G where ok: "layout_ok b G F" and ne: "nonempty_levels G" and sinv: "spec_inv (flatten b G)"
    using book_invE [OF assms] .
  have side: "sorted_wrt (better sd) (map fst (side_map sd b)) \<and> list_all (wf_level b sd) (side_map sd b)" for sd
    using layout_okD(1) [OF ok, of sd] wf_level_layout [OF ok ne sinv]
    by (auto simp: side_ok_def list_all_iff comp_def)
  have "wf_slots (used_orders b) (orderPool b)"
    using layout_okD(2) [OF ok] by (intro wf_slots_pool) (simp add: layout_used_orders [OF ok])
  moreover have "wf_slots (used_levels b) (levelPool b)"
    using layout_okD(3) [OF ok] by (intro wf_slots_pool [where F = "{#}"]) (simp add: layout_used_levels [OF ok])
  moreover have map: "distinct (map fst (orderMap b))"
    "mset (orderMap b) = image_mset (\<lambda>p. (o_id (orders b p), p)) (live G)"
    using layout_okD(5) [OF ok] by (auto simp: map_ok_def)
  moreover have "length (orderMap b) = length (used_orders b)"
    using arg_cong [OF map(2), of size] layout_used_orders [OF ok] by (metis size_image_mset size_mset)
  ultimately show ?thesis using side [of BUY] side [of SELL] by (simp add: wf_book_def)
qed

section \<open>The property\<close>

text \<open>C4. Well-formed states: over pools of any sizes, every sequence of calls, with the pools exhausted or not,
  leaves a book in which all pointers are right. Both maps are sorted; each level has the price of
  its key, and its queue is not empty, linked both ways and counted; each order in it points back to its
  level and is found by its id; no slot is used twice or used and free, so nothing that was freed can still be reached.\<close>

theorem reachable_books_wf:
  assumes "n < 2 ^ 64"
  shows "\<exists>b reps. run_book reqs (book_init n m) = Some (b, reps) \<and> wf_book b"
  using run_ok [OF book_inv_init [OF assms], of reqs] book_inv_wf by blast

theorem reachable_books_wf_witness: "wf_book demo"
proof -
  have "\<exists>b reps. run_book demo_requests (book_init 8 4) = Some (b, reps) \<and> wf_book b"
    by (rule reachable_books_wf) simp
  then show ?thesis by (auto simp: demo_def)
qed

end
