(* ===== verification/Fifo.thy ===== *)
theory Fifo
  imports Prelude
begin

text \<open>
  The contract of a first-in first-out queue whose \<open>enq\<close> may refuse an element: what the
  single-producer single-consumer ring of the matching engine promises its user. The client's
  lemma is proved once: over any sequence of calls, what came out followed by what is still inside
  is what was inside followed by what went in. A bounded queue accepts until it is full; any sequence of
  calls on it does what it does on a list of that capacity (\<open>list_enq\<close>, \<open>list_deq\<close>).
\<close>

datatype 'a fifo_op = Enq 'a | Deq

text \<open>A sequence of calls: the queue it leaves, the elements accepted, the elements taken out.\<close>

fun fifo_run :: "('a \<Rightarrow> 'q \<Rightarrow> bool \<times> 'q) \<Rightarrow> ('q \<Rightarrow> 'a option \<times> 'q) \<Rightarrow>
    'a fifo_op list \<Rightarrow> 'q \<Rightarrow> 'q \<times> 'a list \<times> 'a list" where
  "fifo_run enq deq [] q = (q, [], [])"
| "fifo_run enq deq (Enq v # ops) q = (let (acc, q1) = enq v q; (q2, ins, outs) = fifo_run enq deq ops q1
     in (q2, (if acc then v # ins else ins), outs))"
| "fifo_run enq deq (Deq # ops) q = (let (x, q1) = deq q; (q2, ins, outs) = fifo_run enq deq ops q1
     in (q2, ins, (case x of None \<Rightarrow> outs | Some y \<Rightarrow> y # outs)))"

locale fifo =
  fixes enq :: "'a \<Rightarrow> 'q \<Rightarrow> bool \<times> 'q"
    and deq :: "'q \<Rightarrow> 'a option \<times> 'q"
    and contents :: "'q \<Rightarrow> 'a list"
    and accepts :: "'q \<Rightarrow> bool"
    and ok :: "'q \<Rightarrow> bool"
  assumes enq_result: "ok q \<Longrightarrow> fst (enq v q) = accepts q"
    and enq_ok: "ok q \<Longrightarrow> accepts q \<Longrightarrow> ok (snd (enq v q))"
    and enq_back: "ok q \<Longrightarrow> accepts q \<Longrightarrow> contents (snd (enq v q)) = contents q @ [v]"
    and enq_refuse: "ok q \<Longrightarrow> \<not> accepts q \<Longrightarrow> enq v q = (False, q)"
    and deq_empty: "ok q \<Longrightarrow> contents q = [] \<Longrightarrow> deq q = (None, q)"
    and deq_front: "ok q \<Longrightarrow> contents q = x # xs \<Longrightarrow>
        fst (deq q) = Some x \<and> ok (snd (deq q)) \<and> contents (snd (deq q)) = xs"
begin

lemma run_fifo:
  "ok q \<Longrightarrow> fifo_run enq deq ops q = (q', ins, outs) \<Longrightarrow> ok q' \<and> contents q @ ins = outs @ contents q'"
proof (induction ops arbitrary: q q' ins outs)
  case Nil
  then show ?case by simp
next
  case (Cons op ops)
  show ?case
  proof (cases op)
    case (Enq v)
    obtain acc q1 where e: "enq v q = (acc, q1)" by (cases "enq v q")
    obtain q2 ins1 outs1 where r: "fifo_run enq deq ops q1 = (q2, ins1, outs1)"
      by (cases "fifo_run enq deq ops q1") auto
    have res: "q' = q2" "ins = (if acc then v # ins1 else ins1)" "outs = outs1"
      using Cons.prems(2) by (simp_all add: Enq e r)
    show ?thesis
    proof (cases "accepts q")
      case True
      have q1: "ok q1" "contents q1 = contents q @ [v]" and "acc"
        using enq_ok [OF Cons.prems(1) True, of v] enq_back [OF Cons.prems(1) True, of v]
          enq_result [OF Cons.prems(1), of v] True by (simp_all add: e)
      from Cons.IH [OF q1(1) r] q1(2) res \<open>acc\<close> show ?thesis by simp
    next
      case False
      then have "acc = False" "q1 = q" using enq_refuse [OF Cons.prems(1), of v] e by simp_all
      with Cons.IH [OF _ r] Cons.prems(1) res show ?thesis by simp
    qed
  next
    case Deq
    obtain x q1 where d: "deq q = (x, q1)" by (cases "deq q")
    obtain q2 ins1 outs1 where r: "fifo_run enq deq ops q1 = (q2, ins1, outs1)"
      by (cases "fifo_run enq deq ops q1") auto
    have res: "q' = q2" "ins = ins1" "outs = (case x of None \<Rightarrow> outs1 | Some y \<Rightarrow> y # outs1)"
      using Cons.prems(2) by (simp_all add: Deq d r)
    show ?thesis
    proof (cases "contents q")
      case Nil
      then have "x = None" "q1 = q" using deq_empty [OF Cons.prems(1)] d by simp_all
      with Cons.IH [OF _ r] Cons.prems(1) res show ?thesis by simp
    next
      case inside: (Cons y ys)
      then have "x = Some y" "ok q1" "contents q1 = ys"
        using deq_front [OF Cons.prems(1)] d by auto
      with Cons.IH [OF _ r] res inside show ?thesis by simp
    qed
  qed
qed

end

text \<open>The reference queue: a list that takes elements at its end while it is shorter than \<open>cap\<close>, and gives its first one.\<close>

definition list_enq :: "nat \<Rightarrow> 'a \<Rightarrow> 'a list \<Rightarrow> bool \<times> 'a list" where
  "list_enq cap v xs = (if length xs < cap then (True, xs @ [v]) else (False, xs))"

fun list_deq :: "'a list \<Rightarrow> 'a option \<times> 'a list" where
  "list_deq [] = (None, [])"
| "list_deq (x # xs) = (Some x, xs)"

text \<open>
  A bounded queue: the calls keep the capacity, which the number of elements inside never exceeds, and an
  element is accepted exactly when there is room for it.
\<close>

locale bounded_fifo = fifo enq deq contents accepts ok
  for enq :: "'a \<Rightarrow> 'q \<Rightarrow> bool \<times> 'q"
    and deq :: "'q \<Rightarrow> 'a option \<times> 'q"
    and contents :: "'q \<Rightarrow> 'a list"
    and accepts :: "'q \<Rightarrow> bool"
    and ok :: "'q \<Rightarrow> bool" +
  fixes capacity :: "'q \<Rightarrow> nat"
  assumes bounded: "ok q \<Longrightarrow> length (contents q) \<le> capacity q"
    and room: "ok q \<Longrightarrow> accepts q = (length (contents q) < capacity q)"
    and enq_capacity: "capacity (snd (enq v q)) = capacity q"
    and deq_capacity: "capacity (snd (deq q)) = capacity q"
begin

lemma run_capacity: "fifo_run enq deq ops q = (q', ins, outs) \<Longrightarrow> capacity q' = capacity q"
proof (induction ops arbitrary: q q' ins outs)
  case (Cons op ops)
  then show ?case
    using enq_capacity deq_capacity
    by (cases op) (fastforce simp: Let_def case_prod_beta prod_eq_iff)+
qed simp

lemma run_bounded_fifo:
  assumes "ok q" and "fifo_run enq deq ops q = (q', ins, outs)"
  shows "contents q @ ins = outs @ contents q' \<and> length (contents q') \<le> capacity q"
  using run_fifo [OF assms] bounded [of q'] run_capacity [OF assms(2)] by simp

text \<open>One call does what the reference queue does.\<close>

lemma enq_list:
  assumes "ok q"
  shows "list_enq (capacity q) v (contents q) = (fst (enq v q), contents (snd (enq v q)))" "ok (snd (enq v q))"
  using enq_result [OF assms, of v] enq_ok [OF assms, of v] enq_back [OF assms, of v] enq_refuse [OF assms, of v]
    room [OF assms] assms by (cases "accepts q"; simp add: list_enq_def)+

lemma deq_list:
  assumes "ok q"
  shows "list_deq (contents q) = (fst (deq q), contents (snd (deq q)))" "ok (snd (deq q))"
  using deq_empty [OF assms] deq_front [OF assms] assms by (cases "contents q"; simp)+

lemma run_list:
  "ok q \<Longrightarrow> fifo_run enq deq ops q = (q', ins, outs) \<Longrightarrow>
    ok q' \<and> fifo_run (list_enq (capacity q)) list_deq ops (contents q) = (contents q', ins, outs)"
proof (induction ops arbitrary: q q' ins outs)
  case (Cons op ops)
  show ?case
  proof (cases op)
    case (Enq v)
    obtain acc q1 where e: "enq v q = (acc, q1)" by (cases "enq v q")
    obtain q2 ins1 outs1 where r: "fifo_run enq deq ops q1 = (q2, ins1, outs1)"
      by (cases "fifo_run enq deq ops q1") auto
    show ?thesis
      using Cons.IH [OF _ r] Cons.prems(2) enq_list [OF Cons.prems(1), of v] enq_capacity [of v q]
      by (simp add: Enq e r)
  next
    case Deq
    obtain x q1 where d: "deq q = (x, q1)" by (cases "deq q")
    obtain q2 ins1 outs1 where r: "fifo_run enq deq ops q1 = (q2, ins1, outs1)"
      by (cases "fifo_run enq deq ops q1") auto
    show ?thesis
      using Cons.IH [OF _ r] Cons.prems(2) deq_list [OF Cons.prems(1)] deq_capacity [of q]
      by (simp add: Deq d r)
  qed
qed simp

end

end
