(* ===== verification/Lob_Queue.thy ===== *)
theory Lob_Queue
  imports Fifo
begin

text \<open>
  \<open>LockFreeSPSCQueue<T, Capacity>\<close> (\<open>include/LockFreeQueue.hpp\<close>), called by one thread: a
  ring of \<open>Capacity\<close> slots (a power of two) under two 64-bit indices that only grow and wrap.
  \<open>queue_ok\<close> says what the calls maintain, \<open>queue_contents\<close> what is inside. The
  calls are a FIFO queue, also when the indices wrap past \<open>2 ^ 64\<close>; \<open>size\<close> is not right
  then. The two-thread protocol is in \<open>Lob_Queue_Threads\<close>.
\<close>

unbundle bit_operations_syntax

record 'a SPSCQueue =
  q_capacity :: nat
  q_buffer :: "'a list"
  q_head :: u64
  q_tail :: u64

text \<open>The constructor; \<open>d\<close> is the default value of the elements.\<close>

definition SPSCQueue_init :: "nat \<Rightarrow> 'a \<Rightarrow> 'a SPSCQueue" where
  "SPSCQueue_init cap d = \<lparr>q_capacity = cap, q_buffer = replicate cap d, q_head = 0, q_tail = 0\<rparr>"

text \<open>The template's \<open>static_assert\<close>, and the mask derived from the capacity.\<close>

definition capacity_assert :: "nat \<Rightarrow> bool" where
  "capacity_assert cap \<longleftrightarrow> (of_nat cap :: u64) AND (of_nat cap - 1) = 0"

definition MASK :: "nat \<Rightarrow> u64" where
  "MASK cap = of_nat cap - 1"

definition emplace :: "'a \<Rightarrow> 'a SPSCQueue \<Rightarrow> bool \<times> 'a SPSCQueue" where
  "emplace v q = (let currentTail = q_tail q; currentHead = q_head q
     in if currentTail - currentHead \<ge> of_nat (q_capacity q) then (False, q)
        else (True, q\<lparr>q_buffer := (q_buffer q)[unat (currentTail AND MASK (q_capacity q)) := v],
                     q_tail := currentTail + 1\<rparr>))"

definition pop :: "'a SPSCQueue \<Rightarrow> 'a option \<times> 'a SPSCQueue" where
  "pop q = (let currentHead = q_head q; currentTail = q_tail q
     in if currentHead = currentTail then (None, q)
        else (Some (q_buffer q ! unat (currentHead AND MASK (q_capacity q))),
              q\<lparr>q_head := currentHead + 1\<rparr>))"

definition queue_size :: "'a SPSCQueue \<Rightarrow> u64" where
  "queue_size q = (if q_tail q \<ge> q_head q then q_tail q - q_head q else 0)"

definition queue_empty :: "'a SPSCQueue \<Rightarrow> bool" where
  "queue_empty q = (queue_size q = 0)"

section \<open>Indices and slots\<close>

text \<open>A slot is the index modulo the capacity, which divides \<open>2 ^ 64\<close>: wrapping does not move it.\<close>

lemma slot_mod: "k < 64 \<Longrightarrow> unat ((x :: u64) AND MASK (2 ^ k)) = unat x mod 2 ^ k"
proof -
  assume "k < 64"
  have "MASK (2 ^ k) = mask k" by (simp add: MASK_def mask_eq_exp_minus_1)
  then have "x AND MASK (2 ^ k) = take_bit k x" by (simp add: take_bit_eq_mask)
  moreover have "unat (take_bit k x) = take_bit k (unat x)" by (rule unsigned_take_bit_eq)
  ultimately show ?thesis by (simp only: take_bit_nat_def)
qed

lemma slot_add: "k < 64 \<Longrightarrow> unat ((x + of_nat i :: u64) AND MASK (2 ^ k)) = (unat x + i) mod 2 ^ k"
proof -
  assume k: "k < 64"
  have "(2 :: nat) ^ k dvd 2 ^ 64" using k by (intro le_imp_power_dvd) simp
  then have "(unat x + i) mod 2 ^ 64 mod 2 ^ k = (unat x + i) mod 2 ^ k" by (rule mod_mod_cancel)
  moreover have "unat (x + of_nat i) = (unat x + i) mod 2 ^ 64"
    by (simp add: unat_word_ariths unat_of_nat mod_add_right_eq)
  ultimately show ?thesis using slot_mod [OF k] by simp
qed

lemma mod_inj_window:
  fixes i j n :: nat
  assumes "i < n" "j < n" "(a + i) mod n = (a + j) mod n" shows "i = j"
proof -
  have "i = j" if "i \<le> j" "j < n" "(a + i) mod n = (a + j) mod n" for i j :: nat
  proof -
    have "n dvd (a + j) - (a + i)" using that by (intro mod_eq_dvd_iff_nat [THEN iffD1]) auto
    then have "n dvd j - i" by simp
    moreover have "\<not> (0 < j - i \<and> n dvd j - i)" using that(2) nat_dvd_not_less [of "j - i" n] by auto
    ultimately show ?thesis using that(1) by simp
  qed
  then show ?thesis using assms by (metis nat_le_linear)
qed

section \<open>The queue inside\<close>

definition queue_ok :: "'a SPSCQueue \<Rightarrow> bool" where
  "queue_ok q \<longleftrightarrow> (\<exists>k < 64. q_capacity q = 2 ^ k) \<and> length (q_buffer q) = q_capacity q \<and>
     unat (q_tail q - q_head q) \<le> q_capacity q"

definition queue_contents :: "'a SPSCQueue \<Rightarrow> 'a list" where
  "queue_contents q = map (\<lambda>i. q_buffer q ! unat ((q_head q + of_nat i) AND MASK (q_capacity q)))
     [0..<unat (q_tail q - q_head q)]"

definition queue_accepts :: "'a SPSCQueue \<Rightarrow> bool" where
  "queue_accepts q \<longleftrightarrow> length (queue_contents q) < q_capacity q"

lemma capacity_word: "queue_ok q \<Longrightarrow> unat (of_nat (q_capacity q) :: u64) = q_capacity q"
proof -
  assume "queue_ok q"
  then obtain k where "k < 64" "q_capacity q = 2 ^ k" by (auto simp: queue_ok_def)
  moreover have "(2 :: nat) ^ k < 2 ^ 64" using \<open>k < 64\<close> by (rule power_strict_increasing) simp
  ultimately show ?thesis by (simp only: unat_of_nat_u64)
qed

lemma emplace_accepts: "queue_ok q \<Longrightarrow> fst (emplace v q) = queue_accepts q"
  using capacity_word [of q]
  by (auto simp: emplace_def queue_accepts_def queue_contents_def Let_def word_le_nat_alt)

lemma unat_diff_Suc: "unat (t - h :: u64) < n \<Longrightarrow> n < 2 ^ 64 \<Longrightarrow> unat (t + 1 - h) = Suc (unat (t - h))"
proof -
  assume "unat (t - h) < n" "n < 2 ^ 64"
  then have "unat (t - h) + unat (1 :: u64) < 2 ^ LENGTH(64)" by simp
  then have "unat ((t - h) + 1) = unat (t - h) + unat (1 :: u64)" by (rule unat_add_lem [THEN iffD1])
  moreover have "t + 1 - h = (t - h) + 1" by (simp only: diff_add_eq)
  ultimately show ?thesis by (simp only: unat_1 Suc_eq_plus1)
qed

lemma tail_from_head: "q_tail q = q_head q + of_nat (unat (q_tail q - q_head q))"
  by simp

lemma emplace_effect:
  assumes ok: "queue_ok q" and room: "queue_accepts q"
  shows "queue_ok (snd (emplace v q)) \<and> queue_contents (snd (emplace v q)) = queue_contents q @ [v]"
proof -
  obtain k where k: "k < 64" "q_capacity q = 2 ^ k" using ok by (auto simp: queue_ok_def)
  define n where "n = unat (q_tail q - q_head q)"
  have n: "n < 2 ^ k" using room k(2) by (simp add: queue_accepts_def queue_contents_def n_def)
  have cap: "(2 :: nat) ^ k < 2 ^ 64" using k(1) by (rule power_strict_increasing) simp
  let ?slot = "\<lambda>i. unat ((q_head q + of_nat i) AND MASK (2 ^ k))"
  have tail: "unat (q_tail q AND MASK (2 ^ k)) = ?slot n"
    by (subst tail_from_head) (simp only: n_def)
  have slots: "?slot i < length (q_buffer q)" "i < n \<Longrightarrow> ?slot i \<noteq> ?slot n" for i
    using ok n mod_inj_window [of i "2 ^ k" n "unat (q_head q)"]
    by (auto simp: slot_add [OF k(1)] queue_ok_def k(2))
  have "\<not> q_tail q - q_head q \<ge> of_nat (q_capacity q)"
    using emplace_accepts [OF ok, of v] room by (auto simp: emplace_def Let_def split: if_splits)
  then have q': "snd (emplace v q) = q\<lparr>q_buffer := (q_buffer q)[?slot n := v], q_tail := q_tail q + 1\<rparr>"
    by (simp only: emplace_def Let_def if_False snd_conv k(2) tail)
  have sel: "q_buffer (snd (emplace v q)) = (q_buffer q)[?slot n := v]" "q_head (snd (emplace v q)) = q_head q"
    "q_tail (snd (emplace v q)) = q_tail q + 1" "q_capacity (snd (emplace v q)) = 2 ^ k"
    unfolding q' by (simp_all add: k(2))
  have len: "unat (q_tail q + 1 - q_head q) = Suc n"
    using unat_diff_Suc [of "q_tail q" "q_head q" "2 ^ k"] n cap by (simp only: n_def)
  have "queue_contents (snd (emplace v q)) =
      map (\<lambda>i. (q_buffer q)[?slot n := v] ! ?slot i) [0..<Suc n]"
    unfolding queue_contents_def sel len ..
  also have "\<dots> = map (\<lambda>i. q_buffer q ! ?slot i) [0..<n] @ [v]"
  proof -
    have "(q_buffer q)[?slot n := v] ! ?slot i = q_buffer q ! ?slot i" if "i < n" for i
      using slots(2) [OF that] by (metis nth_list_update_neq)
    moreover have "(q_buffer q)[?slot n := v] ! ?slot n = v" using slots(1) by (rule nth_list_update_eq)
    ultimately show ?thesis by simp
  qed
  finally have "queue_contents (snd (emplace v q)) = queue_contents q @ [v]"
    by (simp only: queue_contents_def n_def k(2))
  moreover have "queue_ok (snd (emplace v q))"
    using ok len n k by (auto simp: queue_ok_def q')
  ultimately show ?thesis by blast
qed

lemma contents_empty: "queue_contents q = [] \<longleftrightarrow> q_head q = q_tail q"
  by (auto simp: queue_contents_def unat_eq_0)

lemma pop_effect:
  assumes ok: "queue_ok q" and ne: "q_head q \<noteq> q_tail q"
  shows "queue_ok (snd (pop q)) \<and> (\<exists>x. fst (pop q) = Some x \<and> queue_contents q = x # queue_contents (snd (pop q)))"
proof -
  obtain k where k: "k < 64" "q_capacity q = 2 ^ k" using ok by (auto simp: queue_ok_def)
  define n where "n = unat (q_tail q - (q_head q + 1))"
  let ?slot = "\<lambda>i. unat ((q_head q + of_nat i) AND MASK (2 ^ k))"
  have "q_tail q - q_head q \<noteq> 0" using ne by simp
  then have "unat (q_tail q - q_head q - 1) = unat (q_tail q - q_head q) - 1" by (rule unat_minus_one)
  moreover have "q_tail q - (q_head q + 1) = q_tail q - q_head q - 1" by (simp only: diff_diff_eq)
  moreover have "unat (q_tail q - q_head q) \<noteq> 0" using ne by (simp add: unat_eq_0)
  ultimately have len: "unat (q_tail q - q_head q) = Suc n" unfolding n_def by presburger
  have q': "pop q = (Some (q_buffer q ! ?slot 0), q\<lparr>q_head := q_head q + 1\<rparr>)"
    using ne k(2) by (simp add: pop_def Let_def)
  have shift: "q_head q + 1 + of_nat i = q_head q + of_nat (Suc i)" for i by simp
  have "queue_contents q = map (\<lambda>i. q_buffer q ! ?slot i) (0 # map Suc [0..<n])"
    by (simp only: queue_contents_def len k(2) map_Suc_upt) (simp only: upt_conv_Cons zero_less_Suc)
  also have "\<dots> = q_buffer q ! ?slot 0 # queue_contents (snd (pop q))"
    by (simp add: q' queue_contents_def n_def k(2) comp_def shift del: of_nat_Suc)
  finally show ?thesis
    using ok len k(2) by (auto simp: q' queue_ok_def n_def)
qed

text \<open>\<open>size\<close> counts the elements while the indices have not wrapped apart.\<close>

lemma queue_size_unwrapped: "q_head q \<le> q_tail q \<Longrightarrow> unat (queue_size q) = length (queue_contents q)"
  by (simp add: queue_size_def queue_contents_def)

interpretation spsc: bounded_fifo emplace pop queue_contents queue_accepts queue_ok q_capacity
proof
  fix q :: "'a SPSCQueue" and v :: 'a and x :: 'a and xs
  assume ok: "queue_ok q"
  show "fst (emplace v q) = queue_accepts q" using ok by (rule emplace_accepts)
  show "queue_ok (snd (emplace v q))" "queue_contents (snd (emplace v q)) = queue_contents q @ [v]"
    if "queue_accepts q" using emplace_effect [OF ok that] by blast+
  show "emplace v q = (False, q)" if "\<not> queue_accepts q"
    using emplace_accepts [OF ok, of v] that by (auto simp: emplace_def Let_def split: if_splits)
  show "pop q = (None, q)" if "queue_contents q = []"
    using that by (simp add: pop_def contents_empty)
  show "fst (pop q) = Some x \<and> queue_ok (snd (pop q)) \<and> queue_contents (snd (pop q)) = xs"
    if "queue_contents q = x # xs"
    using pop_effect [OF ok] that contents_empty [of q] by auto
next
  fix q :: "'a SPSCQueue" and v :: 'a
  show "queue_ok q \<Longrightarrow> length (queue_contents q) \<le> q_capacity q"
    by (simp add: queue_ok_def queue_contents_def)
  show "queue_accepts q = (length (queue_contents q) < q_capacity q)" by (rule queue_accepts_def)
  show "q_capacity (snd (emplace v q)) = q_capacity q" "q_capacity (snd (pop q)) = q_capacity q"
    by (auto simp: emplace_def pop_def Let_def)
qed

lemma queue_ok_init: "k < 64 \<Longrightarrow> queue_ok (SPSCQueue_init (2 ^ k) d)"
  by (auto simp: queue_ok_def SPSCQueue_init_def)

lemma queue_capacity_init [simp]: "q_capacity (SPSCQueue_init cap d) = cap"
  by (simp add: SPSCQueue_init_def)

lemma queue_contents_init [simp]: "queue_contents (SPSCQueue_init cap d) = []"
  by (simp add: queue_contents_def SPSCQueue_init_def)

section \<open>Properties\<close>

text \<open>C19. A FIFO queue of its capacity: over any sequence of calls of one thread, starting from a new ring of any
  power-of-two capacity, the calls do what they do on a list of that capacity, to which elements are
  added at the end while there is room and from which they are taken at the front. So the elements popped, followed
  by those still inside, are the elements whose \<open>emplace\<close> returned true, in that order; nothing
  is lost, duplicated or reordered. Wherever the sequence ends, the next \<open>emplace\<close> is accepted exactly
  if fewer elements than the capacity are inside, and the next \<open>pop\<close> delivers the oldest element, and fails
  only if there is none.\<close>

theorem queue_is_fifo:
  assumes "k < 64" and "fifo_run emplace pop ops (SPSCQueue_init (2 ^ k) d) = (q, ins, outs)"
  shows "fifo_run (list_enq (2 ^ k)) list_deq ops [] = (queue_contents q, ins, outs) \<and>
    ins = outs @ queue_contents q \<and> length (queue_contents q) \<le> 2 ^ k \<and>
    (\<forall>v. fst (emplace v q) = (length (queue_contents q) < 2 ^ k) \<and>
      queue_contents (snd (emplace v q)) = (if length (queue_contents q) < 2 ^ k then queue_contents q @ [v] else queue_contents q)) \<and>
    (case queue_contents q of
       [] \<Rightarrow> pop q = (None, q)
     | x # xs \<Rightarrow> fst (pop q) = Some x \<and> queue_contents (snd (pop q)) = xs)"
proof -
  note init = queue_ok_init [OF assms(1), of d]
  have ok: "queue_ok q" and cap: "q_capacity q = 2 ^ k"
    and run: "fifo_run (list_enq (2 ^ k)) list_deq ops [] = (queue_contents q, ins, outs)"
    using spsc.run_list [OF init assms(2)] spsc.run_capacity [OF assms(2)] by simp_all
  have list: "list_enq (2 ^ k) v (queue_contents q) = (fst (emplace v q), queue_contents (snd (emplace v q)))" for v
    using spsc.enq_list(1) [OF ok, of v] cap by simp
  have "fst (emplace v q) = (length (queue_contents q) < 2 ^ k) \<and>
      queue_contents (snd (emplace v q)) = (if length (queue_contents q) < 2 ^ k then queue_contents q @ [v] else queue_contents q)" for v
    using list [of v] by (cases "length (queue_contents q) < 2 ^ k") (simp_all add: list_enq_def)
  then show ?thesis
    using run spsc.run_bounded_fifo [OF init assms(2)] spsc.deq_empty [OF ok] spsc.deq_front [OF ok]
    by (auto split: list.split)
qed

theorem queue_is_fifo_witness:
  "fifo_run emplace pop [Enq 1, Enq 2, Deq, Enq 3, Enq 4] (SPSCQueue_init (2 ^ 1) 0) =
     (\<lparr>q_capacity = 2, q_buffer = [3, 2], q_head = 1, q_tail = 3\<rparr>, [1, 2, 3 :: int], [1]) \<and>
   queue_contents \<lparr>q_capacity = 2, q_buffer = [3, 2 :: int], q_head = 1, q_tail = 3\<rparr> = [2, 3]"
proof -
  have two: "replicate 2 (0 :: int) = [0, 0]" by (simp add: numeral_2_eq_2)
  have run: "fifo_run emplace pop [Enq 1, Enq 2, Deq, Enq 3, Enq 4] (SPSCQueue_init (2 ^ 1) 0) =
     (\<lparr>q_capacity = 2, q_buffer = [3, 2], q_head = 1, q_tail = 3\<rparr>, [1, 2, 3 :: int], [1])"
    by (simp add: emplace_def pop_def SPSCQueue_init_def MASK_def word_le_nat_alt two)
  from queue_is_fifo [OF _ run] run show ?thesis by simp
qed

text \<open>A ring that meets its invariant, holds two elements and pops the first of them, but
  reports \<open>empty()\<close>: the indices have wrapped apart.\<close>

lemma queue_empty_wrong_after_wrap:
  "let q = \<lparr>q_capacity = 4, q_buffer = [2, 0, 0, 1 :: int], q_head = 0xFFFFFFFFFFFFFFFF, q_tail = 1\<rparr>
   in queue_ok q \<and> queue_contents q = [1, 2] \<and> fst (pop q) = Some 1 \<and> queue_empty q"
proof -
  let ?q = "\<lparr>q_capacity = 4, q_buffer = [2, 0, 0, 1 :: int], q_head = 0xFFFFFFFFFFFFFFFF, q_tail = 1\<rparr>"
  have "queue_ok ?q" unfolding queue_ok_def by (intro conjI exI [of _ 2]) simp_all
  moreover have "queue_contents ?q = [1, 2]" by (simp add: queue_contents_def MASK_def upt_rec)
  moreover have "fst (pop ?q) = Some 1" by (simp add: pop_def MASK_def)
  moreover have "queue_empty ?q" by (simp add: queue_empty_def queue_size_def word_le_nat_alt)
  ultimately show ?thesis by simp
qed

end
