(* ===== verification/Lob_Queue_Threads.thy ===== *)
theory Lob_Queue_Threads
  imports Lob_Queue
begin

text \<open>
  The ring under one producer and one consumer thread. Every atomic access and every buffer
  access is a step of its own, and the two threads interleave freely. The index a thread
  owns it reads exactly; the index of the other thread may be read stale: an acquire load
  returns any value stored since the last one this thread read (coherence). \<open>heads\<close> and
  \<open>tails\<close> count the stores to \<open>head_\<close> and \<open>tail_\<close>; the \<open>n\<close>-th stored value is the
  64-bit word \<open>of_nat n\<close>, and the code computes with the words only. \<open>sent\<close> and
  \<open>received\<close> record the history. The consumer may read a slot only after it has read a
  \<open>tail_\<close> value stored after the slot was written (release/acquire), so reading the
  shared buffer of the model at that point is what the code sees.
\<close>

datatype 'a producer =
    PIdle
  | PTail 'a u64 \<comment> \<open>\<open>currentTail\<close> loaded\<close>
  | PBoth 'a u64 u64 \<comment> \<open>\<open>currentHead\<close> loaded\<close>
  | PWrote 'a u64 \<comment> \<open>the slot is written, \<open>tail_\<close> is not\<close>

datatype 'a consumer =
    CIdle
  | CHead u64
  | CBoth u64 u64
  | CRead u64 'a \<comment> \<open>the slot is read, \<open>head_\<close> is not stored\<close>

record 'a ring =
  ring_capacity :: nat
  ring_buffer :: "'a list"
  heads :: nat
  tails :: nat
  producer :: "'a producer"
  consumer :: "'a consumer"
  p_view :: nat \<comment> \<open>the latest store to \<open>head_\<close> the producer has read\<close>
  c_view :: nat \<comment> \<open>the latest store to \<open>tail_\<close> the consumer has read\<close>
  sent :: "'a list"
  received :: "'a list"

definition ring_init :: "nat \<Rightarrow> 'a \<Rightarrow> 'a ring" where
  "ring_init cap d = \<lparr>ring_capacity = cap, ring_buffer = replicate cap d, heads = 0, tails = 0,
     producer = PIdle, consumer = CIdle, p_view = 0, c_view = 0, sent = [], received = []\<rparr>"

text \<open>The steps of \<open>emplace\<close> and of \<open>pop\<close>, in program order.\<close>

inductive ring_step :: "'a ring \<Rightarrow> 'a ring \<Rightarrow> bool" where
  load_tail: "producer s = PIdle \<Longrightarrow> ring_step s (s\<lparr>producer := PTail v (of_nat (tails s))\<rparr>)"
| acquire_head: "producer s = PTail v t \<Longrightarrow> p_view s \<le> n \<Longrightarrow> n \<le> heads s \<Longrightarrow>
    ring_step s (s\<lparr>producer := PBoth v t (of_nat n), p_view := n\<rparr>)"
| refuse: "producer s = PBoth v t h \<Longrightarrow> t - h \<ge> of_nat (ring_capacity s) \<Longrightarrow>
    ring_step s (s\<lparr>producer := PIdle\<rparr>)"
| write_slot: "producer s = PBoth v t h \<Longrightarrow> \<not> t - h \<ge> of_nat (ring_capacity s) \<Longrightarrow>
    ring_step s (s\<lparr>ring_buffer := (ring_buffer s)[unat (t AND MASK (ring_capacity s)) := v],
                   producer := PWrote v t\<rparr>)"
| release_tail: "producer s = PWrote v t \<Longrightarrow>
    ring_step s (s\<lparr>tails := Suc (tails s), producer := PIdle, sent := sent s @ [v]\<rparr>)"
| load_head: "consumer s = CIdle \<Longrightarrow> ring_step s (s\<lparr>consumer := CHead (of_nat (heads s))\<rparr>)"
| acquire_tail: "consumer s = CHead h \<Longrightarrow> c_view s \<le> n \<Longrightarrow> n \<le> tails s \<Longrightarrow>
    ring_step s (s\<lparr>consumer := CBoth h (of_nat n), c_view := n\<rparr>)"
| nothing: "consumer s = CBoth h t \<Longrightarrow> h = t \<Longrightarrow> ring_step s (s\<lparr>consumer := CIdle\<rparr>)"
| read_slot: "consumer s = CBoth h t \<Longrightarrow> h \<noteq> t \<Longrightarrow>
    ring_step s (s\<lparr>consumer := CRead h (ring_buffer s ! unat (h AND MASK (ring_capacity s)))\<rparr>)"
| release_head: "consumer s = CRead h x \<Longrightarrow>
    ring_step s (s\<lparr>heads := Suc (heads s), consumer := CIdle, received := received s @ [x]\<rparr>)"

inductive ring_reach :: "nat \<Rightarrow> 'a \<Rightarrow> 'a ring \<Rightarrow> bool" for cap d where
  start: "ring_reach cap d (ring_init cap d)"
| move: "ring_reach cap d s \<Longrightarrow> ring_step s s' \<Longrightarrow> ring_reach cap d s'"

inductive_cases ring_stepE: "ring_step s s'"

lemmas ring_step_cases = ring_stepE [consumes 1, case_names load_tail acquire_head refuse write_slot release_tail
  load_head acquire_tail nothing read_slot release_head]

section \<open>The invariant\<close>

definition producer_ok :: "'a ring \<Rightarrow> bool" where
  "producer_ok s = (case producer s of
     PIdle \<Rightarrow> True
   | PTail v t \<Rightarrow> t = of_nat (tails s)
   | PBoth v t h \<Rightarrow> t = of_nat (tails s) \<and> h = of_nat (p_view s)
   | PWrote v t \<Rightarrow> t = of_nat (tails s) \<and> tails s < p_view s + ring_capacity s \<and>
       ring_buffer s ! (tails s mod ring_capacity s) = v)"

definition consumer_ok :: "'a ring \<Rightarrow> bool" where
  "consumer_ok s = (case consumer s of
     CIdle \<Rightarrow> True
   | CHead h \<Rightarrow> h = of_nat (heads s)
   | CBoth h t \<Rightarrow> h = of_nat (heads s) \<and> t = of_nat (c_view s)
   | CRead h x \<Rightarrow> h = of_nat (heads s) \<and> heads s < c_view s \<and> x = sent s ! heads s)"

definition views_ok :: "'a ring \<Rightarrow> bool" where
  "views_ok s \<longleftrightarrow> p_view s \<le> heads s \<and> heads s \<le> c_view s \<and> c_view s \<le> tails s \<and>
     tails s \<le> p_view s + ring_capacity s"

definition history_ok :: "'a ring \<Rightarrow> bool" where
  "history_ok s \<longleftrightarrow> length (ring_buffer s) = ring_capacity s \<and> length (sent s) = tails s \<and>
     received s = take (heads s) (sent s) \<and>
     (\<forall>i. heads s \<le> i \<longrightarrow> i < tails s \<longrightarrow> ring_buffer s ! (i mod ring_capacity s) = sent s ! i)"

definition ring_inv :: "nat \<Rightarrow> 'a ring \<Rightarrow> bool" where
  "ring_inv cap s \<longleftrightarrow> ring_capacity s = cap \<and> views_ok s \<and> producer_ok s \<and> consumer_ok s \<and> history_ok s"

lemmas ring_inv_defs = ring_inv_def views_ok_def producer_ok_def consumer_ok_def history_ok_def

lemma slot_of_count: "k < 64 \<Longrightarrow> unat ((of_nat n :: u64) AND MASK (2 ^ k)) = n mod 2 ^ k"
  using slot_add [of k 0 n] by simp

text \<open>Counts that are at most a capacity apart: their words subtract and compare exactly.\<close>

lemma words_diff:
  assumes "m \<le> n" "n \<le> m + 2 ^ k" "k < 64"
  shows "unat (of_nat n - of_nat m :: u64) = n - m"
proof -
  have "(2 :: nat) ^ k < 2 ^ 64" using assms(3) by (rule power_strict_increasing) simp
  then have "n - m < 2 ^ 64" using assms(1,2) by simp
  moreover have "(of_nat n - of_nat m :: u64) = of_nat (n - m)" using assms(1) by (simp add: of_nat_diff)
  ultimately show ?thesis by (simp only: unat_of_nat_u64)
qed

lemma words_full:
  assumes "m \<le> n" "n \<le> m + 2 ^ k" "k < 64"
  shows "(of_nat n - of_nat m :: u64) \<ge> of_nat (2 ^ k) \<longleftrightarrow> n = m + 2 ^ k"
proof -
  have "(2 :: nat) ^ k < 2 ^ 64" using assms(3) by (rule power_strict_increasing) simp
  then have "unat (of_nat (2 ^ k) :: u64) = 2 ^ k" by (rule unat_of_nat_u64)
  then show ?thesis using words_diff [OF assms] assms by (simp only: word_le_nat_alt) auto
qed

lemma words_equal:
  assumes "m \<le> n" "n \<le> m + 2 ^ k" "k < 64"
  shows "(of_nat m :: u64) = of_nat n \<longleftrightarrow> m = n"
proof -
  have "(of_nat m :: u64) = of_nat n \<longleftrightarrow> unat (of_nat n - of_nat m :: u64) = 0" by (auto simp: unat_eq_0)
  then show ?thesis using words_diff [OF assms] assms(1) by auto
qed

lemma slots_differ:
  assumes "i < n" "n < i + cap" shows "i mod cap \<noteq> n mod (cap :: nat)"
proof
  have "n - i < cap" "0 < n - i" "i + (n - i) = n" using assms by auto
  moreover assume "i mod cap = n mod cap"
  ultimately have "0 = n - i" using mod_inj_window [of 0 cap "n - i" i] by simp
  with \<open>0 < n - i\<close> show False by simp
qed

lemma ring_inv_init: "ring_inv cap (ring_init cap d)"
  by (simp add: ring_inv_defs ring_init_def)

lemma ring_inv_step:
  assumes inv: "ring_inv (2 ^ k) s" and k: "k < 64" and step: "ring_step s s'"
  shows "ring_inv (2 ^ k) s'"
  using step
proof (cases rule: ring_step_cases)
  case (write_slot v t h)
  have t: "t = of_nat (tails s)" "h = of_nat (p_view s)" "ring_capacity s = 2 ^ k"
    and le: "p_view s \<le> tails s" "tails s \<le> p_view s + 2 ^ k" "p_view s \<le> heads s"
    using inv write_slot(2) by (auto simp: ring_inv_defs)
  have room: "tails s < p_view s + 2 ^ k"
    using write_slot(3) words_full [OF le(1,2) k] le by (simp add: t)
  have slot: "unat (t AND MASK (ring_capacity s)) = tails s mod 2 ^ k"
    using slot_of_count [OF k] by (simp add: t)
  have "(ring_buffer s)[tails s mod 2 ^ k := v] ! (i mod 2 ^ k) = sent s ! i"
    if "heads s \<le> i" "i < tails s" for i
  proof -
    have "i mod 2 ^ k \<noteq> tails s mod 2 ^ k" using that room le by (intro slots_differ) auto
    moreover have "ring_buffer s ! (i mod 2 ^ k) = sent s ! i" using inv that t by (simp add: ring_inv_defs)
    ultimately show ?thesis by simp
  qed
  then show ?thesis
    using inv room slot t by (simp add: ring_inv_defs write_slot(1) cong: consumer.case_cong)
next
  case (read_slot h t)
  have t: "h = of_nat (heads s)" "t = of_nat (c_view s)" "ring_capacity s = 2 ^ k"
    and le: "heads s \<le> c_view s" "c_view s \<le> heads s + 2 ^ k" "c_view s \<le> tails s"
    using inv read_slot(2) by (auto simp: ring_inv_defs)
  have less: "heads s < c_view s" using read_slot(3) words_equal [OF le(1,2) k] le(1) by (auto simp: t)
  moreover have "ring_buffer s ! (heads s mod 2 ^ k) = sent s ! heads s"
    using inv less le t by (simp add: ring_inv_defs)
  ultimately show ?thesis
    using inv slot_of_count [OF k, of "heads s"] t by (simp add: ring_inv_defs read_slot(1) cong: producer.case_cong)
next
  case (release_tail v t)
  have "ring_buffer s ! (i mod 2 ^ k) = (sent s @ [v]) ! i" if "heads s \<le> i" "i < Suc (tails s)" for i
    using inv release_tail(2) that by (cases "i = tails s") (auto simp: ring_inv_defs nth_append)
  then show ?thesis
    using inv release_tail(2) by (auto simp: ring_inv_defs release_tail(1) nth_append split: consumer.splits)
next
  case (release_head h x)
  then show ?thesis
    using inv by (auto simp: ring_inv_defs take_Suc_conv_app_nth split: producer.splits)
qed (use inv in \<open>auto simp: ring_inv_defs split: producer.splits consumer.splits\<close>)

lemma ring_reach_inv: "ring_reach (2 ^ k) d s \<Longrightarrow> k < 64 \<Longrightarrow> ring_inv (2 ^ k) s"
  by (induction rule: ring_reach.induct) (auto intro: ring_inv_init ring_inv_step)

section \<open>Properties\<close>

text \<open>C10. Under every interleaving of one producer and one consumer, with stale reads of the other
  thread's index: the consumer has received exactly a prefix of what the producer sent, in
  order; at most \<open>Capacity\<close> elements are in flight, and each of them is intact in its slot.\<close>

theorem ring_delivers_in_order:
  assumes "ring_reach (2 ^ k) d s" and "k < 64"
  shows "received s = take (heads s) (sent s) \<and> length (sent s) = tails s \<and>
    heads s \<le> tails s \<and> tails s \<le> heads s + 2 ^ k \<and>
    (\<forall>i. heads s \<le> i \<and> i < tails s \<longrightarrow> ring_buffer s ! (i mod 2 ^ k) = sent s ! i)"
  using ring_reach_inv [OF assms] by (auto simp: ring_inv_defs)

text \<open>C20. No data race on a slot: whenever the producer is about to write a slot and the consumer is
  about to read one, or has read one that it has not yet released, the slots are different.\<close>

theorem ring_no_slot_race:
  assumes "ring_reach (2 ^ k) d s" and "k < 64"
    and "producer s = PBoth v t h" and "\<not> t - h \<ge> of_nat (2 ^ k)"
    and "(\<exists>t'. consumer s = CBoth h' t' \<and> h' \<noteq> t') \<or> (\<exists>x. consumer s = CRead h' x)"
  shows "unat (t AND MASK (2 ^ k)) \<noteq> unat (h' AND MASK (2 ^ k))"
proof -
  have inv: "ring_inv (2 ^ k) s" by (rule ring_reach_inv [OF assms(1,2)])
  have t: "t = of_nat (tails s)" "h = of_nat (p_view s)" "h' = of_nat (heads s)"
    and le: "p_view s \<le> tails s" "tails s \<le> p_view s + 2 ^ k" "p_view s \<le> heads s" "c_view s \<le> tails s"
    using inv assms(3,5) by (auto simp: ring_inv_defs)
  have room: "tails s < p_view s + 2 ^ k"
    using assms(4) words_full [OF le(1,2) assms(2)] le by (simp add: t)
  have "heads s < c_view s"
  proof (cases "\<exists>x. consumer s = CRead h' x")
    case True
    then show ?thesis using inv by (auto simp: ring_inv_defs)
  next
    case False
    then obtain t' where c: "consumer s = CBoth h' t'" "h' \<noteq> t'" using assms(5) by blast
    then have "heads s \<noteq> c_view s" "heads s \<le> c_view s" using inv by (auto simp: ring_inv_defs)
    then show ?thesis by simp
  qed
  then have "heads s mod 2 ^ k \<noteq> tails s mod 2 ^ k" using le room by (intro slots_differ) auto
  then show ?thesis using slot_of_count [OF assms(2)] t by metis
qed

text \<open>A run of a ring of two slots: 7 is sent, the consumer is about to read it while the
  producer is about to write 8.\<close>

definition busy_ring :: "int ring" where
  "busy_ring = \<lparr>ring_capacity = 2 ^ 1, ring_buffer = [7, 0], heads = 0, tails = 1, producer = PBoth 8 1 0,
     consumer = CBoth 0 1, p_view = 0, c_view = 1, sent = [7], received = []\<rparr>"

lemma ring_move: "ring_reach cap d s \<Longrightarrow> ring_step s s' \<Longrightarrow> s' = s'' \<Longrightarrow> ring_reach cap d s''"
  using ring_reach.move by metis

lemma busy_ring_reach: "ring_reach (2 ^ 1) 0 busy_ring"
proof -
  let ?r = "\<lambda>b T p c cv sn. \<lparr>ring_capacity = 2 ^ 1, ring_buffer = b, heads = 0, tails = T, producer = p,
     consumer = c, p_view = 0, c_view = cv, sent = sn, received = []\<rparr> :: int ring"
  have "replicate 2 (0 :: int) = [0, 0]" by (simp add: numeral_2_eq_2)
  then have "ring_init (2 ^ 1) 0 = ?r [0, 0] 0 PIdle CIdle 0 []" by (simp add: ring_init_def)
  then have "ring_reach (2 ^ 1) 0 (?r [0, 0] 0 PIdle CIdle 0 [])" using ring_reach.start by metis
  then have "ring_reach (2 ^ 1) 0 (?r [0, 0] 0 (PTail 7 0) CIdle 0 [])"
    by (rule ring_move [OF _ load_tail [where v = 7]]) simp_all
  then have "ring_reach (2 ^ 1) 0 (?r [0, 0] 0 (PBoth 7 0 0) CIdle 0 [])"
    by (rule ring_move [OF _ acquire_head [where n = 0]]) simp_all
  then have "ring_reach (2 ^ 1) 0 (?r [7, 0] 0 (PWrote 7 0) CIdle 0 [])"
    by (rule ring_move [OF _ write_slot [where v = 7 and t = 0 and h = 0]]) (simp_all add: MASK_def word_le_nat_alt)
  then have "ring_reach (2 ^ 1) 0 (?r [7, 0] 1 PIdle CIdle 0 [7])"
    by (rule ring_move [OF _ release_tail]) simp_all
  then have "ring_reach (2 ^ 1) 0 (?r [7, 0] 1 (PTail 8 1) CIdle 0 [7])"
    by (rule ring_move [OF _ load_tail [where v = 8]]) simp_all
  then have "ring_reach (2 ^ 1) 0 (?r [7, 0] 1 (PBoth 8 1 0) CIdle 0 [7])"
    by (rule ring_move [OF _ acquire_head [where n = 0]]) simp_all
  then have "ring_reach (2 ^ 1) 0 (?r [7, 0] 1 (PBoth 8 1 0) (CHead 0) 0 [7])"
    by (rule ring_move [OF _ load_head]) simp_all
  then have "ring_reach (2 ^ 1) 0 (?r [7, 0] 1 (PBoth 8 1 0) (CBoth 0 1) 1 [7])"
    by (rule ring_move [OF _ acquire_tail [where n = 1]]) simp_all
  then show ?thesis by (simp only: busy_ring_def)
qed

theorem ring_delivers_in_order_witness: "received busy_ring = [] \<and> ring_buffer busy_ring ! 0 = sent busy_ring ! 0"
  using ring_delivers_in_order [OF busy_ring_reach] by (simp add: busy_ring_def)

theorem ring_no_slot_race_witness: "unat ((1 :: u64) AND MASK (2 ^ 1)) \<noteq> unat ((0 :: u64) AND MASK (2 ^ 1))"
  by (rule ring_no_slot_race [OF busy_ring_reach, of 8 1 0 0]) (simp_all add: busy_ring_def word_le_nat_alt)

text \<open>The steps a thread has left in its call. Inside a call a thread can always step, whatever the other one does, and
  each of its steps leaves fewer.\<close>

fun producer_left :: "'a producer \<Rightarrow> nat" where
  "producer_left PIdle = 0"
| "producer_left (PTail v t) = 3"
| "producer_left (PBoth v t h) = 2"
| "producer_left (PWrote v t) = 1"

fun consumer_left :: "'a consumer \<Rightarrow> nat" where
  "consumer_left CIdle = 0"
| "consumer_left (CHead h) = 3"
| "consumer_left (CBoth h t) = 2"
| "consumer_left (CRead h x) = 1"

lemma producer_moves:
  assumes "p_view s \<le> heads s" and "producer s \<noteq> PIdle"
  shows "\<exists>s'. ring_step s s' \<and> producer_left (producer s') < producer_left (producer s) \<and> consumer s' = consumer s"
proof (cases "producer s")
  case (PTail v t)
  show ?thesis
    by (rule exI, rule conjI, rule acquire_head [OF PTail order_refl assms(1)]) (simp_all add: PTail)
next
  case (PBoth v t h)
  show ?thesis
  proof (cases "t - h \<ge> of_nat (ring_capacity s)")
    case True
    show ?thesis by (rule exI, rule conjI, rule refuse [OF PBoth True]) (simp_all add: PBoth)
  next
    case False
    show ?thesis by (rule exI, rule conjI, rule write_slot [OF PBoth False]) (simp_all add: PBoth)
  qed
next
  case (PWrote v t)
  show ?thesis by (rule exI, rule conjI, rule release_tail [OF PWrote]) (simp_all add: PWrote)
qed (use assms(2) in simp)

lemma consumer_moves:
  assumes "c_view s \<le> tails s" and "consumer s \<noteq> CIdle"
  shows "\<exists>s'. ring_step s s' \<and> consumer_left (consumer s') < consumer_left (consumer s) \<and> producer s' = producer s"
proof (cases "consumer s")
  case (CHead h)
  show ?thesis
    by (rule exI, rule conjI, rule acquire_tail [OF CHead order_refl assms(1)]) (simp_all add: CHead)
next
  case (CBoth h t)
  show ?thesis
  proof (cases "h = t")
    case True
    show ?thesis by (rule exI [of _ "s\<lparr>consumer := CIdle\<rparr>"]) (simp add: ring_step.nothing [OF CBoth True] CBoth)
  next
    case False
    show ?thesis by (rule exI, rule conjI, rule read_slot [OF CBoth False]) (simp_all add: CBoth)
  qed
next
  case (CRead h x)
  show ?thesis by (rule exI, rule conjI, rule release_head [OF CRead]) (simp_all add: CRead)
qed (use assms(2) in simp)

text \<open>Every step is a step of one thread, which it changes, and leaves the other where it is.\<close>

lemma ring_step_owner: "ring_step s s' \<Longrightarrow> (producer s' = producer s) \<noteq> (consumer s' = consumer s)"
  by (erule ring_step_cases) auto

lemma producer_step_left:
  "ring_step s s' \<Longrightarrow> producer s \<noteq> PIdle \<Longrightarrow> producer s' = producer s \<or> producer_left (producer s') < producer_left (producer s)"
  by (erule ring_step_cases) auto

lemma consumer_step_left:
  "ring_step s s' \<Longrightarrow> consumer s \<noteq> CIdle \<Longrightarrow> consumer s' = consumer s \<or> consumer_left (consumer s') < consumer_left (consumer s)"
  by (erule ring_step_cases) auto

text \<open>So there are at most so many changes of a thread in a run in which it stays inside its call until the last step.\<close>

lemma changes_bound:
  fixes view :: "nat \<Rightarrow> 'c" and left :: "'c \<Rightarrow> nat"
  assumes "\<And>i. i < n \<Longrightarrow> view (Suc i) = view i \<or> left (view (Suc i)) < left (view i)"
  shows "card {i. i < n \<and> view (Suc i) \<noteq> view i} + left (view n) \<le> left (view 0)"
  using assms
proof (induction n)
  case (Suc n)
  then have IH: "card {i. i < n \<and> view (Suc i) \<noteq> view i} + left (view n) \<le> left (view 0)" by simp
  have set: "{i. i < Suc n \<and> view (Suc i) \<noteq> view i} =
      (if view (Suc n) \<noteq> view n then insert n else id) {i. i < n \<and> view (Suc i) \<noteq> view i}"
    by (auto simp: less_Suc_eq)
  show ?case
  proof (cases "view (Suc n) = view n")
    case True
    then show ?thesis using IH unfolding set by simp
  next
    case False
    then have "left (view (Suc n)) < left (view n)" using Suc.prems [of n] by simp
    then show ?thesis using IH False unfolding set by simp
  qed
qed simp

lemma producer_left_le: "producer_left p \<le> 3"
  by (cases p) simp_all

lemma consumer_left_le: "consumer_left c \<le> 3"
  by (cases c) simp_all

text \<open>C21. Wait freedom, in every reachable state. Every step is a step of exactly one thread. A thread inside a call
  can make a step, without help from the other thread. And in any run, whatever steps the other thread makes and
  however many, a thread that is inside a call has returned from it after at most three further
  steps of its own: no run has more of them in which it is inside the call all the time.\<close>

theorem ring_wait_free:
  assumes "ring_reach (2 ^ k) d s" and "k < 64"
  shows "(\<forall>s'. ring_step s s' \<longrightarrow> (producer s' = producer s) \<noteq> (consumer s' = consumer s)) \<and>
    (producer s \<noteq> PIdle \<longrightarrow> (\<exists>s'. ring_step s s' \<and> producer_left (producer s') < producer_left (producer s) \<and>
      consumer s' = consumer s)) \<and>
    (consumer s \<noteq> CIdle \<longrightarrow> (\<exists>s'. ring_step s s' \<and> consumer_left (consumer s') < consumer_left (consumer s) \<and>
      producer s' = producer s)) \<and>
    (\<forall>n r. r 0 = s \<and> (\<forall>i < n. ring_step (r i) (r (Suc i)) \<and> producer (r i) \<noteq> PIdle) \<longrightarrow>
      card {i. i < n \<and> producer (r (Suc i)) \<noteq> producer (r i)} \<le> 3) \<and>
    (\<forall>n r. r 0 = s \<and> (\<forall>i < n. ring_step (r i) (r (Suc i)) \<and> consumer (r i) \<noteq> CIdle) \<longrightarrow>
      card {i. i < n \<and> consumer (r (Suc i)) \<noteq> consumer (r i)} \<le> 3)"
proof -
  have views: "p_view s \<le> heads s" "c_view s \<le> tails s"
    using ring_reach_inv [OF assms] by (auto simp: ring_inv_defs)
  have "card {i. i < n \<and> producer (r (Suc i)) \<noteq> producer (r i)} \<le> 3"
    if "\<forall>i < n. ring_step (r i) (r (Suc i)) \<and> producer (r i) \<noteq> PIdle" for n and r :: "nat \<Rightarrow> 'a ring"
    using changes_bound [of n "\<lambda>i. producer (r i)" producer_left] that producer_step_left producer_left_le [of "producer (r 0)"]
    by force
  moreover have "card {i. i < n \<and> consumer (r (Suc i)) \<noteq> consumer (r i)} \<le> 3"
    if "\<forall>i < n. ring_step (r i) (r (Suc i)) \<and> consumer (r i) \<noteq> CIdle" for n and r :: "nat \<Rightarrow> 'a ring"
    using changes_bound [of n "\<lambda>i. consumer (r i)" consumer_left] that consumer_step_left consumer_left_le [of "consumer (r 0)"]
    by force
  ultimately show ?thesis using producer_moves [OF views(1)] consumer_moves [OF views(2)] ring_step_owner by blast
qed

theorem ring_wait_free_witness:
  "(\<exists>s'. ring_step busy_ring s' \<and> producer_left (producer s') < 2) \<and>
   (\<exists>s'. ring_step busy_ring s' \<and> consumer_left (consumer s') < 2)"
  using ring_wait_free [OF busy_ring_reach] by (auto simp: busy_ring_def)

end
