(* ===== verification/Net_Protocol.thy ===== *)
theory Net_Protocol
  imports Prelude
begin

text \<open>
  The wire format of the server (\<open>include/Common.hpp\<close>, \<open>src/Protocol.cpp\<close>). A frame is an
  8-byte header (magic, type, length, big endian) and a payload. \<open>MessageType\<close> is a 16-bit word:
  the code casts any received value to the enum. The byte order of the host is a parameter
  \<open>le\<close> (little endian or not): \<open>memcpy\<close> stores and loads in host order, \<open>htons\<close> and its
  relatives swap on a little-endian host. The theorems hold for both, and between hosts
  of different order.
\<close>

unbundle bit_operations_syntax

type_synonym bytes = "u8 list"
type_synonym MessageType = u16

definition MAGIC_HEADER :: u16 where "MAGIC_HEADER = 0x414E"

definition HEADER_SIZE :: nat where "HEADER_SIZE = 8"

definition MAX_PAYLOAD_SIZE :: nat where "MAX_PAYLOAD_SIZE = 65536"

definition PING :: MessageType where "PING = 0x0001"
definition PONG :: MessageType where "PONG = 0x0002"
definition ECHO_REQUEST :: MessageType where "ECHO_REQUEST = 0x0003"
definition ECHO_RESPONSE :: MessageType where "ECHO_RESPONSE = 0x0004"
definition DATA_STREAM :: MessageType where "DATA_STREAM = 0x0005"
definition DISCONNECT :: MessageType where "DISCONNECT = 0x00FF"
definition UNKNOWN :: MessageType where "UNKNOWN = 0xFFFF"

lemmas message_types = PING_def PONG_def ECHO_REQUEST_def ECHO_RESPONSE_def DATA_STREAM_def
  DISCONNECT_def UNKNOWN_def

record Header =
  h_magic :: u16
  h_type :: MessageType
  h_length :: u32

record Packet =
  p_header :: Header
  p_payload :: bytes

definition Header_default :: Header where
  "Header_default = \<lparr>h_magic = MAGIC_HEADER, h_type = UNKNOWN, h_length = 0\<rparr>"

section \<open>Words in memory\<close>

text \<open>\<open>memcpy\<close> of a 16-bit or 32-bit integer to bytes and back, on a host of order \<open>le\<close>.\<close>

definition store16 :: "bool \<Rightarrow> u16 \<Rightarrow> bytes" where
  "store16 le w = (let bs = [ucast (drop_bit 8 w), ucast w] in if le then rev bs else bs)"

definition store32 :: "bool \<Rightarrow> u32 \<Rightarrow> bytes" where
  "store32 le w = (let bs = [ucast (drop_bit 24 w), ucast (drop_bit 16 w), ucast (drop_bit 8 w), ucast w]
     in if le then rev bs else bs)"

definition load16 :: "bool \<Rightarrow> bytes \<Rightarrow> u16" where
  "load16 le bs = (let b = (if le then rev (take 2 bs) else take 2 bs)
     in push_bit 8 (ucast (b ! 0)) OR ucast (b ! 1))"

definition load32 :: "bool \<Rightarrow> bytes \<Rightarrow> u32" where
  "load32 le bs = (let b = (if le then rev (take 4 bs) else take 4 bs)
     in push_bit 24 (ucast (b ! 0)) OR push_bit 16 (ucast (b ! 1)) OR push_bit 8 (ucast (b ! 2)) OR ucast (b ! 3))"

text \<open>\<open>htons\<close>, \<open>ntohs\<close>, \<open>htonl\<close>, \<open>ntohl\<close>: a swap of bytes on a little-endian host.\<close>

definition htons :: "bool \<Rightarrow> u16 \<Rightarrow> u16" where
  "htons le w = (if le then push_bit 8 w OR drop_bit 8 w else w)"

definition htonl :: "bool \<Rightarrow> u32 \<Rightarrow> u32" where
  "htonl le w = (if le then push_bit 24 w OR push_bit 8 (w AND 0xFF00) OR
       (drop_bit 8 w AND 0xFF00) OR drop_bit 24 w else w)"

abbreviation ntohs :: "bool \<Rightarrow> u16 \<Rightarrow> u16" where "ntohs \<equiv> htons"
abbreviation ntohl :: "bool \<Rightarrow> u32 \<Rightarrow> u32" where "ntohl \<equiv> htonl"

section \<open>The operations of \<open>Protocol\<close>\<close>

definition serializeHeader :: "bool \<Rightarrow> Header \<Rightarrow> bytes" where
  "serializeHeader le h =
     (let netMagic = htons le (h_magic h);
          netType = htons le (h_type h);
          netLen = htonl le (h_length h)
      in store16 le netMagic @ store16 le netType @ store32 le netLen)"

text \<open>
  Success and the header written through the reference parameter, which keeps its value when
  the buffer is too short and is overwritten otherwise, also when the magic is wrong.
\<close>

definition deserializeHeader :: "bool \<Rightarrow> bytes \<Rightarrow> Header \<Rightarrow> bool \<times> Header" where
  "deserializeHeader le data header =
     (if length data < HEADER_SIZE then (False, header)
      else let netMagic = load16 le data;
               netType = load16 le (drop 2 data);
               netLen = load32 le (drop 4 data);
               header' = \<lparr>h_magic = ntohs le netMagic, h_type = ntohs le netType, h_length = ntohl le netLen\<rparr>
           in if h_magic header' \<noteq> MAGIC_HEADER then (False, header') else (True, header'))"

definition serializePacket :: "bool \<Rightarrow> Packet \<Rightarrow> bytes" where
  "serializePacket le packet =
     (let h = (p_header packet)\<lparr>h_length := of_nat (length (p_payload packet))\<rparr>
      in serializeHeader le h @ p_payload packet)"

definition createEchoResponse :: "bytes \<Rightarrow> Packet" where
  "createEchoResponse payload = \<lparr>p_header = \<lparr>h_magic = MAGIC_HEADER, h_type = ECHO_RESPONSE,
     h_length = of_nat (length payload)\<rparr>, p_payload = payload\<rparr>"

definition createPongPacket :: Packet where
  "createPongPacket = \<lparr>p_header = \<lparr>h_magic = MAGIC_HEADER, h_type = PONG, h_length = 0\<rparr>, p_payload = []\<rparr>"

section \<open>Bytes and words\<close>

lemma bytes16: "push_bit 8 (ucast (ucast (drop_bit 8 w) :: u8)) OR ucast (ucast w :: u8) = w" for w :: u16
  by (rule bit_word_eqI) (auto simp: bit_simps)

lemma bytes32:
  "push_bit 24 (ucast (ucast (drop_bit 24 w) :: u8)) OR push_bit 16 (ucast (ucast (drop_bit 16 w) :: u8)) OR
     push_bit 8 (ucast (ucast (drop_bit 8 w) :: u8)) OR ucast (ucast w :: u8) = w" for w :: u32
proof (rule bit_word_eqI)
  fix n
  assume "n < LENGTH(32)"
  then consider "n < 8" | "8 \<le> n \<and> n < 16" | "16 \<le> n \<and> n < 24" | "24 \<le> n \<and> n < 32" by force
  then show "bit (push_bit 24 (ucast (ucast (drop_bit 24 w) :: u8)) OR push_bit 16 (ucast (ucast (drop_bit 16 w) :: u8)) OR
     push_bit 8 (ucast (ucast (drop_bit 8 w) :: u8)) OR (ucast (ucast w :: u8) :: u32)) n = bit w n"
    by cases (auto simp: bit_simps)
qed

lemma store_length [simp]: "length (store16 le w) = 2" "length (store32 le v) = 4"
  by (simp_all add: store16_def store32_def Let_def)

lemma load_store [simp]:
  "load16 le (store16 le w @ bs) = w" "load32 le (store32 le v @ bs) = v" "load32 le (store32 le v) = v"
proof -
  have "take 2 (store16 le w @ bs) = store16 le w" "take 4 (store32 le v @ bs) = store32 le v"
    "take 4 (store32 le v) = store32 le v" by simp_all
  then show "load16 le (store16 le w @ bs) = w" "load32 le (store32 le v @ bs) = v" "load32 le (store32 le v) = v"
    using bytes16 [of w] bytes32 [of v]
    by (simp_all add: load16_def load32_def) (simp_all add: store16_def store32_def Let_def)
qed

lemma htons_htons [simp]: "htons le (htons le w) = w"
  by (cases le; simp add: htons_def) (rule bit_word_eqI, auto simp: bit_simps)

lemma htonl_swap: "htonl True w = push_bit 24 w OR push_bit 8 (w AND 0xFF00) OR (drop_bit 8 w AND 0xFF00) OR drop_bit 24 w"
  by (simp add: htonl_def)

text \<open>What is stored after \<open>htons\<close> is the big-endian form, whatever the host.\<close>

definition be16 :: "u16 \<Rightarrow> bytes" where
  "be16 w = [ucast (drop_bit 8 w), ucast w]"

definition be32 :: "u32 \<Rightarrow> bytes" where
  "be32 w = [ucast (drop_bit 24 w), ucast (drop_bit 16 w), ucast (drop_bit 8 w), ucast w]"

lemma ucast_byte_eqI: "(\<And>n. n < 8 \<Longrightarrow> bit w n = bit v n) \<Longrightarrow> w = v" for w v :: u8
  by (rule bit_word_eqI) simp

lemma store_hton: "store16 le (htons le w) = be16 w" "store32 le (htonl le v) = be32 v"
proof -
  have "ucast (push_bit 8 w OR drop_bit 8 w) = (ucast (drop_bit 8 w) :: u8)"
    "ucast (drop_bit 8 (push_bit 8 w OR drop_bit 8 w)) = (ucast w :: u8)"
    by (rule ucast_byte_eqI; auto simp: bit_simps)+
  then show "store16 le (htons le w) = be16 w"
    by (cases le) (simp_all add: store16_def htons_def be16_def Let_def)
  let ?m = "push_bit 8 (mask 8) :: u32"
  let ?s = "push_bit 24 v OR push_bit 8 (v AND ?m) OR (drop_bit 8 v AND ?m) OR drop_bit 24 v"
  have "(0xFF00 :: u32) = ?m" by (simp add: mask_eq_exp_minus_1 push_bit_eq_mult)
  then have swap: "htonl le v = (if le then ?s else v)" by (simp only: htonl_def)
  have "ucast ?s = (ucast (drop_bit 24 v) :: u8)" "ucast (drop_bit 8 ?s) = (ucast (drop_bit 16 v) :: u8)"
    "ucast (drop_bit 16 ?s) = (ucast (drop_bit 8 v) :: u8)" "ucast (drop_bit 24 ?s) = (ucast v :: u8)"
    by (rule ucast_byte_eqI; auto simp: bit_simps)+
  then show "store32 le (htonl le v) = be32 v"
    unfolding swap by (cases le) (simp_all only: store32_def be32_def Let_def if_True if_False rev.simps append.simps)
qed

lemma be_length [simp]: "length (be16 w) = 2" "length (be32 v) = 4"
  by (simp_all add: be16_def be32_def)

lemma store_be: "store16 le w = (if le then rev (be16 w) else be16 w)"
  "store32 le v = (if le then rev (be32 v) else be32 v)"
  by (simp_all add: store16_def store32_def be16_def be32_def Let_def)

lemma htonl_htonl [simp]: "htonl le (htonl le v) = v"
proof (cases le)
  case True
  have "rev (be32 (htonl True v)) = be32 v" using store_hton(2) [of True v] by (simp add: store_be)
  then have "be32 (htonl True v) = store32 True v" by (metis rev_rev_ident store_be(2))
  moreover have "store32 True (htonl True (htonl True v)) = be32 (htonl True v)" by (rule store_hton)
  ultimately have "store32 True (htonl True (htonl True v)) = store32 True v" by simp
  then have "load32 True (store32 True (htonl True (htonl True v))) = load32 True (store32 True v)" by simp
  then have "htonl True (htonl True v) = v" by (simp only: load_store)
  with True show ?thesis by simp
qed (simp add: htonl_def)

text \<open>Any bytes are the form of some word: what is loaded is stored back unchanged.\<close>

lemma list2: "length bs = 2 \<Longrightarrow> \<exists>a b. bs = [a, b]"
  by (auto simp: length_Suc_conv numeral_eq_Suc)

lemma list4: "length bs = 4 \<Longrightarrow> \<exists>a b c d. bs = [a, b, c, d]"
  by (auto simp: length_Suc_conv numeral_eq_Suc)

lemma bytes_of_word:
  fixes a b c d :: u8
  shows "be16 (push_bit 8 (ucast a) OR ucast b) = [a, b]"
    and "be32 (push_bit 24 (ucast a) OR push_bit 16 (ucast b) OR push_bit 8 (ucast c) OR ucast d) = [a, b, c, d]"
proof -
  let ?v = "push_bit 8 (ucast a) OR ucast b :: u16"
  have "ucast (drop_bit 8 ?v) = a" "ucast ?v = b"
    by (rule ucast_byte_eqI; auto simp: bit_simps dest: bit_imp_le_length)+
  then show "be16 ?v = [a, b]" by (simp only: be16_def)
  let ?w = "push_bit 24 (ucast a) OR push_bit 16 (ucast b) OR push_bit 8 (ucast c) OR ucast d :: u32"
  have "ucast (drop_bit 24 ?w) = a" "ucast (drop_bit 16 ?w) = b" "ucast (drop_bit 8 ?w) = c" "ucast ?w = d"
    by (rule ucast_byte_eqI; auto simp: bit_simps dest: bit_imp_le_length)+
  then show "be32 ?w = [a, b, c, d]" by (simp only: be32_def)
qed

lemma store_load:
  assumes "length bs \<ge> 2" shows "store16 le (load16 le bs) = take 2 bs"
proof -
  obtain a b where t: "take 2 bs = [a, b]" using list2 [of "take 2 bs"] assms by auto
  show ?thesis
    unfolding store_be load16_def Let_def t by (cases le) (simp_all add: bytes_of_word)
qed

lemma store_load32:
  assumes "length bs \<ge> 4" shows "store32 le (load32 le bs) = take 4 bs"
proof -
  obtain a b c d where t: "take 4 bs = [a, b, c, d]" using list4 [of "take 4 bs"] assms by auto
  show ?thesis
    unfolding store_be load32_def Let_def t by (cases le) (simp_all add: bytes_of_word)
qed

lemma be_load: "length bs \<ge> 2 \<Longrightarrow> be16 (ntohs le (load16 le bs)) = take 2 bs"
  "length bs \<ge> 4 \<Longrightarrow> be32 (ntohl le (load32 le bs)) = take 4 bs"
  using store_hton(1) [of le "htons le (load16 le bs)"] store_hton(2) [of le "htonl le (load32 le bs)"]
  by (simp_all add: store_load store_load32)

section \<open>Headers\<close>

lemma serializeHeader_be: "serializeHeader le h = be16 (h_magic h) @ be16 (h_type h) @ be32 (h_length h)"
  by (simp add: serializeHeader_def store_hton Let_def)

lemma serializeHeader_length [simp]: "length (serializeHeader le h) = HEADER_SIZE"
  by (simp add: serializeHeader_be HEADER_SIZE_def)

lemma load_be: "ntohs le (load16 le (be16 w @ bs)) = w" "ntohl le (load32 le (be32 v @ bs)) = v"
  using store_hton(1) [of le w] store_hton(2) [of le v]
  by (metis htons_htons load_store(1), metis htonl_htonl load_store(2))

lemma deserialize_serialize:
  "deserializeHeader le' (serializeHeader le h @ rest) h0 = (h_magic h = MAGIC_HEADER, h)"
proof -
  have d: "drop 2 (be16 a @ bs) = bs" "drop 4 (be16 a @ be16 b @ bs) = bs" for a b bs by simp_all
  show ?thesis
    unfolding deserializeHeader_def serializeHeader_be append_assoc d load_be
    by (simp add: HEADER_SIZE_def Let_def load_be)
qed

lemma be_magic: "be16 MAGIC_HEADER = [0x41, 0x4E]"
  by (simp add: be16_def MAGIC_HEADER_def drop_bit_eq_div)

section \<open>Properties\<close>

text \<open>C7. Round trip of headers, between any two hosts: what one host serializes, the other
  deserializes to the same header, whatever follows in the buffer and whatever the output
  header held before; it reports success exactly when the magic is the protocol's.\<close>

theorem header_roundtrip:
  "deserializeHeader le' (serializeHeader le h @ rest) h0 = (h_magic h = MAGIC_HEADER, h)"
  by (rule deserialize_serialize)

text \<open>C22. The wire format: a header is eight bytes, big endian, in the order magic, type, length, on
  hosts of either byte order; a header of the protocol starts with the letters \<open>AN\<close>.\<close>

theorem header_wire_format:
  "serializeHeader le h =
     [ucast (drop_bit 8 (h_magic h)), ucast (h_magic h), ucast (drop_bit 8 (h_type h)), ucast (h_type h),
      ucast (drop_bit 24 (h_length h)), ucast (drop_bit 16 (h_length h)), ucast (drop_bit 8 (h_length h)),
      ucast (h_length h)] \<and>
   take 2 (serializeHeader le (p_header createPongPacket)) = [0x41, 0x4E]"
  by (simp add: serializeHeader_be be16_def be32_def createPongPacket_def)
    (simp add: MAGIC_HEADER_def drop_bit_eq_div)

text \<open>C23. What is accepted: exactly the buffers of at least eight bytes that start with the magic; and
  nothing of the first eight bytes is lost, since serializing the decoded header gives them back
  (also when the magic is wrong). A shorter buffer leaves the output header as it was.\<close>

theorem deserialize_accepts:
  "(fst (deserializeHeader le data h0) \<longleftrightarrow> HEADER_SIZE \<le> length data \<and> take 2 data = [0x41, 0x4E]) \<and>
   (if length data < HEADER_SIZE then snd (deserializeHeader le data h0) = h0
    else serializeHeader le' (snd (deserializeHeader le data h0)) = take HEADER_SIZE data)"
proof (cases "length data < HEADER_SIZE")
  case True
  then show ?thesis by (simp add: deserializeHeader_def)
next
  case False
  then have len: "length data \<ge> 8" by (simp add: HEADER_SIZE_def)
  let ?h = "\<lparr>h_magic = ntohs le (load16 le data), h_type = ntohs le (load16 le (drop 2 data)),
    h_length = ntohl le (load32 le (drop 4 data))\<rparr>"
  have res: "deserializeHeader le data h0 = (h_magic ?h = MAGIC_HEADER, ?h)"
    using False by (simp add: deserializeHeader_def Let_def)
  have be: "be16 (h_magic ?h) = take 2 data" "be16 (h_type ?h) = take 2 (drop 2 data)"
    "be32 (h_length ?h) = take 4 (drop 4 data)"
    using len by (simp_all add: be_load)
  have "take 2 data @ take 2 (drop 2 data) @ take 4 (drop 4 data) = take HEADER_SIZE data"
    by (simp add: HEADER_SIZE_def take_add [symmetric] flip: append_assoc)
  then have ser: "serializeHeader le' ?h = take HEADER_SIZE data"
    unfolding serializeHeader_be be .
  have "h_magic ?h = MAGIC_HEADER \<longleftrightarrow> be16 (h_magic ?h) = be16 MAGIC_HEADER"
    using load_be(1) [of False _ "[]"] by metis
  then have "h_magic ?h = MAGIC_HEADER \<longleftrightarrow> take 2 data = [0x41, 0x4E]"
    unfolding be be_magic .
  then show ?thesis using res ser False by (simp only: fst_conv snd_conv if_False) auto
qed

end
