(* ===== verification/Net_Frame.thy ===== *)
theory Net_Frame
  imports Net_Protocol "HOL-Library.Sublist"
begin

text \<open>
  Frames in a byte stream, and what a session is to answer. \<open>read_frame\<close> is the framing that
  the read handlers of a session implement piecewise: a header of eight bytes, a limit on the
  announced length, then that many bytes of payload. \<open>serve\<close> is the specification of a
  session: the response frames a stream of bytes calls for, up to the first frame that ends
  the session.

  The locale is the contract of a self-delimiting code: encodings that can be read off the
  front of any stream. The client's lemma, that a concatenation of encodings is read back, is
  used for frames at the end.
\<close>

locale self_delimiting =
  fixes encode :: "'a \<Rightarrow> bytes"
    and next_item :: "bytes \<Rightarrow> ('a \<times> bytes) option"
    and valid :: "'a \<Rightarrow> bool"
  assumes next_encode: "valid x \<Longrightarrow> next_item (encode x @ rest) = Some (x, rest)"
    and next_shorter: "next_item bs = Some (x, rest) \<Longrightarrow> length rest < length bs"
begin

lemma encode_inj: "valid x \<Longrightarrow> valid y \<Longrightarrow> encode x @ r = encode y @ r' \<Longrightarrow> x = y \<and> r = r'"
  using next_encode by (metis option.inject prod.inject)

lemma prefix_free: "valid x \<Longrightarrow> valid y \<Longrightarrow> prefix (encode x) (encode y) \<Longrightarrow> x = y"
  using encode_inj unfolding prefix_def by (metis append_Nil2 append_assoc)

text \<open>A stream of encodings has one reading only.\<close>

lemma encodes_inj:
  "\<forall>x \<in> set xs. valid x \<Longrightarrow> \<forall>y \<in> set ys. valid y \<Longrightarrow>
     concat (map encode xs) = concat (map encode ys) \<Longrightarrow> xs = ys"
proof (induction xs arbitrary: ys)
  case Nil
  show ?case
  proof (cases ys)
    case (Cons y ys')
    have "next_item (encode y @ concat (map encode ys')) = Some (y, concat (map encode ys'))"
      using Nil Cons by (intro next_encode) simp
    then have "length (concat (map encode ys')) < length (encode y @ concat (map encode ys'))"
      by (rule next_shorter)
    with Nil(3) Cons show ?thesis by simp
  qed simp
next
  case (Cons x xs)
  have "next_item (encode x @ concat (map encode xs)) = Some (x, concat (map encode xs))"
    using Cons.prems by (intro next_encode) simp
  then have len: "0 < length (encode x @ concat (map encode xs))" using next_shorter by fastforce
  show ?case
  proof (cases ys)
    case Nil
    then show ?thesis using Cons.prems(3) len by simp
  next
    case (Cons y ys')
    have "x = y \<and> concat (map encode xs) = concat (map encode ys')"
      using Cons.prems Cons by (intro encode_inj) auto
    then show ?thesis using Cons.IH [of ys'] Cons.prems Cons by simp
  qed
qed

end

section \<open>Reading frames\<close>

datatype frame_result =
    Incomplete
  | Malformed
  | Oversized
  | Frame Header bytes bytes \<comment> \<open>header, payload, the rest of the stream\<close>

definition take_payload :: "Header \<Rightarrow> bytes \<Rightarrow> frame_result" where
  "take_payload h bs =
     (if length bs < unat (h_length h) then Incomplete
      else Frame h (take (unat (h_length h)) bs) (drop (unat (h_length h)) bs))"

definition read_frame :: "bool \<Rightarrow> bytes \<Rightarrow> frame_result" where
  "read_frame le bs =
     (if length bs < HEADER_SIZE then Incomplete
      else case deserializeHeader le (take HEADER_SIZE bs) Header_default of
        (False, _) \<Rightarrow> Malformed
      | (True, h) \<Rightarrow>
          if unat (h_length h) > MAX_PAYLOAD_SIZE then Oversized
          else take_payload h (drop HEADER_SIZE bs))"

lemma read_frame_shorter: "read_frame le bs = Frame h p rest \<Longrightarrow> length rest < length bs"
  by (auto simp: read_frame_def take_payload_def HEADER_SIZE_def split: if_splits prod.splits bool.splits)

text \<open>The response to a frame, \<open>None\<close> when the message gets none.\<close>

definition response :: "MessageType \<Rightarrow> bytes \<Rightarrow> Packet option" where
  "response ty payload =
     (if ty = PING then Some createPongPacket
      else if ty = ECHO_REQUEST then Some (createEchoResponse payload)
      else None)"

definition respond :: "bool \<Rightarrow> MessageType \<Rightarrow> bytes \<Rightarrow> bytes list" where
  "respond le ty payload = (case response ty payload of None \<Rightarrow> [] | Some pkt \<Rightarrow> [serializePacket le pkt])"

text \<open>The responses a stream calls for. A disconnect request, a malformed or an oversized header ends it.\<close>

function serve :: "bool \<Rightarrow> bytes \<Rightarrow> bytes list" where
  "serve le bs = (case read_frame le bs of
     Frame h payload rest \<Rightarrow>
       if h_type h = DISCONNECT then [] else respond le (h_type h) payload @ serve le rest
   | _ \<Rightarrow> [])"
  by pat_completeness auto
termination by (relation "measure (\<lambda>(le, bs). length bs)") (auto dest: read_frame_shorter)

declare serve.simps [simp del]

text \<open>More input never changes what was read before.\<close>

lemma read_frame_append:
  assumes "read_frame le bs \<noteq> Incomplete"
  shows "read_frame le (bs @ bs2) = (case read_frame le bs of
    Frame h p rest \<Rightarrow> Frame h p (rest @ bs2) | r \<Rightarrow> r)"
proof -
  have len: "\<not> length bs < HEADER_SIZE" using assms by (auto simp: read_frame_def)
  then have "take HEADER_SIZE (bs @ bs2) = take HEADER_SIZE bs"
    "drop HEADER_SIZE (bs @ bs2) = drop HEADER_SIZE bs @ bs2" by simp_all
  then show ?thesis
    using assms len unfolding read_frame_def
    by (auto simp: take_payload_def split: prod.splits bool.splits if_splits)
qed

lemma serve_prefix: "prefix (serve le bs) (serve le (bs @ bs2))"
proof (induction le bs rule: serve.induct)
  case (1 le bs)
  show ?case
  proof (cases "read_frame le bs")
    case (Frame h p rest)
    then have "read_frame le (bs @ bs2) = Frame h p (rest @ bs2)" by (simp add: read_frame_append)
    then show ?thesis
      using 1 Frame by (simp add: serve.simps [of le bs] serve.simps [of le "bs @ bs2"])
  qed (simp_all add: serve.simps [of le bs])
qed

section \<open>Valid frames\<close>

text \<open>A packet as the protocol's own functions make them: the magic is right, the length field is the
  length of the payload, which is within the limit.\<close>

definition valid_packet :: "Packet \<Rightarrow> bool" where
  "valid_packet p \<longleftrightarrow> h_magic (p_header p) = MAGIC_HEADER \<and> length (p_payload p) \<le> MAX_PAYLOAD_SIZE \<and>
     h_length (p_header p) = of_nat (length (p_payload p))"

definition next_packet :: "bool \<Rightarrow> bytes \<Rightarrow> (Packet \<times> bytes) option" where
  "next_packet le bs = (case read_frame le bs of
     Frame h p rest \<Rightarrow> Some (\<lparr>p_header = h, p_payload = p\<rparr>, rest) | _ \<Rightarrow> None)"

lemma unat_payload_length: "n \<le> MAX_PAYLOAD_SIZE \<Longrightarrow> unat (of_nat n :: u32) = n"
  by (simp add: MAX_PAYLOAD_SIZE_def unat_of_nat)

lemma serializePacket_valid: "valid_packet p \<Longrightarrow> serializePacket le p = serializeHeader le (p_header p) @ p_payload p"
  by (simp add: serializePacket_def serializeHeader_be valid_packet_def Let_def)

lemma read_frame_packet:
  assumes "valid_packet p"
  shows "read_frame le' (serializePacket le p @ rest) = Frame (p_header p) (p_payload p) rest"
proof -
  let ?h = "p_header p" and ?s = "serializeHeader le (p_header p)"
  have len: "unat (h_length ?h) = length (p_payload p)"
    using assms unat_payload_length by (simp add: valid_packet_def)
  have "take HEADER_SIZE (?s @ p_payload p @ rest) = ?s" "drop HEADER_SIZE (?s @ p_payload p @ rest) = p_payload p @ rest"
    by simp_all
  moreover have "deserializeHeader le' ?s Header_default = (True, ?h)"
    using deserialize_serialize [of le' le ?h "[]" Header_default] assms by (simp add: valid_packet_def)
  ultimately show ?thesis
    using assms len by (simp add: read_frame_def serializePacket_valid take_payload_def valid_packet_def)
qed

interpretation frames: self_delimiting "serializePacket le" "next_packet le'" valid_packet for le le'
proof
  show "next_packet le' (serializePacket le x @ rest) = Some (x, rest)" if "valid_packet x" for x rest
    using read_frame_packet [OF that] by (simp add: next_packet_def)
  show "length rest < length bs" if "next_packet le' bs = Some (x, rest)" for bs x rest
    using that read_frame_shorter by (fastforce simp: next_packet_def split: frame_result.splits)
qed

lemma valid_responses:
  "valid_packet createPongPacket" "length payload \<le> MAX_PAYLOAD_SIZE \<Longrightarrow> valid_packet (createEchoResponse payload)"
  by (simp_all add: valid_packet_def createPongPacket_def createEchoResponse_def)

lemma serve_packet:
  assumes "valid_packet p"
  shows "serve le' (serializePacket le p @ rest) = (if h_type (p_header p) = DISCONNECT then []
     else respond le' (h_type (p_header p)) (p_payload p) @ serve le' rest)"
  using read_frame_packet [OF assms] by (simp add: serve.simps [of le' "serializePacket le p @ rest"])

lemma serve_empty [simp]: "serve le [] = []"
  by (simp add: serve.simps read_frame_def HEADER_SIZE_def)

lemma serve_packets:
  assumes "\<forall>p \<in> set ps. valid_packet p \<and> h_type (p_header p) \<noteq> DISCONNECT"
  shows "serve le' (concat (map (serializePacket le) ps)) =
    concat (map (\<lambda>p. respond le' (h_type (p_header p)) (p_payload p)) ps)"
  using assms by (induction ps) (simp_all add: serve_packet)

end
