(* ===== verification/Net_Atoi.thy ===== *)
theory Net_Atoi
  imports Text_Out
begin

text \<open>
  \<open>std::atoi\<close>, which both programs apply to their options: optional white space, a sign,
  digits, then anything. A value outside \<open>int\<close> is undefined behaviour, \<open>None\<close> here.
  What \<open>decimal\<close> writes is read back.
\<close>

definition isspace :: "char \<Rightarrow> bool" where
  "isspace c \<longleftrightarrow> of_char c \<in> {32, 9, 10, 11, 12, 13 :: nat}"

definition isdigit :: "char \<Rightarrow> bool" where
  "isdigit c \<longleftrightarrow> 48 \<le> (of_char c :: nat) \<and> (of_char c :: nat) \<le> 57"

fun read_digits :: "int \<Rightarrow> string \<Rightarrow> int" where
  "read_digits acc [] = acc"
| "read_digits acc (c # cs) =
     (if isdigit c then read_digits (10 * acc + (int (of_char c) - 48)) cs else acc)"

definition INT_MAX :: int where "INT_MAX = 2147483647"

definition atoi :: "string \<Rightarrow> int option" where
  "atoi s =
     (let cs = dropWhile isspace s;
          v = (case cs of
                 c # ds \<Rightarrow> if c = CHR ''-'' then - read_digits 0 ds
                          else if c = CHR ''+'' then read_digits 0 ds else read_digits 0 cs
               | [] \<Rightarrow> 0)
      in if - INT_MAX - 1 \<le> v \<and> v \<le> INT_MAX then Some v else None)"

section \<open>Reading back what is written\<close>

lemma digit_char:
  assumes "n < 10"
  shows "isdigit (char_of (48 + n))" "(of_char (char_of (48 + n) :: char) :: nat) = 48 + n"
proof -
  have "(48 + n) mod 256 = 48 + n" using assms by simp
  then show nat: "(of_char (char_of (48 + n) :: char) :: nat) = 48 + n" by (simp only: of_char_of)
  then show "isdigit (char_of (48 + n))" using assms by (simp add: isdigit_def)
qed

lemma read_digits_append:
  "\<forall>c \<in> set cs. isdigit c \<Longrightarrow> read_digits acc (cs @ ds) = read_digits (read_digits acc cs) ds"
  by (induction cs arbitrary: acc) simp_all

lemma decimal_digits: "\<forall>c \<in> set (decimal n). isdigit c"
proof (induction n rule: decimal.induct)
  case (1 n)
  then show ?case using digit_char(1) [of n] digit_char(1) [of "n mod 10"]
    by (simp add: decimal.simps [of n])
qed

lemma read_decimal: "read_digits 0 (decimal n) = int n"
proof (induction n rule: decimal.induct)
  case (1 n)
  show ?case
  proof (cases "n < 10")
    case True
    then show ?thesis using digit_char [of n] by (simp add: decimal.simps [of n])
  next
    case False
    have "10 * int (n div 10) + int (n mod 10) = int n" by presburger
    then show ?thesis
      using 1 False decimal_digits [of "n div 10"] digit_char [of "n mod 10"]
      by (simp add: decimal.simps [of n] read_digits_append)
  qed
qed

lemma digit_no_sign: "isdigit c \<Longrightarrow> c \<noteq> CHR ''-'' \<and> c \<noteq> CHR ''+'' \<and> \<not> isspace c"
  by (auto simp: isdigit_def isspace_def)

lemma atoi_decimal:
  assumes "int n \<le> INT_MAX"
  shows "atoi (decimal n) = Some (int n)"
proof -
  obtain c cs where d: "decimal n = c # cs" by (cases "decimal n") (auto simp: decimal.simps [of n] split: if_splits)
  then have "isdigit c" using decimal_digits [of n] by simp
  then have "c \<noteq> CHR ''-''" "c \<noteq> CHR ''+''" "\<not> isspace c" using digit_no_sign by blast+
  then show ?thesis
    using read_decimal [of n] d assms by (simp add: atoi_def Let_def INT_MAX_def)
qed

end
