(* ===== verification/Net_Client.thy ===== *)
theory Net_Client
  imports Net_Frame Net_Atoi
begin

text \<open>
  The load generator (\<open>client/BenchmarkClient.cpp\<close>): its workers, each of which talks to the
  server over one blocking connection, and the program around them. The server is the parameter
  \<open>peer\<close>: the bytes it has sent once it was sent the given bytes, \<open>None\<close> when the connection
  breaks before it has received them all. A write to a broken connection throws, and a read
  for which the peer never sends enough bytes ends with an exception, so a peer that sends no more is assumed
  to close the connection (the code would wait for one that stays silent); then the worker counts
  one error and is done. \<open>now n\<close> is the \<open>n\<close>-th reading of the worker's clock, in nanoseconds.
\<close>

type_synonym peer = "bytes \<Rightarrow> bytes option"

record Client =
  sent :: bytes \<comment> \<open>all that was written to the socket\<close>
  consumed :: nat \<comment> \<open>how many of the peer's bytes were read\<close>
  threadLatencies :: "rat list"
  globalCompleted :: u64
  globalErrors :: u64
  latencies :: "rat list"

definition Client_init :: Client where
  "Client_init = \<lparr>sent = [], consumed = 0, threadLatencies = [], globalCompleted = 0, globalErrors = 0,
     latencies = []\<rparr>"

definition testPayload :: bytes where
  "testPayload = map (\<lambda>c. of_char c) ''AsyncNet High-Performance Benchmark Payload Engine 2026!''"

definition request_packet :: Packet where
  "request_packet = \<lparr>p_header = \<lparr>h_magic = MAGIC_HEADER, h_type = ECHO_REQUEST,
     h_length = of_nat (length testPayload)\<rparr>, p_payload = testPayload\<rparr>"

definition disconnect_packet :: Packet where
  "disconnect_packet = \<lparr>p_header = \<lparr>h_magic = MAGIC_HEADER, h_type = DISCONNECT, h_length = 0\<rparr>, p_payload = []\<rparr>"

definition client_write :: "peer \<Rightarrow> bytes \<Rightarrow> Client \<Rightarrow> Client option" where
  "client_write peer bs c =
     (case peer (sent c @ bs) of None \<Rightarrow> None | Some _ \<Rightarrow> Some (c\<lparr>sent := sent c @ bs\<rparr>))"

definition client_read :: "peer \<Rightarrow> nat \<Rightarrow> Client \<Rightarrow> (bytes \<times> Client) option" where
  "client_read peer n c =
     (case peer (sent c) of
        None \<Rightarrow> None
      | Some received \<Rightarrow>
          let avail = drop (consumed c) received in
          if length avail < n then None else Some (take n avail, c\<lparr>consumed := consumed c + n\<rparr>))"

definition microseconds :: "int \<Rightarrow> rat" where
  "microseconds ns = of_int ns / 1000"

text \<open>The body of the request loop, and the loop; \<open>Inl\<close> is an exception.\<close>

definition client_request :: "bool \<Rightarrow> peer \<Rightarrow> (nat \<Rightarrow> int) \<Rightarrow> nat \<Rightarrow> Client \<Rightarrow> Client + Client" where
  "client_request le peer now i c =
     (let start = now (2 * i);
          completed = (\<lambda>c. c\<lparr>threadLatencies := threadLatencies c @ [microseconds (now (2 * i + 1) - start)],
                              globalCompleted := globalCompleted c + 1\<rparr>) in
      case client_write peer (serializePacket le request_packet) c of
        None \<Rightarrow> Inl c
      | Some c1 \<Rightarrow>
      case client_read peer HEADER_SIZE c1 of
        None \<Rightarrow> Inl c1
      | Some (headerBuf, c2) \<Rightarrow>
          (case deserializeHeader le headerBuf Header_default of
             (False, _) \<Rightarrow> Inr (c2\<lparr>globalErrors := globalErrors c2 + 1\<rparr>)
           | (True, respHeader) \<Rightarrow>
               if h_length respHeader > 0 then
                 (case client_read peer (unat (h_length respHeader)) c2 of
                    None \<Rightarrow> Inl c2
                  | Some (payloadBuf, c3) \<Rightarrow> Inr (completed c3))
               else Inr (completed c2)))"

fun client_loop :: "bool \<Rightarrow> peer \<Rightarrow> (nat \<Rightarrow> int) \<Rightarrow> nat \<Rightarrow> nat \<Rightarrow> Client \<Rightarrow> Client + Client" where
  "client_loop le peer now i 0 c = Inr c"
| "client_loop le peer now i (Suc k) c =
     (case client_request le peer now i c of
        Inl c1 \<Rightarrow> Inl c1
      | Inr c1 \<Rightarrow> client_loop le peer now (Suc i) k c1)"

text \<open>\<open>reserve\<close> throws for a negative number of requests, which is a huge \<open>size_t\<close>.\<close>

definition runClientWorker ::
  "bool \<Rightarrow> peer option \<Rightarrow> (nat \<Rightarrow> int) \<Rightarrow> int \<Rightarrow> Client \<Rightarrow> Client" where
  "runClientWorker le connection now requestsPerClient c =
     (let failed = (\<lambda>c. c\<lparr>globalErrors := globalErrors c + 1\<rparr>);
          c0 = c\<lparr>sent := [], consumed := 0, threadLatencies := []\<rparr> in
      case connection of
        None \<Rightarrow> failed c0
      | Some peer \<Rightarrow>
          if requestsPerClient < 0 then failed c0
          else (case client_loop le peer now 0 (nat requestsPerClient) c0 of
             Inl c1 \<Rightarrow> failed c1
           | Inr c1 \<Rightarrow>
               (case client_write peer (serializePacket le disconnect_packet) c1 of
                  None \<Rightarrow> failed c1
                | Some c2 \<Rightarrow> c2\<lparr>latencies := latencies c2 @ threadLatencies c2\<rparr>)))"

section \<open>The program\<close>

record client_config =
  host :: string
  port :: u16
  numClients :: int
  requestsPerClient :: int

definition client_defaults :: client_config where
  "client_defaults = \<lparr>host = ''127.0.0.1'', port = 8080, numClients = 20, requestsPerClient = 1000\<rparr>"

text \<open>An option without a value is ignored, as is anything else.\<close>

fun client_args :: "string list \<Rightarrow> client_config \<Rightarrow> client_config option" where
  "client_args [] cfg = Some cfg"
| "client_args [arg] cfg = Some cfg"
| "client_args (arg # v # args) cfg =
     (if arg = ''--host'' then client_args args (cfg\<lparr>host := v\<rparr>)
      else if arg = ''--port'' then
        (case atoi v of None \<Rightarrow> None | Some n \<Rightarrow> client_args args (cfg\<lparr>port := of_int n\<rparr>))
      else if arg = ''--clients'' then
        (case atoi v of None \<Rightarrow> None | Some n \<Rightarrow> client_args args (cfg\<lparr>numClients := n\<rparr>))
      else if arg = ''--requests'' then
        (case atoi v of None \<Rightarrow> None | Some n \<Rightarrow> client_args args (cfg\<lparr>requestsPerClient := n\<rparr>))
      else client_args (v # args) cfg)"

text \<open>
  The threads are joined before the counters are read, the counters are atomic and the vector is
  behind a mutex, so the order of the workers does not matter: they are run one after the other.
\<close>

definition run_clients :: "bool \<Rightarrow> int \<Rightarrow> (peer option \<times> (nat \<Rightarrow> int)) list \<Rightarrow> Client \<Rightarrow> Client" where
  "run_clients le requests workers c =
     fold (\<lambda>(connection, now). runClientWorker le connection now requests) workers c"

text \<open>The results: what is read off the counters and the sorted latencies, 0 where there are none.\<close>

record client_report =
  totalDurationSec :: rat
  completedRequests :: u64
  errorCount :: u64
  avgLatencyUs :: rat
  p50 :: rat
  p95 :: rat
  p99 :: rat

definition client_results :: "int \<Rightarrow> Client \<Rightarrow> client_report" where
  "client_results elapsed c =
     (let latenciesUs = sort (latencies c);
          percentile = (\<lambda>p. if latenciesUs = [] then 0 else quantile p 100 latenciesUs)
      in \<lparr>totalDurationSec = of_int elapsed / 10 ^ 9,
          completedRequests = globalCompleted c, errorCount = globalErrors c,
          avgLatencyUs = (if latencies c = [] then 0 else sum_list (latencies c) / of_nat (length (latencies c))),
          p50 = percentile 50, p95 = percentile 95, p99 = percentile 99\<rparr>)"

text \<open>
  A negative number of clients makes \<open>threads.reserve\<close> throw, which nothing catches: \<open>None\<close>.
  The main thread reads its clock twice.
\<close>

definition client_main ::
  "bool \<Rightarrow> (nat \<Rightarrow> peer option \<times> (nat \<Rightarrow> int)) \<Rightarrow> (nat \<Rightarrow> int) \<Rightarrow> client_config \<Rightarrow> client_report option" where
  "client_main le worker clock cfg =
     (if numClients cfg < 0 then None
      else let c = run_clients le (requestsPerClient cfg) (map worker [0..<nat (numClients cfg)]) Client_init
           in Some (client_results (clock 1 - clock 0) c))"

text \<open>
  What is announced before the run. The workload is a product of two \<open>int\<close>, whose overflow
  is undefined behaviour (\<open>None\<close>).
\<close>

definition client_banner :: "client_config \<Rightarrow> string list option" where
  "client_banner cfg =
     (let work = numClients cfg * requestsPerClient cfg in
      if work < - INT_MAX - 1 \<or> INT_MAX < work then None
      else Some
       ['''',
        ''======================================================'',
        ''  AsyncNet-Server Benchmark Load Generator'',
        ''======================================================'',
        ''Target Host:          '' @ host cfg @ '':'' @ show_word (port cfg),
        ''Concurrent Clients:   '' @ show_int (numClients cfg),
        ''Requests / Client:    '' @ show_int (requestsPerClient cfg),
        ''Total Workload:       '' @ show_int work @ '' requests'',
        ''------------------------------------------------------'',
        ''Running benchmark...''])"

text \<open>
  What is written after it. A run that takes no time by the clock divides by zero, which a
  \<open>double\<close> shows as infinite or as no number.
\<close>

definition throughput :: "u64 \<Rightarrow> rat \<Rightarrow> string" where
  "throughput completed seconds =
     (if seconds \<noteq> 0 then fixed 2 (of_nat (unat completed) / seconds)
      else if completed = 0 then ''-nan'' else ''inf'')"

definition report_text :: "client_report \<Rightarrow> string list" where
  "report_text r =
    ['''',
     ''======================================================'',
     ''                BENCHMARK RESULTS                     '',
     ''======================================================'',
     ''Total Duration:       '' @ fixed 3 (totalDurationSec r) @ '' seconds'',
     ''Successful Requests:  '' @ show_word (completedRequests r),
     ''Failed Requests:      '' @ show_word (errorCount r),
     ''Throughput:           '' @ throughput (completedRequests r) (totalDurationSec r) @ '' req/sec'',
     ''------------------------------------------------------'',
     ''Latency Profile:'',
     ''  Average (Mean):     '' @ fixed 2 (avgLatencyUs r) @ '' us'',
     ''  50th %ile (p50):    '' @ fixed 2 (p50 r) @ '' us'',
     ''  95th %ile (p95):    '' @ fixed 2 (p95 r) @ '' us'',
     ''  99th %ile (p99):    '' @ fixed 2 (p99 r) @ '' us'',
     ''======================================================'',
     '''']"

text \<open>The whole program; \<open>worker h p i\<close> is the connection of client \<open>i\<close> to host \<open>h\<close> and port \<open>p\<close>, and its clock.\<close>

definition client_program ::
  "bool \<Rightarrow> (string \<Rightarrow> u16 \<Rightarrow> nat \<Rightarrow> peer option \<times> (nat \<Rightarrow> int)) \<Rightarrow> (nat \<Rightarrow> int) \<Rightarrow> string list \<Rightarrow>
   string list option" where
  "client_program le worker clock args =
     (case client_args args client_defaults of
        None \<Rightarrow> None
      | Some cfg \<Rightarrow>
          (case client_banner cfg of
             None \<Rightarrow> None
           | Some banner \<Rightarrow>
               map_option (\<lambda>report. banner @ report_text report)
                 (client_main le (worker (host cfg) (port cfg)) clock cfg)))"

section \<open>Against any server\<close>

text \<open>A worker accounts for each of its requests: \<open>k\<close> are counted as completed, \<open>e\<close> errors are counted,
  and with no error counted it has completed them all and reported the time of each.\<close>

lemma client_request_accounts:
  "case client_request le peer now i c of
     Inl c' \<Rightarrow> (globalCompleted c', globalErrors c', threadLatencies c', latencies c') =
       (globalCompleted c, globalErrors c, threadLatencies c, latencies c)
   | Inr c' \<Rightarrow> latencies c' = latencies c \<and>
       (globalCompleted c' = globalCompleted c + 1 \<and> globalErrors c' = globalErrors c \<and>
          length (threadLatencies c') = Suc (length (threadLatencies c)) \<or>
        globalCompleted c' = globalCompleted c \<and> globalErrors c' = globalErrors c + 1 \<and>
          threadLatencies c' = threadLatencies c)"
  by (simp add: client_request_def client_write_def client_read_def Let_def
      split: option.split prod.split bool.split)

lemma client_loop_accounts:
  "\<exists>k e. case client_loop le peer now i n c of
     Inl c' \<Rightarrow> k + e < n \<and> globalCompleted c' = globalCompleted c + of_nat k \<and>
       globalErrors c' = globalErrors c + of_nat e \<and> latencies c' = latencies c
   | Inr c' \<Rightarrow> k + e = n \<and> globalCompleted c' = globalCompleted c + of_nat k \<and>
       globalErrors c' = globalErrors c + of_nat e \<and> latencies c' = latencies c \<and>
       length (threadLatencies c') = length (threadLatencies c) + k"
proof (induction n arbitrary: i c)
  case 0
  show ?case by (intro exI [of _ 0]) simp
next
  case (Suc n)
  show ?case
  proof (cases "client_request le peer now i c")
    case (Inl c')
    then show ?thesis
      using client_request_accounts [where le = le and peer = peer and now = now and i = i and c = c] by (intro exI [of _ 0]) simp
  next
    case (Inr c')
    obtain k e where IH: "case client_loop le peer now (Suc i) n c' of
       Inl c'' \<Rightarrow> k + e < n \<and> globalCompleted c'' = globalCompleted c' + of_nat k \<and>
         globalErrors c'' = globalErrors c' + of_nat e \<and> latencies c'' = latencies c'
     | Inr c'' \<Rightarrow> k + e = n \<and> globalCompleted c'' = globalCompleted c' + of_nat k \<and>
         globalErrors c'' = globalErrors c' + of_nat e \<and> latencies c'' = latencies c' \<and>
         length (threadLatencies c'') = length (threadLatencies c') + k" using Suc.IH by blast
    note step = client_request_accounts [where le = le and peer = peer and now = now and i = i and c = c, unfolded Inr sum.case]
    from step have "latencies c' = latencies c" by simp
    from step consider
        (counted) "globalCompleted c' = globalCompleted c + 1" "globalErrors c' = globalErrors c"
          "length (threadLatencies c') = Suc (length (threadLatencies c))"
      | (failed) "globalCompleted c' = globalCompleted c" "globalErrors c' = globalErrors c + 1"
          "threadLatencies c' = threadLatencies c" by blast
    then show ?thesis
    proof cases
      case counted
      with IH \<open>latencies c' = latencies c\<close> Inr show ?thesis
        by - (rule exI [of _ "Suc k"], rule exI [of _ e], simp split: sum.splits)
    next
      case failed
      with IH \<open>latencies c' = latencies c\<close> Inr show ?thesis
        by - (rule exI [of _ k], rule exI [of _ "Suc e"], simp split: sum.splits)
    qed
  qed
qed

lemma client_worker_accounts:
  fixes le connection now r c
  defines "c' \<equiv> runClientWorker le connection now r c"
  shows "\<exists>k e. globalCompleted c' = globalCompleted c + of_nat k \<and> globalErrors c' = globalErrors c + of_nat e \<and>
     k + e \<le> Suc (nat r) \<and> k \<le> nat r \<and> (e = 0 \<longrightarrow> k = nat r) \<and>
     (latencies c' = latencies c \<and> 0 < e \<or> length (latencies c') = length (latencies c) + k)"
proof (cases "\<exists>peer. connection = Some peer \<and> 0 \<le> r")
  case False
  then have "c' = c\<lparr>sent := [], consumed := 0, threadLatencies := [], globalErrors := globalErrors c + 1\<rparr>"
    by (cases connection) (auto simp: c'_def runClientWorker_def Let_def)
  then show ?thesis by - (rule exI [of _ 0], rule exI [of _ 1], simp)
next
  case True
  then obtain peer where peer: "connection = Some peer" and r: "\<not> r < 0" by auto
  let ?c0 = "c\<lparr>sent := [], consumed := 0, threadLatencies := []\<rparr>"
  let ?n = "nat r"
  obtain k e where loop: "case client_loop le peer now 0 ?n ?c0 of
     Inl c'' \<Rightarrow> k + e < ?n \<and> globalCompleted c'' = globalCompleted ?c0 + of_nat k \<and>
       globalErrors c'' = globalErrors ?c0 + of_nat e \<and> latencies c'' = latencies ?c0
   | Inr c'' \<Rightarrow> k + e = ?n \<and> globalCompleted c'' = globalCompleted ?c0 + of_nat k \<and>
       globalErrors c'' = globalErrors ?c0 + of_nat e \<and> latencies c'' = latencies ?c0 \<and>
       length (threadLatencies c'') = length (threadLatencies ?c0) + k" using client_loop_accounts by blast
  show ?thesis
  proof (cases "client_loop le peer now 0 ?n ?c0")
    case (Inl c1)
    then show ?thesis using loop r
      by - (rule exI [of _ k], rule exI [of _ "Suc e"], simp add: c'_def runClientWorker_def peer Let_def)
  next
    case (Inr c1)
    show ?thesis
    proof (cases "client_write peer (serializePacket le disconnect_packet) c1")
      case None
      then show ?thesis using loop r Inr
        by - (rule exI [of _ k], rule exI [of _ "Suc e"], simp add: c'_def runClientWorker_def peer Let_def)
    next
      case (Some c2)
      then have "c2 = c1\<lparr>sent := sent c1 @ serializePacket le disconnect_packet\<rparr>"
        by (simp add: client_write_def split: option.splits)
      then show ?thesis using loop r Inr Some
        by - (rule exI [of _ k], rule exI [of _ e], simp add: c'_def runClientWorker_def peer Let_def)
    qed
  qed
qed

lemma run_clients_account:
  "\<exists>k e. globalCompleted (run_clients le r ws c) = globalCompleted c + of_nat k \<and>
     globalErrors (run_clients le r ws c) = globalErrors c + of_nat e \<and>
     k + e \<le> length ws * Suc (nat r) \<and> k \<le> length ws * nat r \<and> (e = 0 \<longrightarrow> k = length ws * nat r) \<and>
     length (latencies (run_clients le r ws c)) \<le> length (latencies c) + k \<and>
     (e = 0 \<longrightarrow> length (latencies (run_clients le r ws c)) = length (latencies c) + k)"
proof (induction ws arbitrary: c)
  case Nil
  show ?case by (intro exI [of _ 0]) (simp add: run_clients_def)
next
  case (Cons w ws)
  obtain connection now where w: "w = (connection, now)" by (cases w)
  define c' where "c' = runClientWorker le connection now r c"
  have run: "run_clients le r (w # ws) c = run_clients le r ws c'" by (simp add: run_clients_def w c'_def)
  obtain k e where one: "globalCompleted c' = globalCompleted c + of_nat k" "globalErrors c' = globalErrors c + of_nat e"
     "k + e \<le> Suc (nat r)" "k \<le> nat r" "e = 0 \<longrightarrow> k = nat r"
     "latencies c' = latencies c \<and> 0 < e \<or> length (latencies c') = length (latencies c) + k"
    using client_worker_accounts [of le connection now r c] unfolding c'_def by blast
  obtain k' e' where rest: "globalCompleted (run_clients le r ws c') = globalCompleted c' + of_nat k'"
     "globalErrors (run_clients le r ws c') = globalErrors c' + of_nat e'"
     "k' + e' \<le> length ws * Suc (nat r)" "k' \<le> length ws * nat r" "e' = 0 \<longrightarrow> k' = length ws * nat r"
     "length (latencies (run_clients le r ws c')) \<le> length (latencies c') + k'"
     "e' = 0 \<longrightarrow> length (latencies (run_clients le r ws c')) = length (latencies c') + k'"
    using Cons.IH [of c'] by blast
  have len: "length (latencies c') \<le> length (latencies c) + k" "e = 0 \<longrightarrow> length (latencies c') = length (latencies c) + k"
    using one(6) by auto
  have "k + k' + (e + e') \<le> length (w # ws) * Suc (nat r)" "k + k' \<le> length (w # ws) * nat r"
    using one(3,4) rest(3,4) by simp_all
  moreover have "e + e' = 0 \<longrightarrow> k + k' = length (w # ws) * nat r" using one(5) rest(5) by simp
  moreover have "length (latencies (run_clients le r ws c')) \<le> length (latencies c) + (k + k')"
    "e + e' = 0 \<longrightarrow> length (latencies (run_clients le r ws c')) = length (latencies c) + (k + k')"
    using len rest(6,7) by auto
  ultimately show ?case unfolding run
    by - (rule exI [of _ "k + k'"], rule exI [of _ "e + e'"], simp add: one(1,2) rest(1,2) ac_simps)
qed

lemma atoi_range: "atoi v = Some n \<Longrightarrow> n \<le> INT_MAX"
  by (auto simp: atoi_def Let_def split: if_splits)

lemma client_args_range:
  "client_args args cfg = Some cfg' \<Longrightarrow> numClients cfg \<le> INT_MAX \<Longrightarrow> requestsPerClient cfg \<le> INT_MAX \<Longrightarrow>
     numClients cfg' \<le> INT_MAX \<and> requestsPerClient cfg' \<le> INT_MAX"
  by (induction args cfg rule: client_args.induct) (auto split: if_splits option.splits dest: atoi_range)

lemma client_program_cases:
  assumes "client_program le worker clock args = Some out"
  obtains cfg banner c where "client_args args client_defaults = Some cfg"
    "numClients cfg \<le> INT_MAX" "requestsPerClient cfg \<le> INT_MAX" "0 \<le> numClients cfg" "client_banner cfg = Some banner"
    "c = run_clients le (requestsPerClient cfg) (map (worker (host cfg) (port cfg)) [0..<nat (numClients cfg)]) Client_init"
    "out = banner @ report_text (client_results (clock 1 - clock 0) c)"
proof -
  have "numClients client_defaults \<le> INT_MAX" "requestsPerClient client_defaults \<le> INT_MAX"
    by (simp_all add: client_defaults_def INT_MAX_def)
  then show ?thesis
    using assms that client_args_range [of args client_defaults]
    by (auto simp: client_program_def client_main_def Let_def split: option.splits if_splits)
qed

text \<open>C35. Whatever the servers do (refuse or drop connections, stay silent, answer garbage), what the load generator
  reports is accounted for: no more requests are completed than were asked for, with the errors
  they are at most one more per client, and a report without errors means that every request was completed
  and its time is among those the percentiles are taken from.\<close>

theorem client_accounts:
  assumes "client_program le worker clock args = Some out"
  shows "\<exists>cfg banner c report. client_args args client_defaults = Some cfg \<and>
    client_banner cfg = Some banner \<and> out = banner @ report_text report \<and>
    c = run_clients le (requestsPerClient cfg) (map (worker (host cfg) (port cfg)) [0..<nat (numClients cfg)]) Client_init \<and>
    report = client_results (clock 1 - clock 0) c \<and>
    (let n = nat (numClients cfg); r = nat (requestsPerClient cfg) in
       unat (completedRequests report) \<le> n * r \<and>
       unat (completedRequests report) + unat (errorCount report) \<le> n * Suc r \<and>
       length (latencies c) \<le> unat (completedRequests report) \<and>
       (errorCount report = 0 \<longrightarrow> unat (completedRequests report) = n * r \<and> length (latencies c) = n * r))"
  using assms
proof (cases rule: client_program_cases)
  case run: (1 cfg banner c)
  let ?n = "nat (numClients cfg)" and ?r = "nat (requestsPerClient cfg)"
  let ?report = "client_results (clock 1 - clock 0) c"
  obtain k e where acc: "globalCompleted c = of_nat k" "globalErrors c = of_nat e" "k + e \<le> ?n * Suc ?r" "k \<le> ?n * ?r"
    "e = 0 \<longrightarrow> k = ?n * ?r" "length (latencies c) \<le> k" "e = 0 \<longrightarrow> length (latencies c) = k"
    using run_clients_account [of le "requestsPerClient cfg"
        "map (worker (host cfg) (port cfg)) [0..<nat (numClients cfg)]" Client_init]
    unfolding run(6) [symmetric] by (auto simp: Client_init_def)
  have "?n \<le> 2147483647" "Suc ?r \<le> 2147483648" using run(2,3) by (simp_all add: INT_MAX_def)
  then have "?n * Suc ?r \<le> 2147483647 * 2147483648" by (rule mult_le_mono)
  then have "k < 2 ^ 64" "e < 2 ^ 64" using acc(3) by simp_all
  then have "unat (completedRequests ?report) = k" "unat (errorCount ?report) = e"
    unfolding client_results_def Let_def client_report.simps acc(1,2) by (simp_all only: unat_of_nat_u64)
  moreover have "errorCount ?report = 0 \<longleftrightarrow> unat (errorCount ?report) = 0" by (simp only: unat_eq_zero)
  ultimately show ?thesis
    using run(1,5,6,7) acc(3-7)
    by (intro exI [of _ cfg] exI [of _ banner] exI [of _ c] exI [of _ ?report]) (simp add: Let_def)
qed

theorem client_accounts_witness:
  "\<exists>out. client_program True (\<lambda>h p i. (None, int)) int [] = Some out \<and>
     (\<exists>banner report. out = banner @ report_text report \<and>
        unat (completedRequests report) + unat (errorCount report) \<le> 20 * 1001)"
proof -
  obtain out where out: "client_program True (\<lambda>h p i. (None, int)) int [] = Some out"
    by (simp add: client_program_def client_defaults_def client_main_def client_banner_def INT_MAX_def)
  from client_accounts [OF out] show ?thesis
    using out by (auto simp: client_defaults_def Let_def)
qed

section \<open>Against a server that answers as specified\<close>

definition echo_server :: "bool \<Rightarrow> peer" where
  "echo_server le bs = Some (concat (serve le bs))"

lemma valid_request: "valid_packet request_packet" "valid_packet disconnect_packet"
  by (simp_all add: valid_packet_def request_packet_def disconnect_packet_def testPayload_def MAX_PAYLOAD_SIZE_def)

abbreviation req_frame :: "bool \<Rightarrow> bytes" where "req_frame le \<equiv> serializePacket le request_packet"
abbreviation resp_frame :: "bool \<Rightarrow> bytes" where "resp_frame le \<equiv> serializePacket le (createEchoResponse testPayload)"

lemma serve_requests: "serve le' (concat (replicate k (req_frame le))) = replicate k (resp_frame le')"
proof -
  have "concat (map (serializePacket le) (replicate k request_packet)) = concat (replicate k (req_frame le))"
    by simp
  moreover have "serve le' (concat (map (serializePacket le) (replicate k request_packet))) =
      concat (map (\<lambda>p. respond le' (h_type (p_header p)) (p_payload p)) (replicate k request_packet))"
    using valid_request by (intro serve_packets) (simp add: request_packet_def message_types)
  moreover have "respond le' ECHO_REQUEST testPayload = [resp_frame le']"
    by (simp add: respond_def response_def message_types)
  ultimately show ?thesis
    by (simp add: request_packet_def map_replicate_const concat_replicate_single)
qed

text \<open>The state of the worker after \<open>k\<close> answered requests, started in \<open>c\<close>.\<close>

definition round_trips :: "(nat \<Rightarrow> int) \<Rightarrow> nat \<Rightarrow> rat list" where
  "round_trips now k = map (\<lambda>i. microseconds (now (2 * i + 1) - now (2 * i))) [0..<k]"

definition answered :: "bool \<Rightarrow> (nat \<Rightarrow> int) \<Rightarrow> nat \<Rightarrow> Client \<Rightarrow> Client" where
  "answered le now k c = c\<lparr>sent := concat (replicate k (req_frame le)),
     consumed := k * length (resp_frame le), threadLatencies := round_trips now k,
     globalCompleted := globalCompleted c + of_nat k\<rparr>"

lemma resp_frame_shape:
  "length (resp_frame le) = HEADER_SIZE + length testPayload"
  "take HEADER_SIZE (resp_frame le) = serializeHeader le (p_header (createEchoResponse testPayload))"
  "drop HEADER_SIZE (resp_frame le) = testPayload"
  "length (resp_frame le) = length (resp_frame le')"
proof -
  have "valid_packet (createEchoResponse testPayload)"
    using valid_responses(2) by (simp add: testPayload_def MAX_PAYLOAD_SIZE_def)
  then have s: "resp_frame le = serializeHeader le (p_header (createEchoResponse testPayload)) @ testPayload" for le
    by (subst serializePacket_valid) (simp_all add: createEchoResponse_def)
  show "length (resp_frame le) = HEADER_SIZE + length testPayload" "length (resp_frame le) = length (resp_frame le')"
    "take HEADER_SIZE (resp_frame le) = serializeHeader le (p_header (createEchoResponse testPayload))"
    "drop HEADER_SIZE (resp_frame le) = testPayload"
    by (simp_all add: s)
qed

lemma length_frames: "length (concat (replicate k xs)) = k * length xs"
  by (induction k) simp_all

lemma client_request_answered:
  "client_request le (echo_server le') now k (answered le now k c) = Inr (answered le now (Suc k) c)"
proof -
  let ?resp = "resp_frame le'" and ?n = "length testPayload"
  let ?all = "concat (replicate (Suc k) (req_frame le))"
  have send: "concat (replicate k (req_frame le)) @ req_frame le = ?all"
    by (metis concat.simps(1,2) concat_append append_Nil2 replicate_append_same replicate_Suc)
  have peer: "echo_server le' ?all = Some (concat (replicate k ?resp) @ ?resp)"
    unfolding echo_server_def serve_requests
    by (metis concat.simps(1,2) concat_append append_Nil2 replicate_append_same replicate_Suc)
  have avail: "drop (k * length (resp_frame le)) (concat (replicate k ?resp) @ ?resp) = ?resp"
    "drop (k * length (resp_frame le) + HEADER_SIZE) (concat (replicate k ?resp) @ ?resp) = testPayload"
    using resp_frame_shape(3) [of le'] resp_frame_shape(4) [of le le']
    by (simp_all add: length_frames)
  have header: "deserializeHeader le (take HEADER_SIZE ?resp) Header_default = (True, p_header (createEchoResponse testPayload))"
    unfolding resp_frame_shape(2)
    using deserialize_serialize [of le le' "p_header (createEchoResponse testPayload)" "[]" Header_default]
    by (simp add: createEchoResponse_def)
  have len: "h_length (p_header (createEchoResponse testPayload)) = of_nat ?n" "unat (of_nat ?n :: u32) = ?n"
    "(0 :: u32) < of_nat ?n"
    by (simp_all add: createEchoResponse_def testPayload_def)
  have "\<not> length ?resp < HEADER_SIZE" by (simp add: resp_frame_shape(1))
  then show ?thesis
    using avail header len send peer resp_frame_shape(1) [of le]
    by (simp add: client_request_def client_write_def client_read_def answered_def round_trips_def Let_def
        del: length_drop)
qed

lemma client_loop_answered:
  "client_loop le (echo_server le') now k n (answered le now k c) = Inr (answered le now (k + n) c)"
  by (induction n arbitrary: k) (simp_all add: client_request_answered)

text \<open>
  Against such a server a worker completes each of its requests, reads every byte of every
  response, and leaves the counters and the latencies accordingly.
\<close>

lemma client_worker_completes:
  "0 \<le> requests \<Longrightarrow> runClientWorker le (Some (echo_server le')) now requests c =
     (let n = nat requests in
      c\<lparr>sent := concat (replicate n (req_frame le)) @ serializePacket le disconnect_packet,
        consumed := length (concat (serve le' (concat (replicate n (req_frame le))))),
        threadLatencies := round_trips now n, globalCompleted := globalCompleted c + of_nat n,
        latencies := latencies c @ round_trips now n\<rparr>)"
proof -
  have start: "c\<lparr>sent := [], consumed := 0, threadLatencies := []\<rparr> = answered le now 0 c"
    by (simp add: answered_def round_trips_def)
  assume "0 \<le> requests"
  then show ?thesis
    using client_loop_answered [of le le' now 0 "nat requests" c] resp_frame_shape(4) [of le le']
    unfolding runClientWorker_def Let_def start
    by (simp add: client_write_def echo_server_def serve_requests length_frames) (simp add: answered_def)
qed

lemma run_clients_complete:
  assumes nonneg: "0 \<le> requests" and "\<forall>w \<in> set workers. \<exists>le'. fst w = Some (echo_server le')"
  shows "globalCompleted (run_clients le requests workers c) =
      globalCompleted c + of_nat (length workers * nat requests) \<and>
    globalErrors (run_clients le requests workers c) = globalErrors c \<and>
    latencies (run_clients le requests workers c) =
      latencies c @ concat (map (\<lambda>w. round_trips (snd w) (nat requests)) workers)"
  using assms(2)
proof (induction workers arbitrary: c)
  case (Cons w ws)
  obtain le' now where w: "w = (Some (echo_server le'), now)" using Cons.prems by (cases w) auto
  let ?c = "runClientWorker le (Some (echo_server le')) now requests c"
  have c: "globalCompleted ?c = globalCompleted c + of_nat (nat requests)" "globalErrors ?c = globalErrors c"
    "latencies ?c = latencies c @ round_trips now (nat requests)"
    by (simp_all add: client_worker_completes [OF nonneg] Let_def)
  have run: "run_clients le requests (w # ws) c = run_clients le requests ws ?c"
    by (simp add: run_clients_def w)
  show ?case using Cons.IH [of ?c] Cons.prems unfolding run by (simp add: c w algebra_simps)
qed (simp add: run_clients_def)

lemma client_results_latencies:
  fixes elapsed c
  assumes "latencies c \<noteq> []"
  defines "r \<equiv> client_results elapsed c"
  shows "{p50 r, p95 r, p99 r} \<subseteq> set (latencies c)" and "p50 r \<le> p95 r" and "p95 r \<le> p99 r"
proof -
  have ne: "sort (latencies c) \<noteq> []" using assms(1) by (metis length_sort length_0_conv)
  show "{p50 r, p95 r, p99 r} \<subseteq> set (latencies c)"
    using quantile_mem [OF assms(1), of _ 100] ne by (simp add: r_def client_results_def Let_def)
  show "p50 r \<le> p95 r" "p95 r \<le> p99 r"
    using ne quantile_mono [OF assms(1)] by (simp_all add: r_def client_results_def Let_def)
qed

lemma client_main_completes:
  assumes "0 \<le> numClients cfg" and "0 \<le> requestsPerClient cfg"
    and "\<forall>i < nat (numClients cfg). \<exists>le'. fst (worker i) = Some (echo_server le')"
  shows "\<exists>report. client_main le worker clock cfg = Some report \<and>
    completedRequests report = of_nat (nat (numClients cfg) * nat (requestsPerClient cfg)) \<and> errorCount report = 0 \<and>
    (0 < numClients cfg \<and> 0 < requestsPerClient cfg \<longrightarrow> p50 report \<le> p95 report \<and> p95 report \<le> p99 report \<and>
      {p50 report, p95 report, p99 report} \<subseteq>
      (\<Union>i < nat (numClients cfg). set (round_trips (snd (worker i)) (nat (requestsPerClient cfg)))))"
proof -
  let ?ws = "map worker [0..<nat (numClients cfg)]" and ?r = "nat (requestsPerClient cfg)"
  let ?lat = "concat (map (\<lambda>w. round_trips (snd w) ?r) ?ws)"
  have ws: "\<forall>w \<in> set ?ws. \<exists>le'. fst w = Some (echo_server le')" using assms(3) by auto
  let ?c = "run_clients le (requestsPerClient cfg) ?ws Client_init"
  let ?report = "client_results (clock 1 - clock 0) ?c"
  have c: "globalCompleted ?c = of_nat (nat (numClients cfg) * ?r)" "globalErrors ?c = 0" "latencies ?c = ?lat"
    using run_clients_complete [OF assms(2) ws, of le Client_init] by (simp_all add: Client_init_def)
  have mem: "set ?lat = (\<Union>i < nat (numClients cfg). set (round_trips (snd (worker i)) ?r))"
    by (auto simp: lessThan_def)
  have "?lat \<noteq> []" if pos: "0 < numClients cfg" "0 < requestsPerClient cfg"
    using pos by (auto simp: round_trips_def intro: exI [of _ 0])
  then have "p50 ?report \<le> p95 ?report \<and> p95 ?report \<le> p99 ?report \<and>
      {p50 ?report, p95 ?report, p99 ?report} \<subseteq> set ?lat" if "0 < numClients cfg" "0 < requestsPerClient cfg"
    using that client_results_latencies [of ?c] unfolding c by blast
  moreover have "client_main le worker clock cfg = Some ?report"
    using assms(1) by (simp add: client_main_def)
  moreover have "completedRequests ?report = of_nat (nat (numClients cfg) * ?r)" "errorCount ?report = 0"
    using c(1,2) by (simp_all only: client_results_def Let_def client_report.simps)
  ultimately show ?thesis unfolding mem by blast
qed

text \<open>C34. The load generator and the server fit together: asked for \<open>n\<close> clients with \<open>r\<close> requests each,
  whose connections are all made to servers that answer as a session does, whatever the byte orders of the
  hosts, the program reports \<open>n * r\<close> completed requests and no error, and each percentile it
  prints (it reads no element out of range) is the round trip time of one of the requests, in order.\<close>

theorem client_completes:
  assumes "int n * int r \<le> INT_MAX" and "int n \<le> INT_MAX" and "int r \<le> INT_MAX"
    and "\<forall>i < n. \<exists>le'. fst (worker ''127.0.0.1'' 8080 i) = Some (echo_server le')"
  shows "\<exists>banner report. client_program le worker clock [''--clients'', decimal n, ''--requests'', decimal r] =
      Some (banner @ report_text report) \<and>
    completedRequests report = of_nat (n * r) \<and> errorCount report = 0 \<and>
    (0 < n \<and> 0 < r \<longrightarrow> p50 report \<le> p95 report \<and> p95 report \<le> p99 report \<and>
      {p50 report, p95 report, p99 report} \<subseteq>
      (\<Union>i < n. set (round_trips (snd (worker ''127.0.0.1'' 8080 i)) r)))"
proof -
  let ?cfg = "\<lparr>host = ''127.0.0.1'', port = 8080, numClients = int n, requestsPerClient = int r\<rparr>"
  have args: "client_args [''--clients'', decimal n, ''--requests'', decimal r] client_defaults = Some ?cfg"
    using atoi_decimal [OF assms(2)] atoi_decimal [OF assms(3)] by (simp add: client_defaults_def)
  have "0 \<le> int n * int r" by (intro mult_nonneg_nonneg) simp_all
  then have "\<not> (int n * int r < - INT_MAX - 1 \<or> INT_MAX < int n * int r)"
    using assms(1) unfolding INT_MAX_def by linarith
  then obtain banner where banner: "client_banner ?cfg = Some banner"
    unfolding client_banner_def Let_def client_config.simps by (simp only: if_False)
  have "\<forall>i < nat (numClients ?cfg). \<exists>le'. fst (worker ''127.0.0.1'' 8080 i) = Some (echo_server le')"
    using assms(4) by simp
  from client_main_completes [OF _ _ this, of le clock] obtain report where
    main: "client_main le (worker ''127.0.0.1'' 8080) clock ?cfg = Some report"
    "completedRequests report = of_nat (n * r)" "errorCount report = 0"
    "0 < n \<and> 0 < r \<longrightarrow> p50 report \<le> p95 report \<and> p95 report \<le> p99 report \<and> {p50 report, p95 report, p99 report} \<subseteq>
      (\<Union>i < n. set (round_trips (snd (worker ''127.0.0.1'' 8080 i)) r))" by auto
  moreover have "client_program le worker clock [''--clients'', decimal n, ''--requests'', decimal r] =
      Some (banner @ report_text report)"
    unfolding client_program_def args option.case banner client_config.simps main by simp
  ultimately show ?thesis by blast
qed

theorem client_completes_witness:
  "\<exists>banner report. client_program True (\<lambda>h p i. (Some (echo_server (even i)), int)) int
       [''--clients'', decimal 20, ''--requests'', decimal 1000] = Some (banner @ report_text report) \<and>
     completedRequests report = 20000 \<and> errorCount report = 0"
proof -
  let ?worker = "\<lambda>(h :: string) (p :: u16) i. (Some (echo_server (even i)), int)"
  have "\<forall>i < 20. \<exists>le'. fst (?worker ''127.0.0.1'' 8080 i) = Some (echo_server le')" by auto
  from client_completes [OF _ _ _ this, of 1000 True int] show ?thesis by (auto simp: INT_MAX_def)
qed

end
