(* ===== verification/Net_Logger.thy ===== *)
theory Net_Logger
  imports Text_Out
begin

text \<open>
  The logger (\<open>include/Logger.hpp\<close>): its level filter, its line format and its two streams. The log
  calls of the server and its sessions are kept with them as a list of levels and messages, in the
  order of the calls; \<open>write_log\<close> is what the logger makes of such a list. The logger's mutex makes
  every call one piece, so the calls of two threads come as one of the \<open>shuffles\<close> of their lists; which one is
  left open.
\<close>

datatype LogLevel = DEBUG | INFO | WARN | ERROR

fun level_index :: "LogLevel \<Rightarrow> nat" where
  "level_index DEBUG = 0"
| "level_index INFO = 1"
| "level_index WARN = 2"
| "level_index ERROR = 3"

lemma level_index_inj: "level_index a = level_index b \<longleftrightarrow> a = b"
  by (cases a; cases b) simp_all

instantiation LogLevel :: linorder
begin

definition less_eq_LogLevel :: "LogLevel \<Rightarrow> LogLevel \<Rightarrow> bool" where
  "less_eq_LogLevel a b \<longleftrightarrow> level_index a \<le> level_index b"

definition less_LogLevel :: "LogLevel \<Rightarrow> LogLevel \<Rightarrow> bool" where
  "less_LogLevel a b \<longleftrightarrow> level_index a < level_index b"

instance
  by standard (auto simp: less_eq_LogLevel_def less_LogLevel_def level_index_inj)

end

text \<open>The two streams hold the messages written so far; a log call ends the line it writes.\<close>

record Logger =
  currentLevel :: LogLevel
  cout :: "string list"
  cerr :: "string list"

definition Logger_init :: Logger where
  "Logger_init = \<lparr>currentLevel = INFO, cout = [], cerr = []\<rparr>"

text \<open>The static instance comes into being with the first call.\<close>

definition getInstance :: "Logger option \<Rightarrow> Logger" where
  "getInstance instance = (case instance of None \<Rightarrow> Logger_init | Some l \<Rightarrow> l)"

definition setLogLevel :: "LogLevel \<Rightarrow> Logger \<Rightarrow> Logger" where
  "setLogLevel level l = l\<lparr>currentLevel := level\<rparr>"

fun levelToString :: "LogLevel \<Rightarrow> string" where
  "levelToString DEBUG = ''DEBUG''"
| "levelToString INFO = ''INFO ''"
| "levelToString WARN = ''WARN ''"
| "levelToString ERROR = ''ERROR''"

text \<open>
  What a log call asks the system: the local time to the second as \<open>put_time\<close> formats it, the
  milliseconds since the epoch, and the id of the thread.
\<close>

record log_env =
  local_time :: string
  epoch_ms :: nat
  thread_id :: string

definition log_line :: "log_env \<Rightarrow> LogLevel \<Rightarrow> string \<Rightarrow> string" where
  "log_line env level message =
     ''['' @ local_time env @ ''.'' @ setw CHR ''0'' 3 (decimal (epoch_ms env mod 1000)) @ ''] '' @
     ''['' @ levelToString level @ ''] '' @ ''[T-'' @ thread_id env @ ''] '' @ message"

definition log_message :: "log_env \<Rightarrow> LogLevel \<Rightarrow> string \<Rightarrow> Logger \<Rightarrow> Logger" where
  "log_message env level message l =
     (if level < currentLevel l then l
      else let line = log_line env level message in
        if level = ERROR then l\<lparr>cerr := cerr l @ [line]\<rparr> else l\<lparr>cout := cout l @ [line]\<rparr>)"

definition LOG_DEBUG :: "log_env \<Rightarrow> string \<Rightarrow> Logger option \<Rightarrow> Logger option" where
  "LOG_DEBUG env msg instance = Some (log_message env DEBUG msg (getInstance instance))"

definition LOG_INFO :: "log_env \<Rightarrow> string \<Rightarrow> Logger option \<Rightarrow> Logger option" where
  "LOG_INFO env msg instance = Some (log_message env INFO msg (getInstance instance))"

definition LOG_WARN :: "log_env \<Rightarrow> string \<Rightarrow> Logger option \<Rightarrow> Logger option" where
  "LOG_WARN env msg instance = Some (log_message env WARN msg (getInstance instance))"

definition LOG_ERROR :: "log_env \<Rightarrow> string \<Rightarrow> Logger option \<Rightarrow> Logger option" where
  "LOG_ERROR env msg instance = Some (log_message env ERROR msg (getInstance instance))"

text \<open>Errors are always written, to \<open>cerr\<close> alone; and the stream tells an error from the rest.
  Nothing in the programs sets the level, so debug messages are never written.\<close>

lemma errors_are_logged: "log_message env ERROR message l = l\<lparr>cerr := cerr l @ [log_line env ERROR message]\<rparr>"
  by (cases "currentLevel l") (simp_all add: log_message_def less_LogLevel_def)

lemma log_filter: "cout (log_message env level message l) \<noteq> cout l \<longleftrightarrow> currentLevel l \<le> level \<and> level \<noteq> ERROR"
  by (auto simp: log_message_def Let_def)

lemma debug_is_dropped: "LOG_DEBUG env msg None = Some Logger_init"
  by (simp add: LOG_DEBUG_def getInstance_def log_message_def Logger_init_def less_LogLevel_def)

text \<open>The fields before the message have a fixed width, apart from the id of the thread.\<close>

lemma length_log_line:
  "length (log_line env level message) = length (local_time env) + length (thread_id env) + length message + 20"
proof -
  have "length (decimal (epoch_ms env mod 1000)) \<le> 3" by (subst length_decimal) simp_all
  moreover have "length (levelToString level) = 5" by (cases level) simp_all
  ultimately show ?thesis by (simp add: log_line_def max_def)
qed

text \<open>A sequence of calls; \<open>env n\<close> is what the \<open>n\<close>-th one asks of the system.\<close>

type_synonym log_calls = "(LogLevel \<times> string) list"

fun write_log :: "(nat \<Rightarrow> log_env) \<Rightarrow> nat \<Rightarrow> log_calls \<Rightarrow> Logger \<Rightarrow> Logger" where
  "write_log env n [] l = l"
| "write_log env n ((level, message) # calls) l =
     write_log env (Suc n) calls (log_message (env n) level message l)"

text \<open>Calls below the level leave no line; the others leave theirs, on the stream of their level.\<close>

definition visible :: "LogLevel \<Rightarrow> log_calls \<Rightarrow> log_calls" where
  "visible level calls = filter (\<lambda>(lv, _). level \<le> lv) calls"

text \<open>Whatever the interleaving of two threads, the lines of each keep their order, and none is lost or split.\<close>

lemma visible_shuffles: "calls \<in> shuffles xs ys \<Longrightarrow> visible level calls \<in> shuffles (visible level xs) (visible level ys)"
  unfolding visible_def by (subst filter_shuffles [symmetric]) (rule imageI)

lemma write_log_level [simp]: "currentLevel (write_log env n calls l) = currentLevel l"
  by (induction calls arbitrary: n l) (auto simp: log_message_def Let_def)

lemma write_log_lengths:
  "length (cout (write_log env n calls l)) + length (cerr (write_log env n calls l)) =
    length (cout l) + length (cerr l) + length (visible (currentLevel l) calls)"
proof (induction calls arbitrary: n l)
  case (Cons call calls)
  then show ?case by (cases call) (auto simp: visible_def log_message_def Let_def not_less)
qed (simp add: visible_def)

lemma write_log_no_error:
  "\<forall>(level, message) \<in> set calls. level \<noteq> ERROR \<Longrightarrow> cerr (write_log env n calls l) = cerr l"
  by (induction calls arbitrary: n l) (auto simp: log_message_def Let_def)

lemma write_log_cout_mono: "\<exists>rest. cout (write_log env n calls l) = cout l @ rest"
proof (induction calls arbitrary: n l)
  case (Cons call calls)
  obtain level message where c: "call = (level, message)" by (cases call)
  from Cons.IH [of "Suc n" "log_message (env n) level message l"] show ?case
    by (auto simp: c log_message_def Let_def)
qed simp

end
