(* ===== verification/Net_Registry.thy ===== *)
theory Net_Registry
  imports Net_Logger
begin

text \<open>
  The registry of sessions (\<open>include/SessionManager.hpp\<close>, \<open>src/SessionManager.cpp\<close>). The
  locale is what its users rely on: a session registers itself once, leaves when it stops, and
  the count is the number of members. The set of the code is a list without
  duplicates here; each operation holds the mutex, so it is one step. The size is logged with every change
  (\<open>reg_logged\<close>). \<open>stopAll\<close>, which also calls every session, is in \<open>Net_Server\<close>.
\<close>

locale registry =
  fixes empty_reg :: 'r
    and add :: "'a \<Rightarrow> 'r \<Rightarrow> 'r"
    and remove :: "'a \<Rightarrow> 'r \<Rightarrow> 'r"
    and members :: "'r \<Rightarrow> 'a set"
    and count :: "'r \<Rightarrow> nat"
    and ok :: "'r \<Rightarrow> bool"
  assumes ok_empty: "ok empty_reg" and members_empty: "members empty_reg = {}"
    and ok_add: "ok r \<Longrightarrow> ok (add x r)" and members_add: "ok r \<Longrightarrow> members (add x r) = insert x (members r)"
    and ok_remove: "ok r \<Longrightarrow> ok (remove x r)" and members_remove: "ok r \<Longrightarrow> members (remove x r) = members r - {x}"
    and members_finite: "finite (members r)" and count_members: "ok r \<Longrightarrow> count r = card (members r)"
begin

lemma left_for_good: "ok r \<Longrightarrow> x \<notin> members (remove x r)"
  by (simp add: members_remove)

lemma others_stay: "ok r \<Longrightarrow> x \<noteq> y \<Longrightarrow> (y \<in> members (remove x r)) = (y \<in> members r)"
  by (simp add: members_remove)

lemma count_add: "ok r \<Longrightarrow> count (add x r) = (if x \<in> members r then count r else Suc (count r))"
  by (simp add: count_members ok_add members_add card_insert_if members_finite)

lemma count_remove: "ok r \<Longrightarrow> count (remove x r) = (if x \<in> members r then count r - 1 else count r)"
  by (simp add: count_members ok_remove members_remove members_finite)

lemma add_remove: "ok r \<Longrightarrow> x \<notin> members r \<Longrightarrow> members (remove x (add x r)) = members r"
  by (simp add: members_add members_remove ok_add)

end

type_synonym session_id = nat

record SessionManager =
  sessions :: "session_id list" \<comment> \<open>the elements of the set, each once\<close>
  totalMessagesProcessed :: u64
  reg_logged :: log_calls

definition SessionManager_init :: SessionManager where
  "SessionManager_init = \<lparr>sessions = [], totalMessagesProcessed = 0, reg_logged = []\<rparr>"

definition log_count :: "SessionManager \<Rightarrow> SessionManager" where
  "log_count m = m\<lparr>reg_logged := reg_logged m @ [(DEBUG, ''Active sessions count: '' @ decimal (length (sessions m)))]\<rparr>"

definition addSession :: "session_id \<Rightarrow> SessionManager \<Rightarrow> SessionManager" where
  "addSession sid m = log_count (m\<lparr>sessions := List.insert sid (sessions m)\<rparr>)"

definition removeSession :: "session_id \<Rightarrow> SessionManager \<Rightarrow> SessionManager" where
  "removeSession sid m = log_count (m\<lparr>sessions := remove1 sid (sessions m)\<rparr>)"

definition getActiveConnectionsCount :: "SessionManager \<Rightarrow> nat" where
  "getActiveConnectionsCount m = length (sessions m)"

definition getTotalProcessedMessages :: "SessionManager \<Rightarrow> u64" where
  "getTotalProcessedMessages m = totalMessagesProcessed m"

definition incrementProcessedMessages :: "SessionManager \<Rightarrow> SessionManager" where
  "incrementProcessedMessages m = m\<lparr>totalMessagesProcessed := totalMessagesProcessed m + 1\<rparr>"

lemma log_count_fields [simp]:
  "sessions (log_count m) = sessions m" "totalMessagesProcessed (log_count m) = totalMessagesProcessed m"
  by (simp_all add: log_count_def)

text \<open>The code's registry keeps the contract.\<close>

definition registered :: "SessionManager \<Rightarrow> session_id set" where
  "registered m = set (sessions m)"

definition registry_ok :: "SessionManager \<Rightarrow> bool" where
  "registry_ok m \<longleftrightarrow> distinct (sessions m)"

interpretation reg: registry SessionManager_init addSession removeSession registered
  getActiveConnectionsCount registry_ok
  by unfold_locales (auto simp: SessionManager_init_def addSession_def removeSession_def registered_def registry_ok_def
    getActiveConnectionsCount_def distinct_card)

end
