(* ===== verification/Net_Session.thy ===== *)
theory Net_Session
  imports Net_Frame Net_Atoi Net_Registry Net_Logger
begin

text \<open>
  One session of the server (\<open>src/Session.cpp\<close>) and the registry it belongs to
  (\<open>Net_Registry\<close>), as a state machine.

  A session's handlers run on its strand, one at a time, in the order in which they were queued.
  \<open>strand\<close> is that queue: posted lambdas, and the completion handlers of the asynchronous
  operations, which Asio queues when the operation ends. \<open>reading\<close> and \<open>writing\<close> are the
  operations in flight. Each handler of the code is one definition on the session and the
  registry. The rest of the world moves by the other rules of \<open>session_step\<close>: bytes arrive,
  a read ends once its buffer is full or with an error, a write ends once all its bytes are out
  or with an error after some of them, another thread may call \<open>stop()\<close> at any
  time, and other sessions may change the registry, which never adds this session again.
  What is assumed of Asio is its documentation: an operation ends once, a read or write
  succeeds only with all its bytes and on an open socket, and a strand runs its handlers in
  order. \<open>history\<close> (all the peer sent) and \<open>outgoing\<close> (all that was written to the
  socket) record the traffic, \<open>logged\<close> the log calls of the session.
\<close>

section \<open>The state of a session\<close>

text \<open>An error comes with the text that its \<open>message()\<close> gives, which is Asio's.\<close>

datatype error_code = Success | Eof string | Operation_aborted string | Other_error string

fun error_message :: "error_code \<Rightarrow> string" where
  "error_message Success = ''Success''"
| "error_message (Eof text) = text"
| "error_message (Operation_aborted text) = text"
| "error_message (Other_error text) = text"

fun expected_end :: "error_code \<Rightarrow> bool" where
  "expected_end (Eof text) = True"
| "expected_end (Operation_aborted text) = True"
| "expected_end ec = False"

datatype task =
    Stop_task \<comment> \<open>the lambda posted by \<open>stop\<close>\<close>
  | Send_task bytes \<comment> \<open>the lambda posted by \<open>send\<close>\<close>
  | Header_read error_code nat
  | Payload_read Header error_code nat
  | Write_done error_code nat

datatype read_op = Read_header | Read_payload Header

record conn =
  writeQueue :: "bytes list"
  isWriting :: bool
  isStopped :: bool
  headerBuffer :: bytes
  payloadBuffer :: bytes
  socket_open :: bool
  strand :: "task list"
  reading :: "read_op option"
  writing :: "bytes option"
  incoming :: bytes
  history :: bytes
  outgoing :: bytes
  remoteAddress :: string
  logged :: log_calls

text \<open>The peer's address and port, as \<open>remote_endpoint\<close> reports them, or an exception (\<open>None\<close>).\<close>

type_synonym endpoint = "(string \<times> u16) option"

definition Session_init :: "endpoint \<Rightarrow> conn" where
  "Session_init ep = \<lparr>writeQueue = [], isWriting = False, isStopped = False,
     headerBuffer = replicate HEADER_SIZE 0, payloadBuffer = [], socket_open = True, strand = [],
     reading = None, writing = None, incoming = [], history = [], outgoing = [],
     remoteAddress = (case ep of Some (address, port) \<Rightarrow> address @ '':'' @ decimal (unat port) | None \<Rightarrow> ''unknown''), logged = []\<rparr>"

definition getRemoteAddress :: "conn \<Rightarrow> string" where
  "getRemoteAddress c = remoteAddress c"

definition post :: "task \<Rightarrow> conn \<Rightarrow> conn" where
  "post t c = c\<lparr>strand := strand c @ [t]\<rparr>"

text \<open>A log call with a message that ends in the address of the peer, or has some text after it.\<close>

definition log_peer :: "LogLevel \<Rightarrow> string \<Rightarrow> string \<Rightarrow> conn \<Rightarrow> conn" where
  "log_peer level message after c = c\<lparr>logged := logged c @ [(level, message @ remoteAddress c @ after)]\<rparr>"

section \<open>The methods and handlers\<close>

definition stop :: "conn \<Rightarrow> conn" where
  "stop c = post Stop_task c"

definition send :: "bool \<Rightarrow> Packet \<Rightarrow> conn \<Rightarrow> conn" where
  "send le packet c = post (Send_task (serializePacket le packet)) c"

definition doReadHeader :: "conn \<Rightarrow> conn" where
  "doReadHeader c = c\<lparr>reading := Some Read_header\<rparr>"

text \<open>\<open>resize\<close> keeps the bytes that are there and appends zeros.\<close>

definition doReadPayload :: "Header \<Rightarrow> conn \<Rightarrow> conn" where
  "doReadPayload header c =
     (let n = unat (h_length header) in
      c\<lparr>payloadBuffer := take n (payloadBuffer c) @ replicate (n - length (payloadBuffer c)) 0,
        reading := Some (Read_payload header)\<rparr>)"

definition doWrite :: "conn \<Rightarrow> conn" where
  "doWrite c = c\<lparr>writing := Some (hd (writeQueue c))\<rparr>"

definition start_session :: "conn \<Rightarrow> conn" where
  "start_session c = doReadHeader (log_peer INFO ''Client connected from '' [] c)"

definition processPacket ::
  "bool \<Rightarrow> Header \<Rightarrow> bytes \<Rightarrow> conn \<times> SessionManager \<Rightarrow> conn \<times> SessionManager" where
  "processPacket le header payload = (\<lambda>(c, m).
     let m1 = incrementProcessedMessages m in
     if h_type header = PING then
       (send le createPongPacket (log_peer DEBUG ''Received PING from '' [] c), m1)
     else if h_type header = ECHO_REQUEST then
       (send le (createEchoResponse payload)
         (log_peer DEBUG (''Received ECHO_REQUEST ('' @ decimal (length payload) @ '' bytes) from '') [] c), m1)
     else if h_type header = DISCONNECT then
       (stop (log_peer INFO ''Client requested disconnect: '' [] c), m1)
     else (log_peer WARN ''Unknown message type received from '' [] c, m1))"

definition stop_handler :: "session_id \<Rightarrow> conn \<times> SessionManager \<Rightarrow> conn \<times> SessionManager" where
  "stop_handler sid = (\<lambda>(c, m).
     if isStopped c then (c, m)
     else (log_peer INFO ''Client disconnected: '' [] (c\<lparr>isStopped := True, socket_open := False\<rparr>),
           removeSession sid m))"

definition send_handler :: "bytes \<Rightarrow> conn \<Rightarrow> conn" where
  "send_handler data c =
     (if isStopped c then c
      else let writeInProgress = (writeQueue c \<noteq> []);
               c1 = c\<lparr>writeQueue := writeQueue c @ [data]\<rparr>
           in if \<not> writeInProgress then doWrite c1 else c1)"

definition header_handler ::
  "bool \<Rightarrow> error_code \<Rightarrow> nat \<Rightarrow> conn \<times> SessionManager \<Rightarrow> conn \<times> SessionManager" where
  "header_handler le ec len = (\<lambda>(c, m).
     if ec \<noteq> Success then
       (let c1 = (if \<not> expected_end ec
                  then log_peer WARN ''Read header error from '' ('': '' @ error_message ec) c else c)
        in (stop c1, m))
     else case deserializeHeader le (take len (headerBuffer c)) Header_default of
       (False, _) \<Rightarrow> (stop (log_peer WARN ''Malformed magic bytes or header from '' [] c), m)
     | (True, header) \<Rightarrow>
         if unat (h_length header) > MAX_PAYLOAD_SIZE
         then (stop (log_peer WARN ''Payload size exceeds maximum allowed limit from '' [] c), m)
         else if h_length header > 0 then (doReadPayload header c, m)
         else let (c1, m1) = processPacket le header [] (c, m) in (doReadHeader c1, m1))"

definition payload_handler ::
  "bool \<Rightarrow> Header \<Rightarrow> error_code \<Rightarrow> nat \<Rightarrow> conn \<times> SessionManager \<Rightarrow> conn \<times> SessionManager" where
  "payload_handler le header ec len = (\<lambda>(c, m).
     if ec \<noteq> Success
     then (stop (log_peer WARN ''Read payload error from '' ('': '' @ error_message ec) c), m)
     else let (c1, m1) = processPacket le header (payloadBuffer c) (c, m) in (doReadHeader c1, m1))"

definition write_handler :: "error_code \<Rightarrow> nat \<Rightarrow> conn \<Rightarrow> conn" where
  "write_handler ec len c =
     (if ec \<noteq> Success then stop (log_peer WARN ''Write error to '' ('': '' @ error_message ec) c)
      else let c1 = c\<lparr>writeQueue := tl (writeQueue c)\<rparr>
           in if writeQueue c1 \<noteq> [] then doWrite c1 else c1)"

text \<open>The strand runs the handler at its front.\<close>

fun run_task :: "bool \<Rightarrow> session_id \<Rightarrow> task \<Rightarrow> conn \<times> SessionManager \<Rightarrow> conn \<times> SessionManager" where
  "run_task le sid Stop_task s = stop_handler sid s"
| "run_task le sid (Send_task data) s = (send_handler data (fst s), snd s)"
| "run_task le sid (Header_read ec len) s = header_handler le ec len s"
| "run_task le sid (Payload_read header ec len) s = payload_handler le header ec len s"
| "run_task le sid (Write_done ec len) s = (write_handler ec len (fst s), snd s)"

section \<open>The steps of the session and its environment\<close>

inductive own_step :: "bool \<Rightarrow> session_id \<Rightarrow> conn \<times> SessionManager \<Rightarrow> conn \<times> SessionManager \<Rightarrow> bool"
  for le sid where
  run: "strand c = t # ts \<Longrightarrow> own_step le sid (c, m) (run_task le sid t (c\<lparr>strand := ts\<rparr>, m))"
| receive: "own_step le sid (c, m) (c\<lparr>incoming := incoming c @ bs, history := history c @ bs\<rparr>, m)"
| header_ok: "reading c = Some Read_header \<Longrightarrow> socket_open c \<Longrightarrow> HEADER_SIZE \<le> length (incoming c) \<Longrightarrow>
    own_step le sid (c, m) (post (Header_read Success HEADER_SIZE)
      (c\<lparr>reading := None, headerBuffer := take HEADER_SIZE (incoming c),
         incoming := drop HEADER_SIZE (incoming c)\<rparr>), m)"
| header_fail: "reading c = Some Read_header \<Longrightarrow> ec \<noteq> Success \<Longrightarrow>
    own_step le sid (c, m) (post (Header_read ec n) (c\<lparr>reading := None\<rparr>), m)"
| payload_ok: "reading c = Some (Read_payload h) \<Longrightarrow> socket_open c \<Longrightarrow> unat (h_length h) \<le> length (incoming c) \<Longrightarrow>
    own_step le sid (c, m) (post (Payload_read h Success (unat (h_length h)))
      (c\<lparr>reading := None, payloadBuffer := take (unat (h_length h)) (incoming c),
         incoming := drop (unat (h_length h)) (incoming c)\<rparr>), m)"
| payload_fail: "reading c = Some (Read_payload h) \<Longrightarrow> ec \<noteq> Success \<Longrightarrow>
    own_step le sid (c, m) (post (Payload_read h ec n) (c\<lparr>reading := None\<rparr>), m)"
| write_ok: "writing c = Some d \<Longrightarrow> socket_open c \<Longrightarrow>
    own_step le sid (c, m) (post (Write_done Success (length d))
      (c\<lparr>writing := None, outgoing := outgoing c @ d\<rparr>), m)"
| write_fail: "writing c = Some d \<Longrightarrow> ec \<noteq> Success \<Longrightarrow> n \<le> length d \<Longrightarrow>
    own_step le sid (c, m) (post (Write_done ec n)
      (c\<lparr>writing := None, outgoing := outgoing c @ take n d\<rparr>), m)"
| stop_call: "own_step le sid (c, m) (stop c, m)"

inductive session_step :: "bool \<Rightarrow> session_id \<Rightarrow> conn \<times> SessionManager \<Rightarrow> conn \<times> SessionManager \<Rightarrow> bool"
  for le sid where
  own: "own_step le sid s s' \<Longrightarrow> session_step le sid s s'"
| others: "distinct (sessions m') \<Longrightarrow> (sid \<in> set (sessions m') \<Longrightarrow> sid \<in> set (sessions m)) \<Longrightarrow>
    session_step le sid (c, m) (c, m')"

text \<open>The states of a session from its creation by the server on.\<close>

inductive session_reach :: "bool \<Rightarrow> session_id \<Rightarrow> conn \<times> SessionManager \<Rightarrow> bool" for le sid where
  begin_session: "distinct (sessions m) \<Longrightarrow> sid \<in> set (sessions m) \<Longrightarrow> session_reach le sid (start_session (Session_init ep), m)"
| next_step: "session_reach le sid s \<Longrightarrow> session_step le sid s s' \<Longrightarrow> session_reach le sid s'"

inductive_cases own_stepE: "own_step le sid (c, m) s'"
inductive_cases session_stepE: "session_step le sid (c, m) s'"

lemmas own_step_cases = own_stepE [consumes 1, case_names run receive header_ok header_fail
  payload_ok payload_fail write_ok write_fail stop_call]
lemmas session_step_cases = session_stepE [consumes 1, case_names own others]

end
