(* ===== verification/Net_Session_Correct.thy ===== *)
theory Net_Session_Correct
  imports Net_Session
begin

text \<open>
  A session answers its peer as the specification \<open>serve\<close> says, under every behaviour of the
  environment. The invariant has three parts: the writer (one write in flight, of the front of
  \<open>writeQueue\<close>), the output (what was written, what is queued and what is posted, in this
  order, are the responses given so far), and the reader (one read in flight, and the bytes
  consumed are the frames answered). A response that was posted after a stop is dropped, so
  \<open>answered\<close> counts the responses posted before the first stop.
\<close>

section \<open>What is on the strand\<close>

fun is_write :: "task \<Rightarrow> bool" where
  "is_write (Write_done ec n) = True"
| "is_write t = False"

fun is_read :: "task \<Rightarrow> bool" where
  "is_read (Header_read ec n) = True"
| "is_read (Payload_read h ec n) = True"
| "is_read t = False"

fun pending_sends :: "task list \<Rightarrow> bytes list" where
  "pending_sends [] = []"
| "pending_sends (Stop_task # ts) = []"
| "pending_sends (Send_task d # ts) = d # pending_sends ts"
| "pending_sends (t # ts) = pending_sends ts"

lemma pending_sends_append: "pending_sends (ts @ us) =
    (if Stop_task \<in> set ts then pending_sends ts else pending_sends ts @ pending_sends us)"
  by (induction ts rule: pending_sends.induct) auto

definition stopping :: "conn \<Rightarrow> bool" where
  "stopping c \<longleftrightarrow> isStopped c \<or> Stop_task \<in> set (strand c)"

definition to_write :: "conn \<Rightarrow> bytes list" where
  "to_write c = (if isStopped c then [] else pending_sends (strand c))"

definition unwritten :: "conn \<Rightarrow> bytes list" where
  "unwritten c = (if \<exists>n. Write_done Success n \<in> set (strand c) then tl (writeQueue c) else writeQueue c)"

definition write_failed :: "conn \<Rightarrow> bool" where
  "write_failed c \<longleftrightarrow> writing c = None \<and>
     (filter is_write (strand c) = [] \<and> writeQueue c \<noteq> [] \<or>
      (\<exists>ec n. ec \<noteq> Success \<and> Write_done ec n \<in> set (strand c)))"

section \<open>The parts of the invariant\<close>

definition writer_ok :: "conn \<Rightarrow> bool" where
  "writer_ok c = (case (writing c, filter is_write (strand c)) of
     (None, []) \<Rightarrow> writeQueue c = [] \<or> stopping c
   | (Some d, []) \<Rightarrow> writeQueue c \<noteq> [] \<and> d = hd (writeQueue c)
   | (None, [t]) \<Rightarrow> writeQueue c \<noteq> []
   | _ \<Rightarrow> False)"

definition output_ok :: "bytes list \<Rightarrow> conn \<Rightarrow> bool" where
  "output_ok answered c \<longleftrightarrow> prefix (outgoing c) (concat answered) \<and>
     (\<not> write_failed c \<longrightarrow>
        concat answered = outgoing c @ concat (unwritten c) @ concat (to_write c))"

definition serve_rest :: "bool \<Rightarrow> Header \<Rightarrow> bytes \<Rightarrow> bytes \<Rightarrow> bytes list" where
  "serve_rest le h payload z =
     (if h_type h = DISCONNECT then [] else respond le (h_type h) payload @ serve le z)"

definition serve_payload :: "bool \<Rightarrow> Header \<Rightarrow> bytes \<Rightarrow> bytes list" where
  "serve_payload le h z = (case take_payload h z of Frame h' p rest \<Rightarrow> serve_rest le h p rest | _ \<Rightarrow> [])"

definition reader_ok :: "bool \<Rightarrow> bytes list \<Rightarrow> conn \<Rightarrow> bool" where
  "reader_ok le answered c = (case (reading c, filter is_read (strand c)) of
     (Some Read_header, []) \<Rightarrow>
       \<not> stopping c \<longrightarrow> (\<exists>consumed. history c = consumed @ incoming c \<and>
         (\<forall>z. serve le (consumed @ z) = answered @ serve le z))
   | (Some (Read_payload h), []) \<Rightarrow>
       unat (h_length h) \<le> MAX_PAYLOAD_SIZE \<and>
       (\<not> stopping c \<longrightarrow> (\<exists>consumed. history c = consumed @ incoming c \<and>
         (\<forall>z. serve le (consumed @ z) = answered @ serve_payload le h z)))
   | (None, [Header_read ec n]) \<Rightarrow>
       ec = Success \<longrightarrow> n = HEADER_SIZE \<and> length (headerBuffer c) = HEADER_SIZE \<and>
       (\<not> stopping c \<longrightarrow> (\<exists>consumed. history c = consumed @ headerBuffer c @ incoming c \<and>
         (\<forall>z. serve le (consumed @ z) = answered @ serve le z)))
   | (None, [Payload_read h ec n]) \<Rightarrow>
       unat (h_length h) \<le> MAX_PAYLOAD_SIZE \<and>
       (ec = Success \<longrightarrow> length (payloadBuffer c) = unat (h_length h) \<and>
       (\<not> stopping c \<longrightarrow> (\<exists>consumed. history c = consumed @ incoming c \<and>
         (\<forall>z. serve le (consumed @ z) = answered @ serve_rest le h (payloadBuffer c) z))))
   | (None, []) \<Rightarrow> stopping c
   | _ \<Rightarrow> False)"

definition session_inv :: "bool \<Rightarrow> bytes list \<Rightarrow> conn \<Rightarrow> bool" where
  "session_inv le answered c \<longleftrightarrow> writer_ok c \<and> output_ok answered c \<and> reader_ok le answered c \<and>
     prefix answered (serve le (history c)) \<and> (socket_open c \<longleftrightarrow> \<not> isStopped c)"

lemmas strand_defs = stopping_def to_write_def unwritten_def write_failed_def

section \<open>The reader's bookkeeping\<close>

text \<open>A complete header in front of the input is what \<open>serve\<close> reads next.\<close>

lemma serve_header:
  assumes "length hb = HEADER_SIZE"
  shows "serve le (hb @ z) = (case deserializeHeader le hb Header_default of
      (False, _) \<Rightarrow> []
    | (True, h) \<Rightarrow> if unat (h_length h) > MAX_PAYLOAD_SIZE then [] else serve_payload le h z)"
  using assms
  by (simp add: serve.simps [of le "hb @ z"] read_frame_def serve_payload_def take_payload_def serve_rest_def
      split: prod.splits bool.splits)

lemma serve_payload_enough:
  "length p = unat (h_length h) \<Longrightarrow> serve_payload le h (p @ z) = serve_rest le h p z"
  by (simp add: serve_payload_def take_payload_def)

lemma serve_payload_empty: "h_length h = 0 \<Longrightarrow> serve_payload le h z = serve_rest le h [] z"
  by (simp add: serve_payload_def take_payload_def)

section \<open>Posting and popping\<close>

lemma stopping_post: "stopping (post t c) \<longleftrightarrow> stopping c \<or> t = Stop_task"
  by (auto simp: stopping_def post_def)

lemma post_fields [simp]:
  "writing (post t c) = writing c" "reading (post t c) = reading c" "writeQueue (post t c) = writeQueue c"
  "strand (post t c) = strand c @ [t]" "isStopped (post t c) = isStopped c" "outgoing (post t c) = outgoing c"
  "history (post t c) = history c" "incoming (post t c) = incoming c" "headerBuffer (post t c) = headerBuffer c"
  "payloadBuffer (post t c) = payloadBuffer c" "socket_open (post t c) = socket_open c"
  by (simp_all add: post_def)

lemma log_peer_fields [simp]:
  "writing (log_peer l t a c) = writing c" "reading (log_peer l t a c) = reading c" "writeQueue (log_peer l t a c) = writeQueue c"
  "strand (log_peer l t a c) = strand c" "isStopped (log_peer l t a c) = isStopped c" "outgoing (log_peer l t a c) = outgoing c"
  "history (log_peer l t a c) = history c" "incoming (log_peer l t a c) = incoming c"
  "headerBuffer (log_peer l t a c) = headerBuffer c" "payloadBuffer (log_peer l t a c) = payloadBuffer c"
  "socket_open (log_peer l t a c) = socket_open c" "remoteAddress (log_peer l t a c) = remoteAddress c"
  by (simp_all add: log_peer_def)

lemma log_peer_post [simp]:
  "post t' (log_peer l t a c) = log_peer l t a (post t' c)" "stop (log_peer l t a c) = log_peer l t a (stop c)"
  by (simp_all add: log_peer_def post_def stop_def)

lemma log_peer_keeps [simp]:
  "stopping (log_peer l t a c) = stopping c" "writer_ok (log_peer l t a c) = writer_ok c"
  "output_ok A (log_peer l t a c) = output_ok A c" "reader_ok le A (log_peer l t a c) = reader_ok le A c"
  "session_inv le A (log_peer l t a c) = session_inv le A c"
  by (simp_all add: session_inv_def writer_ok_def output_ok_def reader_ok_def strand_defs
      cong: option.case_cong list.case_cong read_op.case_cong task.case_cong)

lemma writer_ok_post: "writer_ok c \<Longrightarrow> \<not> is_write t \<Longrightarrow> writer_ok (post t c)"
  by (auto simp: writer_ok_def stopping_post split: option.splits list.splits)

text \<open>The reader's fields do not matter to the writer.\<close>

lemma reader_fields:
  assumes "writeQueue c' = writeQueue c" "writing c' = writing c" "strand c' = strand c"
    "isStopped c' = isStopped c" "outgoing c' = outgoing c"
  shows "writer_ok c' = writer_ok c" "output_ok A c' = output_ok A c" "stopping c' = stopping c"
proof -
  show stop: "stopping c' = stopping c" using assms by (simp add: stopping_def)
  show "writer_ok c' = writer_ok c"
    using assms stop by (simp add: writer_ok_def cong: option.case_cong list.case_cong)
  show "output_ok A c' = output_ok A c" using assms by (simp add: output_ok_def strand_defs)
qed

lemma output_ok_post:
  assumes "output_ok A c" and "\<not> is_write t" and "\<And>d. t \<noteq> Send_task d"
  shows "output_ok A (post t c)"
proof -
  have "pending_sends [t] = []" using assms(2,3) by (cases t) auto
  moreover have "Write_done e n \<noteq> t" for e n using assms(2) by auto
  ultimately show ?thesis
    using assms(1,2) by (simp add: output_ok_def strand_defs pending_sends_append del: pending_sends.simps)
qed

lemma output_ok_send:
  assumes "output_ok A c"
  shows "output_ok (if stopping c then A else A @ [d]) (post (Send_task d) c)"
proof -
  let ?c = "post (Send_task d) c" and ?A = "if stopping c then A else A @ [d]"
  have same: "write_failed ?c = write_failed c" "unwritten ?c = unwritten c" "outgoing ?c = outgoing c"
    by (simp_all add: strand_defs)
  have "to_write ?c = (if stopping c then to_write c else to_write c @ [d])"
    by (simp add: strand_defs pending_sends_append)
  moreover have "prefix (outgoing c) (concat ?A)"
    using assms by (auto simp: output_ok_def prefix_def)
  ultimately show ?thesis
    using assms unfolding output_ok_def same by simp
qed

text \<open>Taking a finished read off the strand.\<close>

lemma pop_read:
  assumes "strand c = t # ts" and "is_read t"
  shows "writer_ok (c\<lparr>strand := ts\<rparr>) = writer_ok c" "output_ok A (c\<lparr>strand := ts\<rparr>) = output_ok A c"
    "stopping (c\<lparr>strand := ts\<rparr>) = stopping c"
proof -
  show stop: "stopping (c\<lparr>strand := ts\<rparr>) = stopping c"
    using assms by (cases t) (simp_all add: stopping_def)
  have "filter is_write (strand c) = filter is_write ts" using assms by (cases t) simp_all
  then show "writer_ok (c\<lparr>strand := ts\<rparr>) = writer_ok c"
    using stop by (simp add: writer_ok_def cong: option.case_cong list.case_cong)
  show "output_ok A (c\<lparr>strand := ts\<rparr>) = output_ok A c"
    using assms by (cases t) (simp_all add: output_ok_def strand_defs)
qed

section \<open>Every step keeps the invariant\<close>

lemma session_inv_start: "session_inv le [] (start_session (Session_init ep))"
  by (simp add: session_inv_def start_session_def doReadHeader_def Session_init_def writer_ok_def output_ok_def
      reader_ok_def strand_defs)

text \<open>The two parts that a read handler leaves behind: it stops, reads on, or answers and reads on.\<close>

lemma inv_stop:
  assumes "writer_ok c" "output_ok A c" "reading c = None" "filter is_read (strand c) = []"
    "prefix A (serve le (history c))" "socket_open c \<longleftrightarrow> \<not> isStopped c"
  shows "session_inv le A (stop c)"
  using assms writer_ok_post [of c Stop_task] output_ok_post [of A c Stop_task]
  by (simp add: session_inv_def stop_def reader_ok_def stopping_post)

lemma inv_read_header:
  assumes "writer_ok c" "output_ok A c" "filter is_read (strand c) = []"
    "prefix A (serve le (history c))" "socket_open c \<longleftrightarrow> \<not> isStopped c"
    and "\<not> stopping c \<Longrightarrow> \<exists>consumed. history c = consumed @ incoming c \<and>
      (\<forall>z. serve le (consumed @ z) = A @ serve le z)"
  shows "session_inv le A (doReadHeader c)"
  using assms reader_fields [of "doReadHeader c" c]
  by (simp add: session_inv_def doReadHeader_def reader_ok_def)

lemma doReadHeader_log: "doReadHeader (log_peer l t a c) = log_peer l t a (doReadHeader c)"
  by (simp add: doReadHeader_def log_peer_def)

text \<open>What a packet does to its session: one log call, and a response, a stop or nothing.\<close>

lemma processPacket_cases:
  obtains (reply) d lv s where "respond le (h_type h) p = [d]" "h_type h \<noteq> DISCONNECT"
      "fst (processPacket le h p (c, m)) = log_peer lv s [] (post (Send_task d) c)"
    | (disc) lv s where "h_type h = DISCONNECT" "fst (processPacket le h p (c, m)) = log_peer lv s [] (post Stop_task c)"
    | (ignore) lv s where "respond le (h_type h) p = []" "h_type h \<noteq> DISCONNECT"
      "fst (processPacket le h p (c, m)) = log_peer lv s [] c"
proof -
  consider "h_type h = PING" | "h_type h = ECHO_REQUEST" | "h_type h = DISCONNECT"
    | "h_type h \<notin> {PING, ECHO_REQUEST, DISCONNECT}" by blast
  then show thesis
  proof cases
    case 1
    then show thesis
      by (intro reply [of "serializePacket le createPongPacket" DEBUG "''Received PING from ''"])
        (simp_all add: processPacket_def respond_def response_def send_def Let_def message_types)
  next
    case 2
    then show thesis
      by (intro reply [of "serializePacket le (createEchoResponse p)" DEBUG
            "''Received ECHO_REQUEST ('' @ decimal (length p) @ '' bytes) from ''"])
        (simp_all add: processPacket_def respond_def response_def send_def Let_def message_types)
  next
    case 3
    then show thesis
      by (intro disc [of INFO "''Client requested disconnect: ''"])
        (simp_all add: processPacket_def stop_def Let_def message_types)
  next
    case 4
    then show thesis
      by (intro ignore [of WARN "''Unknown message type received from ''"])
        (simp_all add: processPacket_def respond_def response_def Let_def message_types)
  qed
qed

lemma inv_answered:
  assumes "writer_ok c" "output_ok A c" "filter is_read (strand c) = []"
    "prefix A (serve le (history c))" "socket_open c \<longleftrightarrow> \<not> isStopped c"
    and future: "\<not> stopping c \<Longrightarrow> \<exists>consumed. history c = consumed @ incoming c \<and>
      (\<forall>z. serve le (consumed @ z) = A @ serve_rest le h p z)"
  shows "\<exists>A'. session_inv le A' (doReadHeader (fst (processPacket le h p (c, m))))"
proof -
  from processPacket_cases [of le h p c m] show ?thesis
  proof cases
    case (reply d lv s)
    let ?A = "if stopping c then A else A @ [d]" and ?c = "post (Send_task d) c"
    have parse: "\<exists>consumed. history c = consumed @ incoming c \<and> (\<forall>z. serve le (consumed @ z) = (A @ [d]) @ serve le z)"
      if "\<not> stopping c"
      using future [OF that] reply by (simp add: serve_rest_def)
    have "prefix ?A (serve le (history c))"
    proof (cases "stopping c")
      case False
      then obtain consumed where "history c = consumed @ incoming c"
        "\<forall>z. serve le (consumed @ z) = (A @ [d]) @ serve le z" using parse by blast
      then show ?thesis using False by (simp add: prefix_def)
    qed (use assms(4) in simp)
    then have "session_inv le ?A (doReadHeader ?c)"
      using assms(1,2,3,5) parse writer_ok_post [of c "Send_task d"] output_ok_send [of A c d]
      by (intro inv_read_header) (simp_all add: stopping_post)
    then show ?thesis unfolding reply(3) doReadHeader_log log_peer_keeps by blast
  next
    case (disc lv s)
    have "session_inv le A (doReadHeader (post Stop_task c))"
      using assms(1-5) writer_ok_post [of c Stop_task] output_ok_post [of A c Stop_task]
      by (intro inv_read_header) (simp_all add: stopping_post)
    then show ?thesis unfolding disc(2) doReadHeader_log log_peer_keeps by blast
  next
    case (ignore lv s)
    have "session_inv le A (doReadHeader c)"
      using assms ignore by (intro inv_read_header) (simp_all add: serve_rest_def)
    then show ?thesis unfolding ignore(3) doReadHeader_log log_peer_keeps by blast
  qed
qed

lemma reader_cong:
  assumes "reading c' = reading c" "filter is_read (strand c') = filter is_read (strand c)"
    "history c' = history c" "incoming c' = incoming c" "headerBuffer c' = headerBuffer c"
    "payloadBuffer c' = payloadBuffer c" "stopping c \<Longrightarrow> stopping c'"
  shows "reader_ok le A c \<Longrightarrow> reader_ok le A c'"
  using assms(7) unfolding reader_ok_def assms(1-6)
  by (auto split: option.splits list.splits read_op.splits task.splits)

lemma run_stop_task:
  assumes inv: "session_inv le A c" and t: "strand c = Stop_task # ts"
  shows "session_inv le A (c\<lparr>strand := ts, isStopped := True, socket_open := False\<rparr>)"
proof -
  let ?c = "c\<lparr>strand := ts, isStopped := True, socket_open := False\<rparr>"
  have fields: "writing ?c = writing c" "writeQueue ?c = writeQueue c" "strand ?c = ts" "stopping ?c" "stopping c"
    "outgoing ?c = outgoing c" "to_write ?c = []" "to_write c = []" "unwritten ?c = unwritten c"
    "write_failed ?c = write_failed c"
    using t by (simp_all add: strand_defs)
  have "writer_ok ?c"
    using inv fields t by (simp add: session_inv_def writer_ok_def cong: option.case_cong list.case_cong)
  moreover have "output_ok A ?c" using inv by (simp add: session_inv_def output_ok_def fields)
  moreover have "reader_ok le A ?c"
    using inv by (auto simp: session_inv_def t fields(4) intro: reader_cong [of ?c c])
  ultimately show ?thesis using inv by (simp add: session_inv_def)
qed

lemma writer_idle: "writer_ok c \<Longrightarrow> writeQueue c = [] \<Longrightarrow> writing c = None \<and> filter is_write (strand c) = []"
  by (auto simp: writer_ok_def split: option.splits list.splits)

lemma no_write_done: "filter is_write ts = [] \<Longrightarrow> Write_done e n \<notin> set ts"
  by (auto simp: filter_empty_conv)

lemma send_starts:
  assumes w: "writer_ok c" and o: "output_ok A c" and t: "strand c = Send_task d # ts"
    and run: "\<not> isStopped c" and empty: "writeQueue c = []"
  shows "writer_ok (send_handler d (c\<lparr>strand := ts\<rparr>)) \<and> output_ok A (send_handler d (c\<lparr>strand := ts\<rparr>))"
    (is "writer_ok ?c \<and> _")
proof -
  note idle = writer_idle [OF w empty]
  have c: "?c = c\<lparr>strand := ts, writeQueue := [d], writing := Some d\<rparr>"
    using run empty by (simp add: send_handler_def doWrite_def Let_def)
  have ts: "filter is_write ts = []" using idle t by simp
  have "concat A = outgoing c @ concat (d # pending_sends ts)"
    using o run empty t idle no_write_done [OF ts] by (simp add: output_ok_def strand_defs)
  then have "output_ok A ?c"
    unfolding c using run no_write_done [OF ts] by (simp add: output_ok_def strand_defs prefix_def)
  moreover have "writer_ok ?c" unfolding c using ts by (simp add: writer_ok_def)
  ultimately show ?thesis by blast
qed

lemma send_queues:
  assumes w: "writer_ok c" and o: "output_ok A c" and t: "strand c = Send_task d # ts"
    and run: "\<not> isStopped c" and busy: "writeQueue c \<noteq> []"
  shows "writer_ok (send_handler d (c\<lparr>strand := ts\<rparr>)) \<and> output_ok A (send_handler d (c\<lparr>strand := ts\<rparr>))"
    (is "writer_ok ?c \<and> _")
proof -
  have c: "?c = c\<lparr>strand := ts, writeQueue := writeQueue c @ [d]\<rparr>"
    using run busy by (simp add: send_handler_def Let_def)
  then have "filter is_write (strand c) = filter is_write ts" "stopping ?c = stopping c"
    using t by (simp_all add: stopping_def)
  then have "writer_ok ?c"
    using w busy unfolding c
    by (auto simp: writer_ok_def split: option.splits list.splits)
  moreover have "output_ok A ?c"
    using o run busy t unfolding c by (auto simp: output_ok_def strand_defs)
  ultimately show ?thesis by blast
qed

lemma run_send_task:
  assumes inv: "session_inv le A c" and t: "strand c = Send_task d # ts"
  shows "session_inv le A (send_handler d (c\<lparr>strand := ts\<rparr>))"
proof -
  let ?popped = "c\<lparr>strand := ts\<rparr>"
  let ?c = "send_handler d ?popped"
  have same: "reading ?c = reading c" "strand ?c = ts" "history ?c = history c" "incoming ?c = incoming c"
    "headerBuffer ?c = headerBuffer c" "payloadBuffer ?c = payloadBuffer c" "isStopped ?c = isStopped c"
    "outgoing ?c = outgoing c" "socket_open ?c = socket_open c"
    by (simp_all add: send_handler_def doWrite_def Let_def)
  then have stop: "stopping ?c = stopping c" by (simp add: stopping_def t)
  have reader: "reader_ok le A ?c"
    using inv by (intro reader_cong [of ?c c]) (simp_all add: same t stop session_inv_def)
  have w: "writer_ok c" and o: "output_ok A c" using inv by (simp_all add: session_inv_def)
  have "writer_ok ?c \<and> output_ok A ?c"
  proof (cases "isStopped c")
    case True
    then have c: "?c = ?popped" by (simp add: send_handler_def)
    have "writer_ok ?popped" using w True
      by (simp add: writer_ok_def t stopping_def cong: option.case_cong list.case_cong)
    moreover have "output_ok A ?popped" using o True t by (simp add: output_ok_def strand_defs)
    ultimately show ?thesis by (simp only: c)
  next
    case False
    then show ?thesis using send_starts [OF w o t] send_queues [OF w o t] by blast
  qed
  then show ?thesis using reader inv by (simp add: session_inv_def same)
qed

lemma writer_done:
  assumes "writer_ok c" and "strand c = Write_done e n # ts"
  shows "writing c = None" "filter is_write ts = []" "writeQueue c \<noteq> []"
  using assms by (auto simp: writer_ok_def split: option.splits list.splits)

lemma run_write_done:
  assumes inv: "session_inv le A c" and t: "strand c = Write_done ec n # ts"
  shows "session_inv le A (write_handler ec n (c\<lparr>strand := ts\<rparr>))"
proof -
  let ?popped = "c\<lparr>strand := ts\<rparr>"
  let ?c = "write_handler ec n ?popped"
  have w: "writer_ok c" and o: "output_ok A c" and r: "reader_ok le A c" using inv by (simp_all add: session_inv_def)
  note wd = writer_done [OF w t] and nw = no_write_done [OF writer_done(2) [OF w t]]
  show ?thesis
  proof (cases "ec = Success")
    case False
    let ?d = "post Stop_task ?popped"
    have failed: "write_failed c" using t False wd by (auto simp: write_failed_def)
    have "stopping ?d" by (simp add: stopping_post)
    then have "writer_ok ?d" using wd by (simp add: writer_ok_def)
    moreover have "output_ok A ?d"
      using o failed wd nw by (simp add: output_ok_def write_failed_def)
    moreover have "reader_ok le A ?d"
      using r by (rule_tac reader_cong [of ?d c]) (simp_all add: t stopping_post)
    ultimately have "session_inv le A ?d" using inv by (simp add: session_inv_def)
    then show ?thesis using False by (simp add: write_handler_def) (simp add: stop_def)
  next
    case True
    obtain d q where q: "writeQueue c = d # q" using wd(3) by (cases "writeQueue c") auto
    have c: "?c = ?popped\<lparr>writeQueue := q, writing := (if q = [] then None else Some (hd q))\<rparr>"
      using True q wd(1) by (cases c) (simp add: write_handler_def doWrite_def Let_def)
    have "concat A = outgoing c @ concat q @ concat (to_write c)"
      using o wd t True nw q by (auto simp: output_ok_def write_failed_def unwritten_def)
    moreover have "to_write ?c = to_write c" by (simp add: c to_write_def t)
    moreover have "unwritten ?c = q" "outgoing ?c = outgoing c" using nw by (simp_all add: c unwritten_def)
    ultimately have "output_ok A ?c" by (simp add: output_ok_def prefix_def)
    moreover have "writer_ok ?c" using wd(2) by (simp add: c writer_ok_def)
    moreover have "reader_ok le A ?c"
      using r by (rule_tac reader_cong [of ?c c]) (simp_all add: c t stopping_def)
    ultimately show ?thesis using inv by (simp add: session_inv_def c)
  qed
qed

lemma reader_task:
  assumes "reader_ok le A c" and "strand c = t # ts" and "is_read t"
  shows "reading c = None" "filter is_read ts = []"
proof -
  have "reading c = None \<and> filter is_read ts = []"
    using assms by (cases "reading c"; cases "filter is_read ts"; cases t)
      (simp_all add: reader_ok_def split: read_op.splits)
  then show "reading c = None" "filter is_read ts = []" by blast+
qed

text \<open>What the reader knows when a header read has succeeded, and what an acceptable header leaves to serve.\<close>

lemma header_arrived:
  assumes r: "reader_ok le A c" and t: "strand c = Header_read Success n # ts"
  shows "n = HEADER_SIZE" and "length (headerBuffer c) = HEADER_SIZE"
    and "deserializeHeader le (headerBuffer c) Header_default = (True, h) \<Longrightarrow> unat (h_length h) \<le> MAX_PAYLOAD_SIZE \<Longrightarrow>
      \<not> stopping c \<Longrightarrow>
      \<exists>consumed. history c = consumed @ incoming c \<and> (\<forall>z. serve le (consumed @ z) = A @ serve_payload le h z)"
proof -
  have n: "n = HEADER_SIZE" and len: "length (headerBuffer c) = HEADER_SIZE"
    and parse: "\<not> stopping c \<Longrightarrow> \<exists>consumed. history c = consumed @ headerBuffer c @ incoming c \<and>
       (\<forall>z. serve le (consumed @ z) = A @ serve le z)"
    using r reader_task [OF r t] by (simp_all add: reader_ok_def t)
  show "n = HEADER_SIZE" and "length (headerBuffer c) = HEADER_SIZE" by (fact n, fact len)
  assume d: "deserializeHeader le (headerBuffer c) Header_default = (True, h)" "unat (h_length h) \<le> MAX_PAYLOAD_SIZE"
    and "\<not> stopping c"
  then obtain consumed where "history c = consumed @ headerBuffer c @ incoming c"
    "\<forall>z. serve le (consumed @ z) = A @ serve le z" using parse by blast
  moreover have "serve le (headerBuffer c @ z) = serve_payload le h z" for z
    using serve_header [OF len] d by simp
  ultimately show "\<exists>consumed. history c = consumed @ incoming c \<and> (\<forall>z. serve le (consumed @ z) = A @ serve_payload le h z)"
    by (intro exI [of _ "consumed @ headerBuffer c"]) simp
qed

lemma run_header_read:
  assumes inv: "session_inv le A c" and t: "strand c = Header_read ec n # ts"
  shows "\<exists>A'. session_inv le A' (fst (header_handler le ec n (c\<lparr>strand := ts\<rparr>, m)))"
proof -
  let ?p = "c\<lparr>strand := ts\<rparr>"
  have w: "writer_ok ?p" and o: "output_ok A ?p" and r: "reader_ok le A c" and pre: "prefix A (serve le (history ?p))"
    and so: "socket_open ?p \<longleftrightarrow> \<not> isStopped ?p" and st: "stopping ?p = stopping c"
    using inv pop_read [OF t] by (simp_all add: session_inv_def)
  have idle: "reading ?p = None" "filter is_read (strand ?p) = []" using reader_task [OF r t] by simp_all
  note stop = inv_stop [OF w o idle pre so]
  obtain good h where d: "deserializeHeader le (headerBuffer c) Header_default = (good, h)" by (metis prod.exhaust)
  consider (failed) "ec \<noteq> Success" | (bad) "ec = Success" "\<not> (good \<and> unat (h_length h) \<le> MAX_PAYLOAD_SIZE)"
    | (ok) "ec = Success" "good" "unat (h_length h) \<le> MAX_PAYLOAD_SIZE" by blast
  then show ?thesis
  proof cases
    case failed
    then show ?thesis using stop by (auto simp: header_handler_def)
  next
    case bad
    note arrived = header_arrived [OF r t [unfolded bad(1)]]
    then show ?thesis using stop bad d by (cases good) (auto simp: header_handler_def)
  next
    case ok
    note arrived = header_arrived [OF r t [unfolded ok(1)]]
    note next_part = arrived(3) [OF d [unfolded eqTrueI [OF ok(2)]] ok(3)]
    show ?thesis
    proof (cases "h_length h > 0")
      case True
      have run: "fst (header_handler le ec n (?p, m)) = doReadPayload h ?p"
        using arrived(1,2) d ok True by (simp add: header_handler_def)
      have "reader_ok le A (doReadPayload h ?p)"
        using idle ok next_part st by (simp add: reader_ok_def doReadPayload_def Let_def stopping_def)
      moreover have "writer_ok (doReadPayload h ?p)" "output_ok A (doReadPayload h ?p)"
        using w o reader_fields [of "doReadPayload h ?p" ?p] by (simp_all add: doReadPayload_def Let_def)
      ultimately have "session_inv le A (doReadPayload h ?p)"
        using pre so by (simp add: session_inv_def doReadPayload_def Let_def)
      then show ?thesis unfolding run by blast
    next
      case False
      then have zero: "h_length h = 0" by (simp add: word_gt_0)
      have run: "fst (header_handler le ec n (?p, m)) = doReadHeader (fst (processPacket le h [] (?p, m)))"
        using arrived(1,2) d ok False by (simp add: header_handler_def Let_def split_beta)
      have "\<exists>A'. session_inv le A' (doReadHeader (fst (processPacket le h [] (?p, m))))"
        using next_part st serve_payload_empty [OF zero]
        by (intro inv_answered [OF w o idle(2) pre so]) simp
      then show ?thesis unfolding run .
    qed
  qed
qed

lemma run_payload_read:
  assumes inv: "session_inv le A c" and t: "strand c = Payload_read h ec n # ts"
  shows "\<exists>A'. session_inv le A' (fst (payload_handler le h ec n (c\<lparr>strand := ts\<rparr>, m)))"
proof -
  let ?p = "c\<lparr>strand := ts\<rparr>"
  have w: "writer_ok ?p" and o: "output_ok A ?p" and r: "reader_ok le A c" and pre: "prefix A (serve le (history ?p))"
    and so: "socket_open ?p \<longleftrightarrow> \<not> isStopped ?p" and st: "stopping ?p = stopping c"
    using inv pop_read [OF t] by (simp_all add: session_inv_def)
  have idle: "reading ?p = None" "filter is_read (strand ?p) = []" using reader_task [OF r t] by simp_all
  show ?thesis
  proof (cases "ec = Success")
    case False
    then show ?thesis using inv_stop [OF w o idle pre so] by (auto simp: payload_handler_def)
  next
    case True
    have parse: "\<not> stopping c \<Longrightarrow> \<exists>consumed. history c = consumed @ incoming c \<and>
         (\<forall>z. serve le (consumed @ z) = A @ serve_rest le h (payloadBuffer c) z)"
      using r reader_task [OF r t] True by (simp add: reader_ok_def t)
    have run: "fst (payload_handler le h ec n (?p, m)) =
        doReadHeader (fst (processPacket le h (payloadBuffer c) (?p, m)))"
      using True by (simp add: payload_handler_def Let_def split_beta)
    have "\<exists>A'. session_inv le A' (doReadHeader (fst (processPacket le h (payloadBuffer c) (?p, m))))"
      using parse st by (intro inv_answered [OF w o idle(2) pre so]) simp
    then show ?thesis unfolding run .
  qed
qed

section \<open>Steps of the environment\<close>

lemma inv_receive:
  assumes inv: "session_inv le A c"
  shows "session_inv le A (c\<lparr>incoming := incoming c @ bs, history := history c @ bs\<rparr>)"
proof -
  let ?c = "c\<lparr>incoming := incoming c @ bs, history := history c @ bs\<rparr>"
  have same: "writer_ok ?c = writer_ok c" "output_ok A ?c = output_ok A c" "stopping ?c = stopping c"
    using reader_fields [of ?c c] by simp_all
  have "reader_ok le A c \<Longrightarrow> reader_ok le A ?c"
    unfolding reader_ok_def same(3)
    by (auto split: option.splits list.splits read_op.splits task.splits)
  moreover have "prefix A (serve le (history ?c))" if "prefix A (serve le (history c))"
    using that serve_prefix [of le "history c" bs] by (simp add: prefix_order.trans)
  ultimately show ?thesis using inv by (simp add: session_inv_def same)
qed

text \<open>The end of a read: the reader's task is queued, with the bytes it got.\<close>

lemma inv_read_done:
  assumes inv: "session_inv le A c" and t: "is_read t"
    and same: "writeQueue c' = writeQueue c" "writing c' = writing c" "strand c' = strand c" "isStopped c' = isStopped c"
      "outgoing c' = outgoing c" "history c' = history c" "socket_open c' = socket_open c"
    and r: "reader_ok le A (post t c')"
  shows "session_inv le A (post t c')"
proof -
  have "writer_ok c'" "output_ok A c'"
    using inv reader_fields [of c' c] same by (simp_all add: session_inv_def)
  moreover have "\<not> is_write t" "\<And>d. t \<noteq> Send_task d" using t by (cases t; simp)+
  ultimately have "writer_ok (post t c')" "output_ok A (post t c')"
    using writer_ok_post output_ok_post by blast+
  then show ?thesis using inv r same by (simp add: session_inv_def)
qed

lemma inv_header_done:
  assumes inv: "session_inv le A c" and rd: "reading c = Some Read_header"
  shows "HEADER_SIZE \<le> length (incoming c) \<Longrightarrow> session_inv le A (post (Header_read Success HEADER_SIZE)
      (c\<lparr>reading := None, headerBuffer := take HEADER_SIZE (incoming c), incoming := drop HEADER_SIZE (incoming c)\<rparr>))"
    and "ec \<noteq> Success \<Longrightarrow> session_inv le A (post (Header_read ec n) (c\<lparr>reading := None\<rparr>))"
proof -
  have r: "reader_ok le A c" using inv by (simp add: session_inv_def)
  then have idle: "filter is_read (strand c) = []"
    and parse: "\<not> stopping c \<longrightarrow> (\<exists>consumed. history c = consumed @ incoming c \<and>
         (\<forall>z. serve le (consumed @ z) = A @ serve le z))"
    using rd by (auto simp: reader_ok_def split: list.splits)
  show "session_inv le A (post (Header_read Success HEADER_SIZE)
      (c\<lparr>reading := None, headerBuffer := take HEADER_SIZE (incoming c), incoming := drop HEADER_SIZE (incoming c)\<rparr>))"
    if "HEADER_SIZE \<le> length (incoming c)"
    using that idle parse by (intro inv_read_done [OF inv]) (simp_all add: reader_ok_def stopping_def)
  show "session_inv le A (post (Header_read ec n) (c\<lparr>reading := None\<rparr>))" if "ec \<noteq> Success"
    using that idle by (intro inv_read_done [OF inv]) (simp_all add: reader_ok_def)
qed

lemma inv_payload_done:
  assumes inv: "session_inv le A c" and rd: "reading c = Some (Read_payload h)"
  shows "unat (h_length h) \<le> length (incoming c) \<Longrightarrow> session_inv le A (post (Payload_read h Success (unat (h_length h)))
      (c\<lparr>reading := None, payloadBuffer := take (unat (h_length h)) (incoming c),
         incoming := drop (unat (h_length h)) (incoming c)\<rparr>))"
    and "ec \<noteq> Success \<Longrightarrow> session_inv le A (post (Payload_read h ec n) (c\<lparr>reading := None\<rparr>))"
proof -
  let ?n = "unat (h_length h)"
  have r: "reader_ok le A c" using inv by (simp add: session_inv_def)
  then have idle: "filter is_read (strand c) = []" and bound: "?n \<le> MAX_PAYLOAD_SIZE"
    and parse: "\<not> stopping c \<longrightarrow> (\<exists>consumed. history c = consumed @ incoming c \<and>
         (\<forall>z. serve le (consumed @ z) = A @ serve_payload le h z))"
    using rd by (auto simp: reader_ok_def split: list.splits)
  show "session_inv le A (post (Payload_read h Success ?n)
      (c\<lparr>reading := None, payloadBuffer := take ?n (incoming c), incoming := drop ?n (incoming c)\<rparr>))"
    if enough: "?n \<le> length (incoming c)"
  proof -
    have "\<exists>consumed. history c = consumed @ drop ?n (incoming c) \<and>
        (\<forall>z. serve le (consumed @ z) = A @ serve_rest le h (take ?n (incoming c)) z)" if going: "\<not> stopping c"
    proof -
      obtain consumed where "history c = consumed @ incoming c"
        "\<forall>z. serve le (consumed @ z) = A @ serve_payload le h z" using parse going by blast
      moreover have "serve_payload le h (take ?n (incoming c) @ z) = serve_rest le h (take ?n (incoming c)) z" for z
        using enough by (intro serve_payload_enough) simp
      ultimately show ?thesis by (intro exI [of _ "consumed @ take ?n (incoming c)"]) simp
    qed
    then show ?thesis
      using enough idle bound by (intro inv_read_done [OF inv]) (simp_all add: reader_ok_def stopping_def)
  qed
  show "session_inv le A (post (Payload_read h ec n) (c\<lparr>reading := None\<rparr>))" if "ec \<noteq> Success"
    using that idle bound by (intro inv_read_done [OF inv]) (simp_all add: reader_ok_def)
qed

lemma writer_busy:
  "writer_ok c \<Longrightarrow> writing c = Some d \<Longrightarrow> filter is_write (strand c) = [] \<and> (\<exists>q. writeQueue c = d # q)"
  by (cases "writeQueue c") (auto simp: writer_ok_def split: list.splits)

lemma inv_write_done:
  assumes inv: "session_inv le A c" and wr: "writing c = Some d"
  shows "session_inv le A (post (Write_done Success (length d)) (c\<lparr>writing := None, outgoing := outgoing c @ d\<rparr>))"
    and "ec \<noteq> Success \<Longrightarrow>
      session_inv le A (post (Write_done ec n) (c\<lparr>writing := None, outgoing := outgoing c @ take n d\<rparr>))"
proof -
  have w: "writer_ok c" and o: "output_ok A c" and r: "reader_ok le A c" using inv by (simp_all add: session_inv_def)
  obtain q where q: "writeQueue c = d # q" and idle: "filter is_write (strand c) = []"
    using writer_busy [OF w wr] by blast
  have A: "concat A = outgoing c @ d @ concat q @ concat (to_write c)"
    using o wr q no_write_done [OF idle] by (simp add: output_ok_def write_failed_def unwritten_def)
  have part: "session_inv le A (post (Write_done e k) (c\<lparr>writing := None, outgoing := outgoing c @ take j d\<rparr>))"
    if "e = Success \<Longrightarrow> j = length d" for e k j
  proof -
    let ?c = "post (Write_done e k) (c\<lparr>writing := None, outgoing := outgoing c @ take j d\<rparr>)"
    have fields: "stopping ?c = stopping c"
      "to_write (post (Write_done e1 k1) (c\<lparr>writing := None, outgoing := x\<rparr>)) = to_write c" for e1 k1 x
      by (auto simp: stopping_def to_write_def pending_sends_append)
    have "writer_ok ?c" using q idle by (simp add: writer_ok_def)
    moreover have "output_ok A ?c"
    proof -
      have "d = take j d @ drop j d" by simp
      then have "prefix (outgoing c @ take j d) (concat A)" unfolding A prefix_def by (metis append.assoc)
      moreover have "unwritten ?c = q" if "e = Success" using that q by (auto simp: unwritten_def)
      moreover have "write_failed ?c" if "e \<noteq> Success" using that by (auto simp: write_failed_def)
      ultimately show ?thesis using A that by (cases "e = Success") (simp_all add: output_ok_def fields)
    qed
    moreover have "reader_ok le A ?c"
      using r by (rule_tac reader_cong [of ?c c]) (simp_all add: fields)
    ultimately show ?thesis using inv by (simp add: session_inv_def)
  qed
  show "session_inv le A (post (Write_done Success (length d)) (c\<lparr>writing := None, outgoing := outgoing c @ d\<rparr>))"
    using part [of Success "length d" "length d"] by simp
  show "session_inv le A (post (Write_done ec n) (c\<lparr>writing := None, outgoing := outgoing c @ take n d\<rparr>))"
    if "ec \<noteq> Success" using part [of ec n n] that by blast
qed

lemma inv_stop_call: "session_inv le A c \<Longrightarrow> session_inv le A (stop c)"
proof -
  assume inv: "session_inv le A c"
  then have "writer_ok (stop c)" "output_ok A (stop c)"
    using writer_ok_post [of c Stop_task] output_ok_post [of A c Stop_task] by (simp_all add: session_inv_def stop_def)
  moreover have "reader_ok le A (stop c)"
    using inv by (auto simp: session_inv_def stop_def stopping_post intro: reader_cong [of _ c])
  ultimately show ?thesis using inv by (simp add: session_inv_def stop_def)
qed

lemma own_step_inv:
  assumes inv: "session_inv le A c" and step: "own_step le sid (c, m) s'"
  shows "\<exists>A'. session_inv le A' (fst s')"
  using step
proof (cases rule: own_step_cases)
  case (run t ts)
  then show ?thesis
  proof (cases t)
    case Stop_task
    let ?c = "c\<lparr>strand := ts, isStopped := True, socket_open := False\<rparr>"
    have "isStopped c \<Longrightarrow> c\<lparr>strand := ts\<rparr> = ?c" using inv by (cases c) (simp add: session_inv_def)
    then have "session_inv le A (fst (run_task le sid t (c\<lparr>strand := ts\<rparr>, m))) = session_inv le A ?c"
      by (simp add: Stop_task stop_handler_def)
    then show ?thesis using run_stop_task [OF inv] run Stop_task by auto
  next
    case (Send_task d)
    then show ?thesis using run_send_task [OF inv] run by auto
  next
    case (Header_read ec n)
    then show ?thesis using run_header_read [OF inv] run by auto
  next
    case (Payload_read h ec n)
    then show ?thesis using run_payload_read [OF inv] run by auto
  next
    case (Write_done ec n)
    then show ?thesis using run_write_done [OF inv] run by auto
  qed
next
  case (receive bs)
  then show ?thesis using inv_receive [OF inv] by auto
next
  case header_ok
  then show ?thesis using inv_header_done(1) [OF inv] by auto
next
  case (header_fail ec n)
  then show ?thesis using inv_header_done(2) [OF inv] by auto
next
  case (payload_ok h)
  then show ?thesis using inv_payload_done(1) [OF inv] by auto
next
  case (payload_fail h ec n)
  then show ?thesis using inv_payload_done(2) [OF inv] by auto
next
  case (write_ok d)
  then show ?thesis using inv_write_done(1) [OF inv] by auto
next
  case (write_fail d ec n)
  then show ?thesis using inv_write_done(2) [OF inv] by auto
next
  case stop_call
  then show ?thesis using inv_stop_call [OF inv] by auto
qed

lemma session_inv_step:
  assumes inv: "session_inv le A c" and step: "session_step le sid (c, m) s'"
  shows "\<exists>A'. session_inv le A' (fst s')"
  using step
proof (cases rule: session_step_cases)
  case own
  then show ?thesis by (rule own_step_inv [OF inv])
next
  case (others m')
  then show ?thesis using inv by auto
qed

lemma session_reach_inv: "session_reach le sid s \<Longrightarrow> \<exists>A. session_inv le A (fst s)"
proof (induction rule: session_reach.induct)
  case (begin_session m)
  then show ?case using session_inv_start by auto
next
  case (next_step s s')
  obtain c m where s: "s = (c, m)" by (cases s)
  then obtain A where "session_inv le A c" using next_step.IH by auto
  with next_step.hyps(2) show ?case unfolding s by (intro session_inv_step)
qed

end
