(* ===== verification/Net_Session_Props.thy ===== *)
theory Net_Session_Props
  imports Net_Session_Correct
begin

text \<open>
  What the peer of a session can rely on, in every reachable state. The witnesses run a session
  that receives a \<open>PING\<close> frame, reads it, answers it and writes the \<open>PONG\<close>.
\<close>

section \<open>A run\<close>

definition ping :: Packet where
  "ping = \<lparr>p_header = \<lparr>h_magic = MAGIC_HEADER, h_type = PING, h_length = 0\<rparr>, p_payload = []\<rparr>"

lemma valid_ping: "valid_packet ping"
  by (simp add: ping_def valid_packet_def)

lemma serve_ping: "serve le (serializePacket le ping) = [serializePacket le createPongPacket]"
  using serve_packet [OF valid_ping, of le le "[]"]
  by (simp add: ping_def respond_def response_def message_types)

lemma frame_length: "length (serializePacket le ping) = HEADER_SIZE" "length (serializePacket le createPongPacket) = HEADER_SIZE"
  by (simp_all add: serializePacket_def ping_def createPongPacket_def Let_def)

lemma deserialize_ping: "deserializeHeader le (serializePacket le ping) Header_default = (True, p_header ping)"
proof -
  have "deserializeHeader le (serializeHeader le (p_header ping) @ []) Header_default = (True, p_header ping)"
    by (simp only: deserialize_serialize) (simp add: ping_def)
  then show ?thesis using serializePacket_valid [OF valid_ping, of le] by (simp add: ping_def)
qed

definition one_session :: SessionManager where
  "one_session = addSession 1 SessionManager_init"

abbreviation own_steps :: "bool \<Rightarrow> session_id \<Rightarrow> conn \<times> SessionManager \<Rightarrow> conn \<times> SessionManager \<Rightarrow> bool" where
  "own_steps le sid \<equiv> rtranclp (own_step le sid)"

lemma own_move: "own_steps le sid s0 s \<Longrightarrow> own_step le sid s s' \<Longrightarrow> s' = s'' \<Longrightarrow> own_steps le sid s0 s''"
  using rtranclp.rtrancl_into_rtrancl by metis

lemma own_steps_reach: "own_steps le sid s s' \<Longrightarrow> session_reach le sid s \<Longrightarrow> session_reach le sid s'"
  by (induction rule: rtranclp_induct) (auto intro: session_reach.next_step session_step.own)

text \<open>After the \<open>PONG\<close> was written, the session waits for the next header.\<close>

definition after_pong :: "bool \<Rightarrow> conn" where
  "after_pong le = (start_session (Session_init None))\<lparr>headerBuffer := serializePacket le ping,
     history := serializePacket le ping, outgoing := serializePacket le createPongPacket,
     logged := [(INFO, ''Client connected from unknown''), (DEBUG, ''Received PING from unknown'')]\<rparr>"

lemma after_pong_steps:
  "own_steps le sid (start_session (Session_init None), m) (after_pong le, incrementProcessedMessages m)"
proof -
  let ?ping = "serializePacket le ping" and ?pong = "serializePacket le createPongPacket"
  let ?conn = "(INFO, ''Client connected from unknown'')" and ?recv = "(DEBUG, ''Received PING from unknown'')"
  let ?s = "\<lambda>rd wr q ts hb inp out lg. \<lparr>writeQueue = q, isWriting = False, isStopped = False, headerBuffer = hb,
     payloadBuffer = [], socket_open = True, strand = ts, reading = rd, writing = wr, incoming = inp,
     history = ?ping, outgoing = out,
     remoteAddress = ''unknown'', logged = lg\<rparr>"
  let ?hb = "replicate HEADER_SIZE 0" and ?m = "incrementProcessedMessages m"
  have "own_steps le sid (start_session (Session_init None), m) (start_session (Session_init None), m)" by simp
  then have "own_steps le sid (start_session (Session_init None), m) (?s (Some Read_header) None [] [] ?hb ?ping [] [?conn], m)"
    by (rule own_move [OF _ receive [where bs = ?ping]]) (simp add: start_session_def doReadHeader_def Session_init_def log_peer_def)
  then have "own_steps le sid (start_session (Session_init None), m) (?s None None [] [Header_read Success HEADER_SIZE] ?ping [] [] [?conn], m)"
    by (rule own_move [OF _ header_ok]) (simp_all add: post_def frame_length)
  then have "own_steps le sid (start_session (Session_init None), m) (?s (Some Read_header) None [] [Send_task ?pong] ?ping [] [] [?conn, ?recv], ?m)"
    by (rule own_move [OF _ run [where ts = "[]" and t = "Header_read Success HEADER_SIZE"]])
      (simp_all add: header_handler_def frame_length deserialize_ping, simp_all add: ping_def processPacket_def
        send_def doReadHeader_def post_def Let_def MAX_PAYLOAD_SIZE_def log_peer_def)
  then have "own_steps le sid (start_session (Session_init None), m) (?s (Some Read_header) (Some ?pong) [?pong] [] ?ping [] [] [?conn, ?recv], ?m)"
    by (rule own_move [OF _ run [where ts = "[]" and t = "Send_task ?pong"]])
      (simp_all add: send_handler_def doWrite_def Let_def)
  then have "own_steps le sid (start_session (Session_init None), m) (?s (Some Read_header) None [?pong] [Write_done Success (length ?pong)] ?ping [] ?pong [?conn, ?recv], ?m)"
    by (rule own_move [OF _ write_ok [where d = ?pong]]) (simp_all add: post_def)
  then have "own_steps le sid (start_session (Session_init None), m) (?s (Some Read_header) None [] [] ?ping [] ?pong [?conn, ?recv], ?m)"
    by (rule own_move [OF _ run [where ts = "[]" and t = "Write_done Success (length ?pong)"]])
      (simp_all add: write_handler_def Let_def)
  then show ?thesis by (simp add: after_pong_def start_session_def doReadHeader_def Session_init_def log_peer_def)
qed

lemma after_pong_reach: "\<exists>m. session_reach le 1 (after_pong le, m)"
proof -
  have "session_reach le 1 (start_session (Session_init None), one_session)"
    by (rule begin_session) (simp_all add: one_session_def addSession_def SessionManager_init_def)
  then show ?thesis using own_steps_reach [OF after_pong_steps] by blast
qed

section \<open>What the invariant says of the output\<close>

lemma session_inv_output: "session_inv le A c \<Longrightarrow> prefix (outgoing c) (concat (serve le (history c)))"
proof -
  assume "session_inv le A c"
  then have "prefix (outgoing c) (concat A)" "prefix A (serve le (history c))"
    by (simp_all add: session_inv_def output_ok_def)
  moreover have "prefix (concat A) (concat (serve le (history c)))"
    using calculation(2) by (auto simp: prefix_def)
  ultimately show ?thesis by (simp add: prefix_order.trans)
qed

lemma session_inv_idle:
  assumes inv: "session_inv le A c" and idle: "strand c = []" "writing c = None" "\<not> isStopped c"
    "reading c = Some Read_header" "length (incoming c) < HEADER_SIZE"
  shows "outgoing c = concat (serve le (history c)) \<and> writeQueue c = []"
proof -
  have "writeQueue c = []"
    using inv idle(1-3) by (simp add: session_inv_def writer_ok_def stopping_def)
  moreover from this have "concat A = outgoing c"
    using inv idle(1-3) by (simp add: session_inv_def output_ok_def strand_defs)
  moreover obtain consumed where "history c = consumed @ incoming c" "serve le (history c) = A @ serve le (incoming c)"
    using inv idle(1,3,4) by (auto simp: session_inv_def reader_ok_def stopping_def)
  moreover have "serve le (incoming c) = []"
    using idle(5) by (simp add: serve.simps read_frame_def)
  ultimately show ?thesis by simp
qed

section \<open>Properties\<close>

text \<open>C24. Write discipline: at most one write is in flight or waiting for its handler, it is the front of
  \<open>writeQueue\<close>, and whenever a buffer is queued in a session that is not being stopped, a write is on its
  way. So the buffer of a write is not touched until its handler has run, and the queue never stalls.\<close>

theorem one_write_in_flight:
  assumes "session_reach le sid (c, m)"
  shows "(\<forall>d. writing c = Some d \<longrightarrow> writeQueue c \<noteq> [] \<and> d = hd (writeQueue c) \<and> filter is_write (strand c) = []) \<and>
    length (filter is_write (strand c)) \<le> 1 \<and>
    (filter is_write (strand c) \<noteq> [] \<longrightarrow> writeQueue c \<noteq> []) \<and>
    (writeQueue c \<noteq> [] \<and> \<not> stopping c \<longrightarrow> writing c \<noteq> None \<or> filter is_write (strand c) \<noteq> [])"
proof -
  obtain A where "writer_ok c" using session_reach_inv [OF assms] by (auto simp: session_inv_def)
  then show ?thesis
    by (cases "writing c"; cases "filter is_write (strand c)"; cases "tl (filter is_write (strand c))")
      (auto simp: writer_ok_def split: list.splits)
qed

theorem one_write_in_flight_witness: "length (filter is_write (strand (after_pong True))) \<le> 1"
  using after_pong_reach [of True] one_write_in_flight by blast

text \<open>C25. Read discipline and bound: at most one read is in flight or waiting for its handler, so the
  header and payload buffers have one user; and no payload larger than \<open>MAX_PAYLOAD_SIZE\<close> is ever
  asked for or accepted.\<close>

theorem one_read_in_flight:
  assumes "session_reach le sid (c, m)"
  shows "(reading c \<noteq> None \<longrightarrow> filter is_read (strand c) = []) \<and> length (filter is_read (strand c)) \<le> 1 \<and>
    (\<forall>h. reading c = Some (Read_payload h) \<longrightarrow> unat (h_length h) \<le> MAX_PAYLOAD_SIZE) \<and>
    (\<forall>h n. Payload_read h Success n \<in> set (strand c) \<longrightarrow> length (payloadBuffer c) = unat (h_length h) \<and>
       length (payloadBuffer c) \<le> MAX_PAYLOAD_SIZE)"
proof -
  obtain A where r: "reader_ok le A c" using session_reach_inv [OF assms] by (auto simp: session_inv_def)
  have one: "(reading c \<noteq> None \<longrightarrow> filter is_read (strand c) = []) \<and> length (filter is_read (strand c)) \<le> 1"
    using r by (cases "reading c"; cases "filter is_read (strand c)"; cases "tl (filter is_read (strand c))")
      (auto simp: reader_ok_def split: read_op.splits task.splits)
  have "length (payloadBuffer c) = unat (h_length h) \<and> unat (h_length h) \<le> MAX_PAYLOAD_SIZE"
    if "Payload_read h Success n \<in> set (strand c)" for h n
  proof -
    have "Payload_read h Success n \<in> set (filter is_read (strand c))" using that by simp
    then have "filter is_read (strand c) = [Payload_read h Success n]"
      using one by (cases "filter is_read (strand c)") auto
    moreover from this have "reading c = None" using one by auto
    ultimately show ?thesis using r by (simp add: reader_ok_def)
  qed
  moreover have "unat (h_length h) \<le> MAX_PAYLOAD_SIZE" if "reading c = Some (Read_payload h)" for h
    using r that one by (simp add: reader_ok_def)
  ultimately show ?thesis using one by auto
qed

theorem one_read_in_flight_witness: "length (filter is_read (strand (after_pong True))) \<le> 1"
  using after_pong_reach [of True] one_read_in_flight by blast

end
