(* ===== verification/Net_Server.thy ===== *)
theory Net_Server
  imports Net_Session_Props
begin

text \<open>
  The server (\<open>src/Server.cpp\<close>): the acceptor, the pool of worker threads, start and stop. The
  sockets and the event loop are Asio's: \<open>accept_pending\<close> says that an \<open>async_accept\<close> is
  outstanding, \<open>signal_pending\<close> that \<open>signals_.async_wait\<close> is, \<open>io_stopped\<close> that
  \<open>ioContext_.stop()\<close> was called, after which no further handler is started. The connections are the
  sessions of \<open>Net_Session\<close>, which all share the registry.

  \<open>stop\<close> may be called by the owner of the server or, through the signal handler, by a
  worker thread; \<open>self\<close> is the index of the worker it runs on, if any. \<open>std::thread::join\<close> on
  the calling thread throws; on any other worker it waits until that has left \<open>run()\<close>. \<open>stop_server\<close>
  is the whole function; since the workers go on while \<open>stop\<close> runs, \<open>server_step\<close> takes
  it one statement at a time, with the handlers of the workers in between. \<open>stop_calls\<close> says which threads are
  inside \<open>stop\<close> (the owner, \<open>None\<close>, and at most one worker) and how far each has come; the test of
  \<open>isRunning_\<close> and its assignment are two steps, so both threads can get past the test. A handler is one
  step: what it shares with others is behind the registry's mutex or atomic. The owner does
  not call \<open>start\<close> while a \<open>stop\<close> is under way, and \<open>start\<close> is one step: no signal is handled before
  it has created all its workers. A connection that was accepted before the acceptor was closed may have its
  handler run after that, so \<open>accept\<close> does not ask for an open acceptor.
\<close>

datatype worker =
    Created \<comment> \<open>the thread exists, its function has not begun: joinable\<close>
  | Running \<comment> \<open>inside its function: joinable\<close>
  | Returned \<comment> \<open>its function has returned: still joinable\<close>
  | Joined

definition joinable :: "worker \<Rightarrow> bool" where
  "joinable w \<longleftrightarrow> w \<noteq> Joined"

text \<open>The statement that a call of \<open>stop\<close> has to run next.\<close>

datatype stop_phase = Marking | Telling | Closing | Stopping_loop | Joining

record Server =
  srv_port :: u16
  threadPoolSize :: nat
  isRunning :: bool
  acceptor_open :: bool
  accept_pending :: bool
  signal_pending :: bool
  io_stopped :: bool
  sessionManager :: SessionManager
  conns :: "session_id \<Rightarrow> conn option"
  next_session :: session_id
  workerThreads :: "worker list"
  stop_calls :: "nat option \<Rightarrow> stop_phase option"
  srv_logged :: log_calls

definition Server_init :: "u16 \<Rightarrow> nat \<Rightarrow> Server" where
  "Server_init port threads = \<lparr>srv_port = port, threadPoolSize = threads, isRunning = False, acceptor_open = True,
     accept_pending = False, signal_pending = True, io_stopped = False, sessionManager = SessionManager_init,
     conns = (\<lambda>_. None), next_session = 0, workerThreads = [],
     stop_calls = Map.empty, srv_logged = []\<rparr>"

definition log_server :: "LogLevel \<Rightarrow> string \<Rightarrow> Server \<Rightarrow> Server" where
  "log_server level message s = s\<lparr>srv_logged := srv_logged s @ [(level, message)]\<rparr>"

definition getPort :: "Server \<Rightarrow> u16" where
  "getPort s = srv_port s"

definition getThreadPoolSize :: "Server \<Rightarrow> nat" where
  "getThreadPoolSize s = threadPoolSize s"

definition getSessionManager :: "Server \<Rightarrow> SessionManager" where
  "getSessionManager s = sessionManager s"

definition doAccept :: "Server \<Rightarrow> Server" where
  "doAccept s = s\<lparr>accept_pending := True\<rparr>"

definition start_server :: "Server \<Rightarrow> Server" where
  "start_server s =
     (if isRunning s then s
      else let s0 = log_server INFO (''Starting AsyncNet-Server on port '' @ show_word (srv_port s) @
                      '' with '' @ decimal (threadPoolSize s) @ '' worker threads.'') (s\<lparr>isRunning := True\<rparr>);
               s1 = doAccept s0
           in s1\<lparr>workerThreads := workerThreads s1 @ replicate (threadPoolSize s1) Created\<rparr>)"

text \<open>\<open>SessionManager::stopAll\<close>: every registered session is told to stop, the set is cleared. Its log call is
  among those of the thread that stops the server.\<close>

definition stopAll :: "Server \<Rightarrow> Server" where
  "stopAll s =
     (log_server INFO (''Stopping all active sessions ('' @ decimal (length (sessions (sessionManager s))) @ '')'') s)\<lparr>
        conns := (\<lambda>sid. if sid \<in> set (sessions (sessionManager s)) then map_option stop (conns s sid)
                        else conns s sid),
        sessionManager := (sessionManager s)\<lparr>sessions := []\<rparr>\<rparr>"

datatype thread_error = Resource_deadlock

fun error_what :: "thread_error \<Rightarrow> string" where
  "error_what Resource_deadlock = ''Resource deadlock avoided''"

definition mark_stopped :: "Server \<Rightarrow> Server" where
  "mark_stopped s = log_server INFO ''Shutting down AsyncNet-Server...'' (s\<lparr>isRunning := False\<rparr>)"

text \<open>The loop over \<open>workerThreads_\<close>; \<open>i\<close> is the index of the head of the list.\<close>

fun join_workers :: "nat option \<Rightarrow> nat \<Rightarrow> worker list \<Rightarrow> worker list \<times> thread_error option" where
  "join_workers self i [] = ([], None)"
| "join_workers self i (w # ws) =
     (if joinable w then
        if self = Some i then (w # ws, Some Resource_deadlock)
        else (let (ws', e) = join_workers self (Suc i) ws in (Joined # ws', e))
      else (let (ws', e) = join_workers self (Suc i) ws in (w # ws', e)))"

definition close_acceptor :: "Server \<Rightarrow> Server" where
  "close_acceptor s = s\<lparr>acceptor_open := False\<rparr>"

definition stop_loop :: "Server \<Rightarrow> Server" where
  "stop_loop s = s\<lparr>io_stopped := True\<rparr>"

definition join_all :: "nat option \<Rightarrow> Server \<Rightarrow> Server \<times> thread_error option" where
  "join_all self s = (case join_workers self 0 (workerThreads s) of
     (ws, Some e) \<Rightarrow> (s\<lparr>workerThreads := ws\<rparr>, Some e)
   | (ws, None) \<Rightarrow> (log_server INFO ''AsyncNet-Server successfully stopped.'' (s\<lparr>workerThreads := []\<rparr>), None))"

definition stop_server :: "nat option \<Rightarrow> Server \<Rightarrow> Server \<times> thread_error option" where
  "stop_server self s =
     (if \<not> isRunning s then (s, None)
      else let s1 = mark_stopped s;
               s2 = stopAll s1;
               s3 = close_acceptor s2;
               s4 = stop_loop s3
           in join_all self s4)"

text \<open>
  The function of worker \<open>i\<close> begins, and enters \<open>run()\<close>; it ends after \<open>run()\<close> has returned or an exception
  that left it was caught. The handler of \<open>SIGINT\<close> and \<open>SIGTERM\<close> on
  worker \<open>i\<close> calls \<open>stop\<close>, whose exception leaves \<open>run()\<close>.
\<close>

definition worker_starts :: "nat \<Rightarrow> Server \<Rightarrow> Server" where
  "worker_starts i s = log_server DEBUG (''Worker thread '' @ decimal (i + 1) @ '' started.'')
     (s\<lparr>workerThreads := (workerThreads s)[i := Running]\<rparr>)"

definition worker_returns :: "nat \<Rightarrow> Server \<Rightarrow> Server" where
  "worker_returns i s = log_server DEBUG (''Worker thread '' @ decimal (i + 1) @ '' stopped.'')
     (s\<lparr>workerThreads := (workerThreads s)[i := Returned]\<rparr>)"

definition worker_catch :: "nat \<Rightarrow> Server \<times> thread_error option \<Rightarrow> Server" where
  "worker_catch i r = (case r of
     (s, None) \<Rightarrow> s
   | (s, Some e) \<Rightarrow> worker_returns i (log_server ERROR (''Exception in worker thread: '' @ error_what e) s))"

definition signal_received :: "int \<Rightarrow> Server \<Rightarrow> Server" where
  "signal_received sig s =
     log_server INFO (''Signal received ('' @ show_int sig @ ''). Initiating graceful shutdown...'') s"

definition signal_handler :: "nat \<Rightarrow> error_code \<Rightarrow> int \<Rightarrow> Server \<Rightarrow> Server" where
  "signal_handler i ec sig s =
     (let s0 = s\<lparr>signal_pending := False\<rparr>
      in if ec = Success then worker_catch i (stop_server (Some i) (signal_received sig s0)) else s0)"

fun aborted :: "error_code \<Rightarrow> bool" where
  "aborted (Operation_aborted text) = True"
| "aborted ec = False"

definition accept_handler :: "error_code \<Rightarrow> endpoint \<Rightarrow> Server \<Rightarrow> Server" where
  "accept_handler ec ep s =
     (let s0 = s\<lparr>accept_pending := False\<rparr>;
          s1 = (if ec = Success
                then let sid = next_session s0 in
                  s0\<lparr>sessionManager := addSession sid (sessionManager s0),
                     conns := (conns s0)(sid := Some (start_session (Session_init ep))),
                     next_session := Suc sid\<rparr>
                else if \<not> aborted ec then log_server ERROR (''Accept failed: '' @ error_message ec) s0
                else s0)
      in if isRunning s1 then doAccept s1 else s1)"

text \<open>
  The destructor: \<open>stop()\<close>, then the members are destroyed. Destroying a joinable
  \<open>std::thread\<close> terminates the process.
\<close>

datatype outcome = Clean | Thrown thread_error | Terminated

definition destroy_server :: "Server \<Rightarrow> outcome" where
  "destroy_server s = (case stop_server None s of
     (s1, Some e) \<Rightarrow> Thrown e
   | (s1, None) \<Rightarrow> if \<exists>w \<in> set (workerThreads s1). joinable w then Terminated else Clean)"

section \<open>The server and all its sessions\<close>

text \<open>A worker that can take up a handler: in the event loop, and not inside \<open>stop\<close>.\<close>

definition free_worker :: "nat \<Rightarrow> Server \<Rightarrow> bool" where
  "free_worker i s \<longleftrightarrow> i < length (workerThreads s) \<and> workerThreads s ! i = Running \<and>
     stop_calls s (Some i) = None"

text \<open>All the workers that a call of \<open>stop\<close> joins have returned.\<close>

definition alive :: "worker \<Rightarrow> bool" where
  "alive w \<longleftrightarrow> w = Created \<or> w = Running"

definition joinees_returned :: "nat option \<Rightarrow> Server \<Rightarrow> bool" where
  "joinees_returned self s \<longleftrightarrow>
     (\<forall>j < (case self of None \<Rightarrow> length (workerThreads s) | Some i \<Rightarrow> i). \<not> alive (workerThreads s ! j))"

definition finish_stop :: "nat option \<Rightarrow> Server \<Rightarrow> Server" where
  "finish_stop self s = (case self of None \<Rightarrow> fst (join_all self s) | Some i \<Rightarrow> worker_catch i (join_all self s))"

definition stop_goes_on :: "nat option \<Rightarrow> stop_phase \<Rightarrow> Server \<Rightarrow> Server" where
  "stop_goes_on self ph s = s\<lparr>stop_calls := (stop_calls s)(self \<mapsto> ph)\<rparr>"

inductive server_step :: "bool \<Rightarrow> Server \<Rightarrow> Server \<Rightarrow> bool" for le where
  start: "stop_calls s = Map.empty \<Longrightarrow> server_step le s (start_server s)"
| enter: "i < length (workerThreads s) \<Longrightarrow> workerThreads s ! i = Created \<Longrightarrow> server_step le s (worker_starts i s)"
| accept: "accept_pending s \<Longrightarrow> \<not> io_stopped s \<Longrightarrow> free_worker i s \<Longrightarrow> server_step le s (accept_handler ec ep s)"
| session: "\<not> io_stopped s \<Longrightarrow> conns s sid = Some c \<Longrightarrow> own_step le sid (c, sessionManager s) (c', m') \<Longrightarrow>
    server_step le s (s\<lparr>conns := (conns s)(sid := Some c'), sessionManager := m'\<rparr>)"
| owner_stop: "stop_calls s None = None \<Longrightarrow> isRunning s \<Longrightarrow> server_step le s (stop_goes_on None Marking s)"
| signal_stop: "isRunning s \<Longrightarrow> signal_pending s \<Longrightarrow> \<not> io_stopped s \<Longrightarrow> free_worker i s \<Longrightarrow>
    server_step le s (stop_goes_on (Some i) Marking (signal_received sig (s\<lparr>signal_pending := False\<rparr>)))"
| signal_ignored: "signal_pending s \<Longrightarrow> \<not> io_stopped s \<Longrightarrow> free_worker i s \<Longrightarrow> ec \<noteq> Success \<or> \<not> isRunning s \<Longrightarrow>
    server_step le s (signal_handler i ec sig s)"
| mark: "stop_calls s self = Some Marking \<Longrightarrow>
    server_step le s (stop_goes_on self Telling (mark_stopped s))"
| tell: "stop_calls s self = Some Telling \<Longrightarrow> server_step le s (stop_goes_on self Closing (stopAll s))"
| close: "stop_calls s self = Some Closing \<Longrightarrow> server_step le s (stop_goes_on self Stopping_loop (close_acceptor s))"
| loop: "stop_calls s self = Some Stopping_loop \<Longrightarrow> server_step le s (stop_goes_on self Joining (stop_loop s))"
| leave: "io_stopped s \<Longrightarrow> free_worker i s \<Longrightarrow> server_step le s (worker_returns i s)"
| join: "stop_calls s self = Some Joining \<Longrightarrow> joinees_returned self s \<Longrightarrow>
    server_step le s (finish_stop self (s\<lparr>stop_calls := (stop_calls s)(self := None)\<rparr>))"

inductive server_reach :: "bool \<Rightarrow> u16 \<Rightarrow> nat \<Rightarrow> Server \<Rightarrow> bool" for le port threads where
  create: "server_reach le port threads (Server_init port threads)"
| proceed: "server_reach le port threads s \<Longrightarrow> server_step le s s' \<Longrightarrow> server_reach le port threads s'"

end
