(* ===== verification/Net_Server_Correct.thy ===== *)
theory Net_Server_Correct
  imports Net_Server
begin

text \<open>
  The invariant of the server. Every connection it ever accepted is in a state that its session
  can reach, with the shared registry as its registry, so the properties of a session hold for
  each connection of a running server, whatever the others and the server do. The control part
  says what \<open>start\<close>, \<open>stop\<close> and the handlers leave of the acceptor and the workers.
\<close>

section \<open>What the log calls leave\<close>

lemma log_server_fields [simp]:
  "sessionManager (log_server l t s) = sessionManager s" "conns (log_server l t s) = conns s"
  "next_session (log_server l t s) = next_session s" "isRunning (log_server l t s) = isRunning s"
  "accept_pending (log_server l t s) = accept_pending s" "io_stopped (log_server l t s) = io_stopped s"
  "acceptor_open (log_server l t s) = acceptor_open s" "stop_calls (log_server l t s) = stop_calls s"
  "workerThreads (log_server l t s) = workerThreads s" "threadPoolSize (log_server l t s) = threadPoolSize s"
  "signal_pending (log_server l t s) = signal_pending s" "srv_port (log_server l t s) = srv_port s"
  by (simp_all add: log_server_def)

lemma signal_received_fields [simp]:
  "sessionManager (signal_received sig s) = sessionManager s" "conns (signal_received sig s) = conns s"
  "next_session (signal_received sig s) = next_session s" "isRunning (signal_received sig s) = isRunning s"
  "accept_pending (signal_received sig s) = accept_pending s"
  "io_stopped (signal_received sig s) = io_stopped s" "acceptor_open (signal_received sig s) = acceptor_open s"
  "stop_calls (signal_received sig s) = stop_calls s" "workerThreads (signal_received sig s) = workerThreads s"
  "threadPoolSize (signal_received sig s) = threadPoolSize s"
  "signal_pending (signal_received sig s) = signal_pending s" "srv_port (signal_received sig s) = srv_port s"
  by (simp_all add: signal_received_def)

lemma mark_stopped_fields [simp]:
  "sessionManager (mark_stopped s) = sessionManager s" "conns (mark_stopped s) = conns s"
  "next_session (mark_stopped s) = next_session s" "\<not> isRunning (mark_stopped s)"
  "accept_pending (mark_stopped s) = accept_pending s" "io_stopped (mark_stopped s) = io_stopped s"
  "acceptor_open (mark_stopped s) = acceptor_open s" "stop_calls (mark_stopped s) = stop_calls s"
  "workerThreads (mark_stopped s) = workerThreads s" "threadPoolSize (mark_stopped s) = threadPoolSize s"
  "signal_pending (mark_stopped s) = signal_pending s" "srv_port (mark_stopped s) = srv_port s"
  by (simp_all add: mark_stopped_def)

lemma worker_starts_fields [simp]:
  "sessionManager (worker_starts i s) = sessionManager s" "conns (worker_starts i s) = conns s"
  "next_session (worker_starts i s) = next_session s" "isRunning (worker_starts i s) = isRunning s"
  "accept_pending (worker_starts i s) = accept_pending s" "io_stopped (worker_starts i s) = io_stopped s"
  "acceptor_open (worker_starts i s) = acceptor_open s" "stop_calls (worker_starts i s) = stop_calls s"
  "workerThreads (worker_starts i s) = (workerThreads s)[i := Running]"
  "threadPoolSize (worker_starts i s) = threadPoolSize s"
  "signal_pending (worker_starts i s) = signal_pending s" "srv_port (worker_starts i s) = srv_port s"
  by (simp_all add: worker_starts_def)

lemma worker_returns_fields [simp]:
  "sessionManager (worker_returns i s) = sessionManager s" "conns (worker_returns i s) = conns s"
  "next_session (worker_returns i s) = next_session s" "isRunning (worker_returns i s) = isRunning s"
  "accept_pending (worker_returns i s) = accept_pending s" "io_stopped (worker_returns i s) = io_stopped s"
  "acceptor_open (worker_returns i s) = acceptor_open s" "stop_calls (worker_returns i s) = stop_calls s"
  "workerThreads (worker_returns i s) = (workerThreads s)[i := Returned]"
  "threadPoolSize (worker_returns i s) = threadPoolSize s"
  "signal_pending (worker_returns i s) = signal_pending s" "srv_port (worker_returns i s) = srv_port s"
  by (simp_all add: worker_returns_def)

section \<open>A session and the registry\<close>

lemma processPacket_registry: "sessions (snd (processPacket le h p (c, m))) = sessions m"
  by (simp add: processPacket_def incrementProcessedMessages_def Let_def)

lemma run_task_registry:
  "sessions (snd (run_task le sid t (c, m))) = sessions m \<or>
   sessions (snd (run_task le sid t (c, m))) = remove1 sid (sessions m)"
  by (cases t) (auto simp: header_handler_def payload_handler_def stop_handler_def removeSession_def
    case_prod_unfold Let_def processPacket_registry split: bool.splits)

text \<open>A stopped session has left the registry, with its socket closed.\<close>

definition session_closed :: "session_id \<Rightarrow> conn \<times> SessionManager \<Rightarrow> bool" where
  "session_closed sid s \<longleftrightarrow> distinct (sessions (snd s)) \<and>
     (isStopped (fst s) \<longrightarrow> sid \<notin> set (sessions (snd s)) \<and> \<not> socket_open (fst s))"

lemma own_step_registry:
  assumes "own_step le sid (c, m) (c', m')"
  shows "sessions m' = sessions m \<or> sessions m' = remove1 sid (sessions m)"
  using assms
proof (cases rule: own_step_cases)
  case (run t ts)
  then show ?thesis using run_task_registry [of le sid t "c\<lparr>strand := ts\<rparr>" m] by (metis snd_conv)
qed simp_all

lemma processPacket_fields [simp]:
  "isStopped (fst (processPacket le h p (c, m))) = isStopped c"
  "socket_open (fst (processPacket le h p (c, m))) = socket_open c"
  by (simp_all add: processPacket_def send_def stop_def Let_def)

lemma run_task_stopped:
  assumes "t \<noteq> Stop_task"
  shows "isStopped (fst (run_task le sid t (c, m))) = isStopped c"
    "socket_open (fst (run_task le sid t (c, m))) = socket_open c"
  using assms
  by (cases t; simp add: header_handler_def payload_handler_def send_handler_def write_handler_def
    doReadHeader_def doReadPayload_def doWrite_def stop_def case_prod_unfold Let_def split: bool.splits)+

lemma session_closed_run:
  assumes "session_closed sid (c, m)"
  shows "session_closed sid (run_task le sid t (c\<lparr>strand := ts\<rparr>, m))"
proof (cases "t = Stop_task")
  case True
  then show ?thesis
    using assms reg.left_for_good [of m sid] reg.ok_remove [of m sid]
    by (simp add: session_closed_def stop_handler_def registry_ok_def registered_def)
next
  case False
  then show ?thesis
    using assms run_task_registry [of le sid t "c\<lparr>strand := ts\<rparr>" m]
    by (auto simp: session_closed_def run_task_stopped)
qed

lemma session_closed_step:
  assumes "session_closed sid (c, m)" and "session_step le sid (c, m) s'"
  shows "session_closed sid s'"
  using assms(2)
proof (cases rule: session_step_cases)
  case own
  then show ?thesis
  proof (cases rule: own_step_cases)
    case (run t ts)
    then show ?thesis using session_closed_run [OF assms(1)] by simp
  qed (use assms(1) in \<open>simp_all add: session_closed_def stop_def\<close>)
next
  case (others m')
  then show ?thesis using assms(1) by (auto simp: session_closed_def)
qed

lemma session_reach_closed: "session_reach le sid s \<Longrightarrow> session_closed sid s"
proof (induction rule: session_reach.induct)
  case (begin_session m)
  then show ?case by (simp add: session_closed_def start_session_def doReadHeader_def Session_init_def)
next
  case (next_step s s')
  then show ?case by (cases s) (auto intro: session_closed_step)
qed

section \<open>All the sessions of a server\<close>

definition sessions_inv :: "bool \<Rightarrow> Server \<Rightarrow> bool" where
  "sessions_inv le s \<longleftrightarrow> distinct (sessions (sessionManager s)) \<and>
     (\<forall>sid \<in> set (sessions (sessionManager s)). conns s sid \<noteq> None) \<and>
     (\<forall>sid. next_session s \<le> sid \<longrightarrow> conns s sid = None) \<and>
     (\<forall>sid c. conns s sid = Some c \<longrightarrow> session_reach le sid (c, sessionManager s))"

lemma sessions_inv_cong:
  assumes "sessionManager s' = sessionManager s" "conns s' = conns s" "next_session s' = next_session s"
  shows "sessions_inv le s' = sessions_inv le s"
  using assms by (simp add: sessions_inv_def)

lemma reach_others:
  "session_reach le sid (c, m) \<Longrightarrow> distinct (sessions m') \<Longrightarrow>
    (sid \<in> set (sessions m') \<Longrightarrow> sid \<in> set (sessions m)) \<Longrightarrow> session_reach le sid (c, m')"
  using session_reach.next_step session_step.others by metis

lemma reach_own: "session_reach le sid s \<Longrightarrow> own_step le sid s s' \<Longrightarrow> session_reach le sid s'"
  using session_reach.next_step session_step.own by metis

lemma sessions_inv_own:
  assumes inv: "sessions_inv le s" and c: "conns s sid = Some c"
    and step: "own_step le sid (c, sessionManager s) (c', m')"
  shows "sessions_inv le (s\<lparr>conns := (conns s)(sid := Some c'), sessionManager := m'\<rparr>)"
proof -
  have sub: "distinct (sessions m')" "\<And>x. x \<in> set (sessions m') \<Longrightarrow> x \<in> set (sessions (sessionManager s))"
    using own_step_registry [OF step] inv by (auto simp: sessions_inv_def dest: subsetD [OF set_remove1_subset])
  have "session_reach le x (d, m')" if "((conns s)(sid := Some c')) x = Some d" for x d
  proof (cases "x = sid")
    case True
    then show ?thesis using that reach_own [OF _ step] inv c by (simp add: sessions_inv_def)
  next
    case False
    then have "session_reach le x (d, sessionManager s)" using that inv by (simp add: sessions_inv_def)
    then show ?thesis using sub by (rule reach_others)
  qed
  moreover have "next_session s \<le> x \<Longrightarrow> x \<noteq> sid" for x using inv c by (auto simp: sessions_inv_def)
  ultimately show ?thesis
    using inv sub by (auto simp: sessions_inv_def)
qed

lemma sessions_inv_stopAll:
  assumes inv: "sessions_inv le s"
  shows "sessions_inv le (stopAll s)"
proof -
  have "session_reach le x (d, (sessionManager s)\<lparr>sessions := []\<rparr>)" if x: "conns (stopAll s) x = Some d" for x d
  proof -
    have "session_reach le x (d, sessionManager s)"
    proof (cases "x \<in> set (sessions (sessionManager s))")
      case True
      then obtain c where "conns s x = Some c" "d = stop c" using x by (auto simp: stopAll_def)
      then show ?thesis using inv reach_own [OF _ own_step.stop_call] by (auto simp: sessions_inv_def)
    next
      case False
      then show ?thesis using x inv by (simp add: stopAll_def sessions_inv_def)
    qed
    then show ?thesis by (rule reach_others) simp_all
  qed
  then show ?thesis using inv by (simp add: sessions_inv_def stopAll_def)
qed

lemma sessions_inv_accept:
  assumes inv: "sessions_inv le s"
  shows "sessions_inv le (accept_handler ec ep s)"
proof (cases "ec = Success")
  case True
  let ?sid = "next_session s" and ?m = "addSession (next_session s) (sessionManager s)"
  have fresh: "conns s ?sid = None" "?sid \<notin> set (sessions (sessionManager s))"
    using inv by (auto simp: sessions_inv_def)
  have set: "distinct (sessions ?m)" "set (sessions ?m) = insert ?sid (set (sessions (sessionManager s)))"
    using inv reg.ok_add [of "sessionManager s"] reg.members_add [of "sessionManager s"]
    by (simp_all add: sessions_inv_def registry_ok_def registered_def)
  have "session_reach le x (d, ?m)" if "((conns s)(?sid := Some (start_session (Session_init ep)))) x = Some d" for x d
  proof (cases "x = ?sid")
    case True
    then show ?thesis using that set by (auto intro: session_reach.begin_session)
  next
    case False
    then have "session_reach le x (d, sessionManager s)" using that inv by (simp add: sessions_inv_def)
    then show ?thesis using set(1) by (rule reach_others) (use False set(2) in simp)
  qed
  then have "sessions_inv le (s\<lparr>accept_pending := False, sessionManager := ?m,
      conns := (conns s)(?sid := Some (start_session (Session_init ep))), next_session := Suc ?sid\<rparr>)"
    using inv set by (auto simp: sessions_inv_def)
  then show ?thesis using True by (simp add: accept_handler_def doAccept_def Let_def sessions_inv_def)
next
  case False
  then show ?thesis using inv by (simp add: accept_handler_def doAccept_def Let_def sessions_inv_def)
qed

lemma join_all_fields [simp]:
  "sessionManager (fst (join_all self s)) = sessionManager s" "conns (fst (join_all self s)) = conns s"
  "next_session (fst (join_all self s)) = next_session s" "isRunning (fst (join_all self s)) = isRunning s"
  "accept_pending (fst (join_all self s)) = accept_pending s" "io_stopped (fst (join_all self s)) = io_stopped s"
  "acceptor_open (fst (join_all self s)) = acceptor_open s" "stop_calls (fst (join_all self s)) = stop_calls s"
  by (simp_all add: join_all_def split: prod.splits option.splits)

lemma worker_catch_fields [simp]:
  "sessionManager (worker_catch i r) = sessionManager (fst r)" "conns (worker_catch i r) = conns (fst r)"
  "next_session (worker_catch i r) = next_session (fst r)" "isRunning (worker_catch i r) = isRunning (fst r)"
  "accept_pending (worker_catch i r) = accept_pending (fst r)" "io_stopped (worker_catch i r) = io_stopped (fst r)"
  "acceptor_open (worker_catch i r) = acceptor_open (fst r)" "stop_calls (worker_catch i r) = stop_calls (fst r)"
  by (cases r; cases "snd r"; simp add: worker_catch_def)+

lemma finish_stop_fields [simp]:
  "sessionManager (finish_stop self s) = sessionManager s" "conns (finish_stop self s) = conns s"
  "next_session (finish_stop self s) = next_session s" "isRunning (finish_stop self s) = isRunning s"
  "accept_pending (finish_stop self s) = accept_pending s" "io_stopped (finish_stop self s) = io_stopped s"
  "acceptor_open (finish_stop self s) = acceptor_open s" "stop_calls (finish_stop self s) = stop_calls s"
  by (simp_all add: finish_stop_def split: option.splits)

lemma stop_goes_on_fields [simp]:
  "sessionManager (stop_goes_on self ph s) = sessionManager s" "conns (stop_goes_on self ph s) = conns s"
  "next_session (stop_goes_on self ph s) = next_session s" "isRunning (stop_goes_on self ph s) = isRunning s"
  "accept_pending (stop_goes_on self ph s) = accept_pending s" "io_stopped (stop_goes_on self ph s) = io_stopped s"
  "acceptor_open (stop_goes_on self ph s) = acceptor_open s" "workerThreads (stop_goes_on self ph s) = workerThreads s"
  "threadPoolSize (stop_goes_on self ph s) = threadPoolSize s" "signal_pending (stop_goes_on self ph s) = signal_pending s"
  "stop_calls (stop_goes_on self ph s) = (stop_calls s)(self \<mapsto> ph)"
  by (simp_all add: stop_goes_on_def)

lemma ignored_signal: "ec \<noteq> Success \<or> \<not> isRunning s \<Longrightarrow> signal_handler i ec sig s =
    (if ec = Success then signal_received sig (s\<lparr>signal_pending := False\<rparr>) else s\<lparr>signal_pending := False\<rparr>)"
  by (auto simp: signal_handler_def stop_server_def worker_catch_def Let_def)

lemma sessions_inv_step:
  assumes inv: "sessions_inv le s" and step: "server_step le s s'"
  shows "sessions_inv le s'"
  using step
proof (cases rule: server_step.cases)
  case start
  then show ?thesis using inv sessions_inv_cong [of s' s le] by (simp add: start_server_def doAccept_def Let_def)
next
  case (accept i ec ep)
  then show ?thesis using sessions_inv_accept [OF inv] by simp
next
  case (session sid c c' m')
  then show ?thesis using sessions_inv_own [OF inv] by simp
next
  case (tell self)
  then show ?thesis
    using sessions_inv_stopAll [OF inv] sessions_inv_cong [of s' "stopAll s" le] by simp
next
  case (signal_ignored i ec sig)
  then show ?thesis using inv sessions_inv_cong [of s' s le] by (simp add: ignored_signal)
qed (use inv sessions_inv_cong [of s' s le] in \<open>simp_all add: close_acceptor_def stop_loop_def\<close>)

lemma sessions_inv_reach: "server_reach le port threads s \<Longrightarrow> sessions_inv le s"
proof (induction rule: server_reach.induct)
  case create
  then show ?case by (simp add: sessions_inv_def Server_init_def SessionManager_init_def)
next
  case (proceed s s')
  then show ?case using sessions_inv_step [of le s s'] by blast
qed

end
