(* ===== verification/Net_Server_Props.thy ===== *)
theory Net_Server_Props
  imports Net_Server_Correct
begin

text \<open>
  What the server promises: of its connections, of accepting, and of \<open>stop\<close>, called by the
  owner and called by the signal handler. The last group holds for the program at hand what
  does not work: the stop on a signal, a connection accepted while the server stops, and a
  server with no worker.
\<close>

section \<open>The acceptor and the workers\<close>

definition control_inv :: "nat \<Rightarrow> Server \<Rightarrow> bool" where
  "control_inv threads s \<longleftrightarrow> threadPoolSize s = threads \<and>
     (isRunning s \<longrightarrow> accept_pending s) \<and>
     (\<forall>self ph. isRunning s \<and> stop_calls s self = Some ph \<longrightarrow> ph = Marking) \<and>
     (isRunning s \<and> \<not> io_stopped s \<longrightarrow> acceptor_open s \<and> length (workerThreads s) = threads \<and> list_all alive (workerThreads s)) \<and>
     (\<not> isRunning s \<and> stop_calls s = Map.empty \<and> \<not> io_stopped s \<longrightarrow> workerThreads s = [] \<and> acceptor_open s) \<and>
     (\<forall>self. stop_calls s self = Some Joining \<longrightarrow> io_stopped s)"

lemma start_fields:
  "isRunning s \<Longrightarrow> start_server s = s"
  "\<not> isRunning s \<Longrightarrow> start_server s = s\<lparr>isRunning := True, accept_pending := True,
     workerThreads := workerThreads s @ replicate (threadPoolSize s) Created,
     srv_logged := srv_logged s @ [(INFO, ''Starting AsyncNet-Server on port '' @ show_word (srv_port s) @
       '' with '' @ decimal (threadPoolSize s) @ '' worker threads.'')]\<rparr>"
  by (simp_all add: start_server_def doAccept_def log_server_def)

lemma accept_fields:
  "isRunning (accept_handler ec ep s) = isRunning s" "accept_pending (accept_handler ec ep s) = isRunning s"
  "io_stopped (accept_handler ec ep s) = io_stopped s" "acceptor_open (accept_handler ec ep s) = acceptor_open s"
  "workerThreads (accept_handler ec ep s) = workerThreads s" "stop_calls (accept_handler ec ep s) = stop_calls s"
  "threadPoolSize (accept_handler ec ep s) = threadPoolSize s"
  by (simp_all add: accept_handler_def doAccept_def Let_def)

lemma finish_stop_size [simp]: "threadPoolSize (finish_stop self s) = threadPoolSize s"
  by (simp add: finish_stop_def worker_catch_def join_all_def split: option.splits prod.splits)

lemma control_inv_step:
  assumes inv: "control_inv threads s" and step: "server_step le s s'"
  shows "control_inv threads s'"
  using step
proof (cases rule: server_step.cases)
  case start
  then show ?thesis
    using inv by (cases "isRunning s") (auto simp: control_inv_def start_fields list_all_iff alive_def)
next
  case (enter i)
  then show ?thesis using inv by (auto simp: control_inv_def list_all_iff alive_def dest: subsetD [OF set_update_subset_insert])
next
  case (accept i ec ep)
  then show ?thesis using inv by (auto simp: control_inv_def accept_fields)
next
  case (signal_ignored i ec sig)
  then show ?thesis using inv by (fastforce simp: control_inv_def ignored_signal)
next
  case (tell self)
  then show ?thesis using inv by (fastforce simp: control_inv_def stopAll_def)
next
  case (leave i)
  then show ?thesis using inv by (fastforce simp: control_inv_def)
next
  case (join self)
  then show ?thesis using inv by (fastforce simp: control_inv_def)
qed (use inv in \<open>fastforce simp: control_inv_def close_acceptor_def stop_loop_def\<close>)+

lemma control_inv_reach: "server_reach le port threads s \<Longrightarrow> control_inv threads s"
proof (induction rule: server_reach.induct)
  case create
  then show ?case by (simp add: control_inv_def Server_init_def)
next
  case (proceed s s')
  then show ?case using control_inv_step [of threads s le s'] by blast
qed

section \<open>Joining the workers\<close>

lemma join_workers_owner: "join_workers None k ws = (replicate (length ws) Joined, None)"
  by (induction ws arbitrary: k) (simp_all add: joinable_def)

lemma join_workers_at:
  "i < length ws \<Longrightarrow> ws ! i = Running \<Longrightarrow>
    join_workers (Some (k + i)) k ws = (replicate i Joined @ drop i ws, Some Resource_deadlock)"
proof (induction ws arbitrary: i k)
  case (Cons w ws)
  show ?case
  proof (cases i)
    case 0
    then show ?thesis using Cons.prems by (simp add: joinable_def)
  next
    case (Suc i')
    then show ?thesis using Cons.IH [of i' "Suc k"] Cons.prems by (simp add: joinable_def)
  qed
qed simp

lemma join_all_owner: "join_all None s =
    (log_server INFO ''AsyncNet-Server successfully stopped.'' (s\<lparr>workerThreads := []\<rparr>), None)"
  by (simp add: join_all_def join_workers_owner)

lemma stop_owner: "isRunning s \<Longrightarrow> stop_server None s =
    (log_server INFO ''AsyncNet-Server successfully stopped.''
      ((stop_loop (close_acceptor (stopAll (mark_stopped s))))\<lparr>workerThreads := []\<rparr>), None)"
  by (simp add: stop_server_def Let_def join_all_owner)

abbreviation server_steps :: "bool \<Rightarrow> Server \<Rightarrow> Server \<Rightarrow> bool" where
  "server_steps le \<equiv> rtranclp (server_step le)"

lemma steps_reach: "server_steps le s s' \<Longrightarrow> server_reach le port threads s \<Longrightarrow> server_reach le port threads s'"
  by (induction rule: rtranclp_induct) (auto intro: server_reach.proceed)

lemma server_move: "server_steps le s0 s \<Longrightarrow> server_step le s s' \<Longrightarrow> s' = s'' \<Longrightarrow> server_steps le s0 s''"
  using rtranclp.rtrancl_into_rtrancl by metis

text \<open>Once the loop is stopped, the workers leave one after the other.\<close>

definition left :: "worker \<Rightarrow> worker" where
  "left w = (if alive w then Returned else w)"

lemma left_simps [simp]: "alive w \<Longrightarrow> left w = Returned" "\<not> alive w \<Longrightarrow> left w = w" "\<not> alive (left w)"
  by (simp_all add: left_def alive_def)

text \<open>One that has not begun yet begins first, and finds the loop stopped.\<close>

lemma worker_leaves:
  assumes "io_stopped s" and "stop_calls s (Some i) = None" and "i < length (workerThreads s)" and "workerThreads s ! i = w"
  shows "\<exists>lg. server_steps le s (s\<lparr>workerThreads := (workerThreads s)[i := left w], srv_logged := lg\<rparr>)"
proof (cases w)
  case Created
  have "server_steps le s (worker_starts i s)" using enter [of i s le] assms(3,4) Created by auto
  then have "server_steps le s (worker_returns i (worker_starts i s))"
    by (rule server_move [OF _ leave]) (use assms in \<open>simp_all add: free_worker_def\<close>)
  then show ?thesis using Created by (auto simp: worker_returns_def worker_starts_def log_server_def alive_def)
next
  case Running
  then have "server_steps le s (worker_returns i s)" using leave [of s i le] assms by (auto simp: free_worker_def)
  then show ?thesis using Running by (auto simp: worker_returns_def log_server_def alive_def)
qed (use assms(4) list_update_id [of "workerThreads s" i] exI [of _ "srv_logged s"] in \<open>auto simp: alive_def\<close>)

lemma workers_leave:
  assumes "io_stopped s" and "\<And>i. stop_calls s (Some i) = None"
  shows "\<exists>lg. server_steps le s (s\<lparr>workerThreads := map left (workerThreads s), srv_logged := lg\<rparr>)"
proof -
  let ?ws = "workerThreads s"
  let ?s = "\<lambda>k lg. s\<lparr>workerThreads := map left (take k ?ws) @ drop k ?ws, srv_logged := lg\<rparr>"
  have "k \<le> length ?ws \<Longrightarrow> \<exists>lg. server_steps le s (?s k lg)" for k
  proof (induction k)
    case 0
    have "s\<lparr>srv_logged := srv_logged s\<rparr> = s" by simp
    then show ?case by (intro exI [of _ "srv_logged s"]) simp
  next
    case (Suc k)
    have k: "k < length ?ws" using Suc.prems by simp
    have split: "drop k ?ws = ?ws ! k # drop (Suc k) ?ws" "map left (take (Suc k) ?ws) = map left (take k ?ws) @ [left (?ws ! k)]"
      using k by (simp_all add: Cons_nth_drop_Suc take_Suc_conv_app_nth)
    obtain lg where steps: "server_steps le s (?s k lg)" using Suc by auto
    obtain lg' where "server_steps le (?s k lg) ((?s k lg)\<lparr>workerThreads := (workerThreads (?s k lg))[k := left (?ws ! k)], srv_logged := lg'\<rparr>)"
      using worker_leaves [of "?s k lg" k "?ws ! k" le] assms k by (auto simp: nth_append)
    then have "server_steps le (?s k lg) (?s (Suc k) lg')" using k split by (simp add: list_update_append min_def)
    then show ?case using steps rtranclp_trans by meson
  qed
  from this [of "length ?ws"] show ?thesis by simp
qed

text \<open>From the call of \<open>stop\<close> by the owner to its return: the statements, and what the workers log in between.\<close>

lemma stop_steps:
  assumes "stop_calls s = Map.empty" and "isRunning s"
  shows "\<exists>lg. server_steps le s ((fst (stop_server None s))\<lparr>srv_logged := lg\<rparr>)"
proof -
  let ?s1 = "stop_goes_on None Telling (mark_stopped s)"
  let ?s2 = "stop_goes_on None Closing (stopAll ?s1)"
  let ?s3 = "stop_goes_on None Stopping_loop (close_acceptor ?s2)"
  let ?s4 = "stop_goes_on None Joining (stop_loop ?s3)"
  let ?s5 = "\<lambda>lg. ?s4\<lparr>workerThreads := map left (workerThreads ?s4), srv_logged := lg\<rparr>"
  have "server_steps le s (stop_goes_on None Marking s)"
    using owner_stop [of s le] assms by auto
  then have "server_steps le s ?s1"
    by (rule server_move [OF _ mark [where self = None]]) (simp_all add: stop_goes_on_def mark_stopped_def log_server_def)
  then have "server_steps le s ?s2" by (rule server_move [OF _ tell]) simp_all
  then have "server_steps le s ?s3" by (rule server_move [OF _ close]) simp_all
  then have s4: "server_steps le s ?s4" by (rule server_move [OF _ loop]) simp_all
  have "\<exists>lg. server_steps le ?s4 (?s5 lg)"
    by (rule workers_leave) (simp_all add: stop_loop_def close_acceptor_def stopAll_def assms(1))
  then obtain lg where "server_steps le s (?s5 lg)" using s4 rtranclp_trans by meson
  from server_move [OF this join [where self = None]]
  have "server_steps le s (finish_stop None ((?s5 lg)\<lparr>stop_calls := (stop_calls (?s5 lg))(None := None)\<rparr>))"
    by (simp add: joinees_returned_def)
  moreover have "\<exists>lg'. finish_stop None ((?s5 lg)\<lparr>stop_calls := (stop_calls (?s5 lg))(None := None)\<rparr>) =
      (fst (stop_server None s))\<lparr>srv_logged := lg'\<rparr>"
    using assms by (intro exI [of _ "lg @ [(INFO, ''AsyncNet-Server successfully stopped.'')]"])
      (simp add: finish_stop_def join_all_owner stop_owner,
       simp add: stop_goes_on_def stop_loop_def close_acceptor_def stopAll_def mark_stopped_def log_server_def cong: if_cong)
  ultimately show ?thesis by auto
qed

text \<open>A server with no worker runs no handler, so it accepts nothing.\<close>

lemma no_worker_step:
  assumes "workerThreads s = [] \<and> threadPoolSize s = 0 \<and> conns s = Map.empty" and "server_step le s s'"
  shows "workerThreads s' = [] \<and> threadPoolSize s' = 0 \<and> conns s' = Map.empty"
  using assms(2)
proof (cases rule: server_step.cases)
  case start
  then show ?thesis using assms(1) by (cases "isRunning s") (simp_all add: start_fields)
next
  case (tell self)
  then show ?thesis using assms(1) by (simp add: stopAll_def cong: if_cong)
next
  case (join self)
  then show ?thesis
    using assms(1) by (simp add: finish_stop_def join_all_def worker_catch_def split: option.splits)
qed (use assms(1) in \<open>simp_all add: free_worker_def close_acceptor_def stop_loop_def\<close>)

section \<open>A run with one connection\<close>

definition serving :: "bool \<Rightarrow> u16 \<Rightarrow> Server" where
  "serving le port = (accept_handler Success None (worker_starts 0 (start_server (Server_init port 1))))\<lparr>
     conns := [0 \<mapsto> after_pong le],
     sessionManager := incrementProcessedMessages (addSession 0 SessionManager_init)\<rparr>"

lemma own_steps_server:
  assumes "own_steps le sid (c, sessionManager s) cm" "\<not> io_stopped s" "conns s sid = Some c"
  shows "server_steps le s (s\<lparr>conns := (conns s)(sid := Some (fst cm)), sessionManager := snd cm\<rparr>)"
  using assms(1)
proof (induction rule: rtranclp_induct)
  case base
  have "(conns s)(sid := Some c) = conns s" using assms(3) by auto
  then show ?case by simp
next
  case (step y z)
  let ?s = "\<lambda>y. s\<lparr>conns := (conns s)(sid := Some (fst y)), sessionManager := snd y\<rparr>"
  have "server_step le (?s y) ((?s y)\<lparr>conns := (conns (?s y))(sid := Some (fst z)), sessionManager := snd z\<rparr>)"
    using step.hyps(2) assms(2) by (intro session [where c = "fst y"]) simp_all
  moreover have "(?s y)\<lparr>conns := (conns (?s y))(sid := Some (fst z)), sessionManager := snd z\<rparr> = ?s z"
    by (cases s) (simp only: Server.simps fun_upd_upd)
  ultimately show ?case by (intro server_move [OF step.IH])
qed

lemma serving_reach: "server_reach le port 1 (serving le port)"
proof -
  let ?fresh = "Server_init port 1" and ?s2 = "accept_handler Success None (worker_starts 0 (start_server (Server_init port 1)))"
  have "server_reach le port 1 (start_server ?fresh)"
    using server_reach.proceed [OF server_reach.create server_step.start] by (simp add: Server_init_def)
  then have "server_reach le port 1 (worker_starts 0 (start_server ?fresh))"
    by (rule server_reach.proceed [OF _ enter]) (simp_all add: start_server_def doAccept_def Server_init_def)
  then have "server_reach le port 1 ?s2"
    by (rule server_reach.proceed)
      (rule accept [where i = 0], simp_all add: start_server_def doAccept_def Server_init_def free_worker_def)
  moreover have "server_steps le ?s2 (serving le port)"
    using own_steps_server [of le 0 "start_session (Session_init None)" ?s2 "(after_pong le, incrementProcessedMessages (sessionManager ?s2))"]
      after_pong_steps [of le 0 "sessionManager ?s2"]
    by (simp add: serving_def accept_handler_def start_server_def doAccept_def Server_init_def Let_def)
  ultimately show ?thesis using steps_reach by blast
qed

section \<open>Properties\<close>

text \<open>C11. Each connection that a server ever accepted is answered as the specification of a session says,
  whatever the other connections, the workers, \<open>stop\<close> and the network do; and what it asks of the registry holds: the
  registry holds only connections of this server, each once, so its size counts them.\<close>

theorem server_sessions_correct:
  assumes "server_reach le port threads s"
  shows "(\<forall>sid c. conns s sid = Some c \<longrightarrow> session_reach le sid (c, sessionManager s) \<and>
      prefix (outgoing c) (concat (serve le (history c)))) \<and>
    getActiveConnectionsCount (sessionManager s) = card (set (sessions (sessionManager s))) \<and>
    set (sessions (sessionManager s)) \<subseteq> dom (conns s)"
proof -
  have server: "sessions_inv le s" by (rule sessions_inv_reach [OF assms])
  have reach: "session_reach le sid (c, sessionManager s)" if "conns s sid = Some c" for sid c
    using server that by (simp add: sessions_inv_def)
  have "prefix (outgoing c) (concat (serve le (history c)))" if c: "conns s sid = Some c" for sid c
    using session_reach_inv [OF reach [OF c]] session_inv_output by auto
  with reach show ?thesis
    using server reg.count_members [of "sessionManager s"]
    by (auto simp: sessions_inv_def registry_ok_def registered_def)
qed

theorem server_sessions_correct_witness:
  "prefix (outgoing (after_pong True)) (concat (serve True (history (after_pong True))))"
  using server_sessions_correct [OF serving_reach [of True 8080]] by (simp add: serving_def)

text \<open>A session that was stopped has left the registry for good and its socket is closed.\<close>

lemma stopped_sessions_leave:
  assumes "server_reach le port threads s" and "conns s sid = Some c" and "isStopped c"
  shows "sid \<notin> set (sessions (sessionManager s)) \<and> \<not> socket_open c"
proof -
  have "session_reach le sid (c, sessionManager s)"
    using sessions_inv_reach [OF assms(1)] assms(2) by (simp add: sessions_inv_def)
  then show ?thesis using session_reach_closed assms(3) by (fastforce simp: session_closed_def)
qed

lemma serving_conn: "conns (serving le port) = [0 \<mapsto> after_pong le]" "\<not> io_stopped (serving le port)" "isRunning (serving le port)"
  by (simp_all add: serving_def accept_handler_def start_server_def doAccept_def Server_init_def Let_def)

definition hung_up_conn :: "bool \<Rightarrow> conn" where
  "hung_up_conn le = log_peer INFO ''Client disconnected: '' [] ((after_pong le)\<lparr>isStopped := True, socket_open := False\<rparr>)"

definition hung_up :: "bool \<Rightarrow> Server" where
  "hung_up le = (serving le 8080)\<lparr>conns := [0 \<mapsto> hung_up_conn le],
     sessionManager := removeSession 0 (sessionManager (serving le 8080))\<rparr>"

lemma hung_up_reach: "server_reach le 8080 1 (hung_up le)"
proof -
  let ?c = "after_pong le" and ?m = "sessionManager (serving le 8080)"
  have closed: "stop_handler 0 ((stop ?c)\<lparr>strand := []\<rparr>, ?m) =
      (hung_up_conn le, removeSession 0 ?m)"
    by (simp add: stop_handler_def stop_def post_def after_pong_def start_session_def doReadHeader_def Session_init_def
        hung_up_conn_def log_peer_def)
  have "own_step le 0 (?c, ?m) (stop ?c, ?m)" by (rule stop_call)
  moreover have "own_step le 0 (stop ?c, ?m) (run_task le 0 Stop_task ((stop ?c)\<lparr>strand := []\<rparr>, ?m))"
    by (rule run) (simp add: stop_def post_def after_pong_def start_session_def doReadHeader_def Session_init_def)
  ultimately have "own_steps le 0 (?c, ?m) (stop_handler 0 ((stop ?c)\<lparr>strand := []\<rparr>, ?m))" by simp
  then have "server_steps le (serving le 8080) (hung_up le)"
    using own_steps_server [of le 0 ?c "serving le 8080" "stop_handler 0 ((stop ?c)\<lparr>strand := []\<rparr>, ?m)"]
    by (simp add: hung_up_def serving_conn closed)
  then show ?thesis using steps_reach serving_reach by blast
qed

lemma stopped_sessions_leave_witness: "0 \<notin> set (sessions (sessionManager (hung_up True)))"
  using stopped_sessions_leave [OF hung_up_reach [of True], of 0] by (simp add: hung_up_def hung_up_conn_def)

text \<open>C5. End to end: a peer that sent the frames of some valid packets, none of them a disconnect request,
  gets the responses to these packets in order, a \<open>PONG\<close> per \<open>PING\<close> and an echo per echo
  request, and no other byte; and it has them all once its session is idle.\<close>

theorem server_end_to_end:
  assumes "server_reach le port threads s" and "conns s sid = Some c"
    and "history c = concat (map (serializePacket le') ps)"
    and "\<forall>p \<in> set ps. valid_packet p \<and> h_type (p_header p) \<noteq> DISCONNECT"
  defines "replies \<equiv> concat (map (\<lambda>p. concat (respond le (h_type (p_header p)) (p_payload p))) ps)"
  shows "prefix (outgoing c) replies \<and>
    (strand c = [] \<and> writing c = None \<and> \<not> isStopped c \<and> reading c = Some Read_header \<and>
     length (incoming c) < HEADER_SIZE \<longrightarrow> outgoing c = replies)"
proof -
  have reach: "session_reach le sid (c, sessionManager s)"
    using sessions_inv_reach [OF assms(1)] assms(2) by (simp add: sessions_inv_def)
  have "concat (serve le (history c)) = replies"
    unfolding assms(3) serve_packets [OF assms(4)] replies_def by (induction ps) simp_all
  moreover obtain A where "session_inv le A c" using session_reach_inv [OF reach] by auto
  ultimately show ?thesis using session_inv_output session_inv_idle by fastforce
qed

theorem server_end_to_end_witness: "outgoing (after_pong True) = serializePacket True createPongPacket"
proof -
  have "conns (serving True 8080) 0 = Some (after_pong True)" by (simp add: serving_def)
  from server_end_to_end [OF serving_reach this, of True "[ping]"] show ?thesis
    using valid_ping
    by (simp add: after_pong_def start_session_def doReadHeader_def Session_init_def HEADER_SIZE_def
        ping_def respond_def response_def message_types)
qed

text \<open>C26. While the server runs, an accept is outstanding; before its first \<open>stop\<close>
  the acceptor is open and all the workers it was asked for are there, in the event loop or about to enter it. A server with no worker runs
  too, but has no connection ever.\<close>

theorem server_keeps_accepting:
  assumes "server_reach le port threads s"
  shows "(isRunning s \<longrightarrow> accept_pending s) \<and>
    (isRunning s \<and> \<not> io_stopped s \<longrightarrow> acceptor_open s \<and> length (workerThreads s) = threads \<and> list_all alive (workerThreads s)) \<and>
    (threads = 0 \<longrightarrow> conns s = Map.empty \<and> getActiveConnectionsCount (sessionManager s) = 0)"
proof -
  have no_worker: "workerThreads s = [] \<and> threadPoolSize s = 0 \<and> conns s = Map.empty" if "threads = 0"
    using assms that by (induction rule: server_reach.induct) (simp add: Server_init_def, rule no_worker_step)
  then have "sessions (sessionManager s) = []" if "threads = 0"
    using that sessions_inv_reach [OF assms] by (cases "sessions (sessionManager s)") (auto simp: sessions_inv_def)
  with no_worker show ?thesis
    using control_inv_reach [OF assms] by (simp add: control_inv_def getActiveConnectionsCount_def)
qed

theorem server_keeps_accepting_witness: "accept_pending (serving True 8080)"
  using server_keeps_accepting [OF serving_reach [of True 8080]]
  by (simp add: serving_def accept_handler_def start_server_def doAccept_def Server_init_def)



text \<open>C28. A \<open>stop\<close> by the signal handler, on a worker of the server, does not end well: the worker joins
  itself, so the call throws; \<open>workerThreads_\<close> is not cleared and that worker is still
  joinable. The error is logged. A later \<open>stop\<close> does nothing, and destroying the server terminates the process.\<close>

theorem signal_stop_leaves_workers:
  fixes sig :: int
  assumes "isRunning s" and "free_worker i s"
  defines "s' \<equiv> signal_handler i Success sig s"
  shows "snd (stop_server (Some i) s) = Some Resource_deadlock \<and>
    workerThreads s' = replicate i Joined @ Returned # drop (Suc i) (workerThreads s) \<and>
    (ERROR, ''Exception in worker thread: Resource deadlock avoided'') \<in> set (srv_logged s') \<and>
    \<not> isRunning s' \<and> stop_server None s' = (s', None) \<and> destroy_server s' = Terminated"
proof -
  have i: "i < length (workerThreads s)" "workerThreads s ! i = Running" using assms(2) by (simp_all add: free_worker_def)
  have join: "join_workers (Some i) 0 (workerThreads s) =
      (replicate i Joined @ Running # drop (Suc i) (workerThreads s), Some Resource_deadlock)"
    using join_workers_at [OF i, of 0] i by (simp add: Cons_nth_drop_Suc [symmetric])
  have "workerThreads s' = replicate i Joined @ Returned # drop (Suc i) (workerThreads s)" "\<not> isRunning s'"
    using assms(1) join
    by (simp_all add: s'_def signal_handler_def stop_server_def stop_loop_def close_acceptor_def stopAll_def join_all_def
        worker_catch_def Let_def list_update_append)
  moreover have "(ERROR, ''Exception in worker thread: Resource deadlock avoided'') \<in> set (srv_logged s')"
    using assms(1) join
    by (simp add: s'_def signal_handler_def stop_server_def stop_loop_def close_acceptor_def stopAll_def join_all_def
        worker_catch_def worker_returns_def log_server_def Let_def)
  moreover have "snd (stop_server (Some i) s) = Some Resource_deadlock"
    using assms(1) join
    by (simp add: stop_server_def stop_loop_def close_acceptor_def stopAll_def join_all_def Let_def)
  ultimately show ?thesis by (simp add: stop_server_def destroy_server_def joinable_def)
qed

theorem signal_stop_leaves_workers_witness: "destroy_server (signal_handler 0 Success 15 (serving True 8080)) = Terminated"
proof -
  have "isRunning (serving True 8080)" "free_worker 0 (serving True 8080)"
    by (simp_all add: serving_def accept_handler_def start_server_def doAccept_def Server_init_def free_worker_def Let_def)
  from signal_stop_leaves_workers [OF this] show ?thesis by simp
qed

text \<open>C29. A connection accepted while \<open>stop\<close> is between \<open>stopAll\<close> and stopping the loop
  is registered after the registry was cleared: when \<open>stop\<close> has returned, the session is still
  registered and open, and was never told to stop.\<close>

theorem late_session_survives_stop:
  "\<exists>s c. server_reach le port 1 s \<and> \<not> isRunning s \<and> io_stopped s \<and> stop_calls s = Map.empty \<and> workerThreads s = [] \<and>
    getActiveConnectionsCount (sessionManager s) = 1 \<and> conns s 0 = Some c \<and> \<not> isStopped c \<and> socket_open c \<and>
    strand c = []"
proof -
  let ?begun = "(INFO, ''Starting AsyncNet-Server on port '' @ show_word port @ '' with '' @ decimal 1 @ '' worker threads.'')"
    and ?down = "(INFO, ''Shutting down AsyncNet-Server...'')" and ?entered = "(DEBUG, ''Worker thread '' @ decimal 1 @ '' started.'')" and ?told = "(INFO, ''Stopping all active sessions ('' @ decimal 0 @ '')'')"
    and ?left = "(DEBUG, ''Worker thread '' @ decimal 1 @ '' stopped.'')"
    and ?over = "(INFO, ''AsyncNet-Server successfully stopped.'')"
  let ?s = "\<lambda>run pending rg cs n io open pc ws lg. \<lparr>srv_port = port, threadPoolSize = 1, isRunning = run, acceptor_open = open,
     accept_pending = pending, signal_pending = True, io_stopped = io,
     sessionManager = rg, conns = cs, next_session = n,
     workerThreads = ws, stop_calls = pc, srv_logged = lg\<rparr>"
  let ?cs = "[0 \<mapsto> start_session (Session_init None)] :: session_id \<Rightarrow> conn option" and ?fresh = "Server_init port 1"
  have "server_steps le ?fresh (start_server ?fresh)"
    by (rule server_move [OF _ start]) (simp_all add: Server_init_def)
  then have "server_steps le ?fresh (worker_starts 0 (start_server ?fresh))"
    by (rule server_move [OF _ enter]) (simp_all add: start_server_def doAccept_def Server_init_def)
  then have "server_steps le ?fresh (?s True True SessionManager_init Map.empty 0 False True [None \<mapsto> Marking] [Running] [?begun, ?entered])"
    by (rule server_move [OF _ owner_stop])
      (simp_all add: start_server_def doAccept_def Server_init_def stop_goes_on_def worker_starts_def log_server_def)
  then have "server_steps le ?fresh (?s False True SessionManager_init Map.empty 0 False True [None \<mapsto> Telling] [Running] [?begun, ?entered, ?down])"
    by (rule server_move [OF _ mark [where self = None]]) (simp_all add: stop_goes_on_def mark_stopped_def log_server_def)
  then have "server_steps le ?fresh (?s False True SessionManager_init Map.empty 0 False True [None \<mapsto> Closing] [Running] [?begun, ?entered, ?down, ?told])"
    by (rule server_move [OF _ tell [where self = None]]) (simp_all add: stopAll_def stop_goes_on_def log_server_def, simp_all add: SessionManager_init_def)
  then have "server_steps le ?fresh (?s False False (addSession 0 SessionManager_init) ?cs 1 False True [None \<mapsto> Closing] [Running] [?begun, ?entered, ?down, ?told])"
    by (rule server_move [OF _ accept [where i = 0 and ec = Success and ep = None]])
      (simp_all add: free_worker_def accept_handler_def Let_def)
  then have "server_steps le ?fresh (?s False False (addSession 0 SessionManager_init) ?cs 1 False False [None \<mapsto> Stopping_loop] [Running] [?begun, ?entered, ?down, ?told])"
    by (rule server_move [OF _ close [where self = None]]) (simp_all add: close_acceptor_def stop_goes_on_def)
  then have "server_steps le ?fresh (?s False False (addSession 0 SessionManager_init) ?cs 1 True False [None \<mapsto> Joining] [Running] [?begun, ?entered, ?down, ?told])"
    by (rule server_move [OF _ loop [where self = None]]) (simp_all add: stop_loop_def stop_goes_on_def)
  then have "server_steps le ?fresh (?s False False (addSession 0 SessionManager_init) ?cs 1 True False [None \<mapsto> Joining] [Returned] [?begun, ?entered, ?down, ?told, ?left])"
    by (rule server_move [OF _ leave [where i = 0]]) (simp_all add: free_worker_def worker_returns_def log_server_def)
  then have "server_steps le ?fresh (?s False False (addSession 0 SessionManager_init) ?cs 1 True False Map.empty [] [?begun, ?entered, ?down, ?told, ?left, ?over])"
    by (rule server_move [OF _ join [where self = None]])
      (simp_all add: joinees_returned_def alive_def finish_stop_def join_all_owner log_server_def)
  then have "server_reach le port 1 (?s False False (addSession 0 SessionManager_init) ?cs 1 True False Map.empty [] [?begun, ?entered, ?down, ?told, ?left, ?over])"
    using steps_reach server_reach.create by blast
  then show ?thesis
    by (intro exI [of _ "?s False False (addSession 0 SessionManager_init) ?cs 1 True False Map.empty [] [?begun, ?entered, ?down, ?told, ?left, ?over]"] exI [of _ "start_session (Session_init None)"])
      (simp add: getActiveConnectionsCount_def addSession_def SessionManager_init_def start_session_def doReadHeader_def Session_init_def)
qed

end
