(* ===== verification/Net_Main.thy ===== *)
theory Net_Main
  imports Net_Server_Props Net_Logger Net_Atoi
begin

text \<open>The server's program (\<open>src/main.cpp\<close>): its options and the server it starts.\<close>

section \<open>Options\<close>

datatype main_config = Usage | Serve u16 u64

fun main_args :: "string list \<Rightarrow> u16 \<Rightarrow> u64 \<Rightarrow> main_config option" where
  "main_args [] port threads = Some (Serve port threads)"
| "main_args (arg # args) port threads =
     (if arg = ''-p'' \<or> arg = ''--port'' then
        (case args of
           [] \<Rightarrow> main_args args port threads
         | v # rest \<Rightarrow> (case atoi v of None \<Rightarrow> None | Some n \<Rightarrow> main_args rest (of_int n) threads))
      else if arg = ''-t'' \<or> arg = ''--threads'' then
        (case args of
           [] \<Rightarrow> main_args args port threads
         | v # rest \<Rightarrow> (case atoi v of None \<Rightarrow> None | Some n \<Rightarrow> main_args rest port (of_int n)))
      else if arg = ''-h'' \<or> arg = ''--help'' then Some Usage
      else main_args args port threads)"

definition main_config_of :: "u64 \<Rightarrow> string list \<Rightarrow> main_config option" where
  "main_config_of hardware_concurrency args =
     (let threads = (if hardware_concurrency = 0 then 4 else hardware_concurrency)
      in main_args args 8080 threads)"

definition printUsage :: "string \<Rightarrow> string list" where
  "printUsage progName =
    [''Usage: '' @ progName @ '' [options]'',
     ''Options:'',
     ''  -p, --port <port>       Port number to listen on (default: 8080)'',
     ''  -t, --threads <count>   Number of worker threads (default: hardware concurrency)'',
     ''  -h, --help              Show this help message'']"

text \<open>
  How \<open>main\<close> ends, if it does: with the usage; with an error when the constructor of the
  server throws because the port cannot be bound, or \<open>start\<close> throws because that many threads
  cannot be reserved and created (\<open>bind_error\<close> and \<open>run_error\<close> are the answers of the
  system, the text of the exception if there is one, and how many threads it did create); or not at all, since the
  main thread sleeps for ever once the server is started. An exception of \<open>start\<close> first destroys the
  server, which stops it. With it comes what \<open>main\<close> writes, and what it and the server log on the main thread.
\<close>

datatype main_result =
    Exit nat "string list" "(LogLevel \<times> string) list"
  | Serving Server "string list"
  | Undefined

definition running_banner :: "u16 \<Rightarrow> string list" where
  "running_banner port =
    ['''',
     ''======================================================'',
     ''  AsyncNet-Server is running on port '' @ show_word port,
     ''  Press Ctrl+C to terminate cleanly.'',
     ''======================================================'',
     '''']"

definition main_program ::
  "(u16 \<Rightarrow> string option) \<Rightarrow> (u64 \<Rightarrow> (nat \<times> string) option) \<Rightarrow> u64 \<Rightarrow> string \<Rightarrow> string list \<Rightarrow> main_result" where
  "main_program bind_error run_error hardware_concurrency progName args =
     (case main_config_of hardware_concurrency args of
        None \<Rightarrow> Undefined
      | Some Usage \<Rightarrow> Exit 0 (printUsage progName) []
      | Some (Serve port threads) \<Rightarrow>
          let fatal = (\<lambda>calls what. Exit 1 [] (calls @ [(ERROR, ''Fatal error starting server: '' @ what)])) in
          (case bind_error port of
             Some what \<Rightarrow> fatal [] what
           | None \<Rightarrow>
               let server = start_server (Server_init port (unat threads)) in
               (case run_error threads of
                  Some (created, what) \<Rightarrow>
                    let stopped = fst (stop_server None (server\<lparr>workerThreads := replicate created Created\<rparr>))
                    in fatal (srv_logged stopped) what
                | None \<Rightarrow> Serving server (running_banner port))))"

text \<open>A server whose threads cannot be created is announced, and reported as stopped, before the error.\<close>

lemma main_thread_failure:
  assumes "main_config_of hw args = Some (Serve port threads)" and "bind_error port = None"
    and "run_error threads = Some (created, what)"
  shows "main_program bind_error run_error hw prog args = Exit 1 []
    [(INFO, ''Starting AsyncNet-Server on port '' @ show_word port @ '' with '' @ decimal (unat threads) @ '' worker threads.''),
     (INFO, ''Shutting down AsyncNet-Server...''), (INFO, ''Stopping all active sessions (0)''),
     (INFO, ''AsyncNet-Server successfully stopped.''),
     (ERROR, ''Fatal error starting server: '' @ what)]"
proof -
  let ?s = "(start_server (Server_init port (unat threads)))\<lparr>workerThreads := replicate created Created\<rparr>"
  have "isRunning ?s" by (simp add: start_server_def doAccept_def Server_init_def Let_def)
  from stop_owner [OF this] have "srv_logged (fst (stop_server None ?s)) =
    [(INFO, ''Starting AsyncNet-Server on port '' @ show_word port @ '' with '' @ decimal (unat threads) @ '' worker threads.''),
     (INFO, ''Shutting down AsyncNet-Server...''), (INFO, ''Stopping all active sessions (0)''),
     (INFO, ''AsyncNet-Server successfully stopped.'')]"
    by simp (simp add: log_server_def stop_loop_def close_acceptor_def stopAll_def mark_stopped_def start_server_def
        doAccept_def Server_init_def SessionManager_init_def decimal_0 Let_def)
  then show ?thesis using assms by (simp add: main_program_def Let_def)
qed

text \<open>C36. The options: a decimal number given for the port or for the number of threads, in either spelling and order,
  is read as written, and the server that is started, and announced on the screen and in the log, has that number of workers and that port
  modulo \<open>2 ^ 16\<close>, so exactly that port when it is one.\<close>

theorem main_starts_server:
  assumes "int p \<le> INT_MAX" and "int t \<le> INT_MAX"
    and "pf \<in> {''-p'', ''--port''}" and "tf \<in> {''-t'', ''--threads''}"
    and "args = [pf, decimal p, tf, decimal t] \<or> args = [tf, decimal t, pf, decimal p]"
    and "bind_error (of_nat p) = None" and "run_error (of_nat t) = None"
  shows "\<exists>s banner. main_program bind_error run_error hw prog args = Serving s banner \<and>
    server_reach le (of_nat p) t s \<and> isRunning s \<and>
    unat (srv_port s) = p mod 2 ^ 16 \<and> workerThreads s = replicate t Created \<and>
    srv_logged s = [(INFO, ''Starting AsyncNet-Server on port '' @ decimal (p mod 2 ^ 16) @ '' with '' @ decimal t @
      '' worker threads.'')] \<and>
    banner ! 2 = ''  AsyncNet-Server is running on port '' @ decimal (p mod 2 ^ 16)"
proof -
  let ?s = "start_server (Server_init (of_nat p) t)"
  have args: "main_args args 8080 threads = Some (Serve (of_nat p) (of_nat t))" for threads
    using assms(3-5) atoi_decimal [OF assms(1)] atoi_decimal [OF assms(2)] by auto
  have "unat (of_nat t :: u64) = t" using assms(2) by (simp add: INT_MAX_def unat_of_nat)
  then have "main_program bind_error run_error hw prog args = Serving ?s (running_banner (of_nat p))"
    using assms(6,7) unfolding main_program_def main_config_of_def Let_def args by simp
  moreover have "server_reach le (of_nat p) t ?s"
    using server_reach.proceed [OF server_reach.create server_step.start] by (simp add: Server_init_def)
  moreover have "running_banner (of_nat p) ! 2 = ''  AsyncNet-Server is running on port '' @ decimal (p mod 2 ^ 16)"
    by (simp add: running_banner_def show_word_def unat_of_nat)
  ultimately show ?thesis
    by (intro exI [of _ ?s] exI [of _ "running_banner (of_nat p)"])
      (simp add: start_server_def doAccept_def Server_init_def log_server_def show_word_def unat_of_nat)
qed

theorem main_starts_server_witness:
  "\<exists>s banner. main_program (\<lambda>p. if 1024 \<le> p then None else Some ''Permission denied'')
       (\<lambda>t. if t \<le> 64 then None else Some (64, ''Resource temporarily unavailable'')) 0 ''server''
       [''--port'', decimal 9000, ''-t'', decimal 2] = Serving s banner \<and>
     unat (srv_port s) = 9000 \<and> banner ! 2 = ''  AsyncNet-Server is running on port '' @ decimal 9000"
proof -
  have "int 9000 \<le> INT_MAX" "int 2 \<le> INT_MAX" by (simp_all add: INT_MAX_def)
  from main_starts_server [OF this, of "''--port''" "''-t''" "[''--port'', decimal 9000, ''-t'', decimal 2]"
      "\<lambda>p. if 1024 \<le> p then None else Some ''Permission denied''"
      "\<lambda>t. if t \<le> 64 then None else Some (64, ''Resource temporarily unavailable'')" 0 "''server''" True]
  show ?thesis by (auto simp: word_le_nat_alt)
qed

text \<open>What the casts do to other numbers: a port beyond 65535 is reduced silently; a thread count that is no number is 0.\<close>

lemma main_port_truncated: "main_config_of 8 [''-p'', ''70000''] = Some (Serve 4464 8)"
  by (simp add: main_config_of_def atoi_def isspace_def isdigit_def INT_MAX_def)

lemma main_threads_not_a_number: "main_config_of 8 [''-t'', ''all''] = Some (Serve 8080 0)"
  by (simp add: main_config_of_def atoi_def isspace_def isdigit_def INT_MAX_def)

end
