(* ===== verification/Net_Stop.thy ===== *)
theory Net_Stop
  imports Net_Server_Props
begin

text \<open>
  Calls of \<open>stop\<close> while the server runs on. That they return: a call is never blocked before it
  joins, and once the loop is stopped every step of anyone brings the calls closer to their end, and
  some step is possible until they have returned, so no schedule can keep \<open>stop\<close> from returning. That two
  of them collide: the owner and the signal handler can both get past the test of \<open>isRunning_\<close>.
\<close>

section \<open>Who is inside a call\<close>

text \<open>The signal is awaited once, so at most one worker is ever inside \<open>stop\<close>, and it is running.\<close>

definition calls_inv :: "Server \<Rightarrow> bool" where
  "calls_inv s \<longleftrightarrow>
     (\<forall>i. stop_calls s (Some i) \<noteq> None \<longrightarrow> \<not> signal_pending s \<and> i < length (workerThreads s) \<and> workerThreads s ! i = Running) \<and>
     (\<forall>i j. stop_calls s (Some i) \<noteq> None \<longrightarrow> stop_calls s (Some j) \<noteq> None \<longrightarrow> i = j)"

lemma finish_owner: "workerThreads (finish_stop None s) = []"
  by (simp add: finish_stop_def join_all_owner)

lemma finish_worker:
  assumes "i < length (workerThreads s)" and "workerThreads s ! i = Running"
  shows "workerThreads (finish_stop (Some i) s) = replicate i Joined @ Returned # drop (Suc i) (workerThreads s)"
  using assms join_workers_at [OF assms, of 0]
  by (simp add: finish_stop_def worker_catch_def join_all_def list_update_append Cons_nth_drop_Suc [symmetric])

lemma calls_inv_cong:
  "calls_inv s \<Longrightarrow> stop_calls s' = stop_calls s \<Longrightarrow> signal_pending s' \<longrightarrow> signal_pending s \<Longrightarrow>
    workerThreads s' = workerThreads s \<Longrightarrow> calls_inv s'"
  unfolding calls_inv_def by metis

lemma calls_inv_goes_on:
  "calls_inv s \<Longrightarrow> stop_calls s self \<noteq> None \<Longrightarrow> calls_inv (stop_goes_on self ph s)"
  unfolding calls_inv_def by (auto split: if_splits)

lemma calls_inv_join:
  assumes inv: "calls_inv s" and call: "stop_calls s self = Some Joining" and ret: "joinees_returned self s"
  shows "calls_inv (finish_stop self (s\<lparr>stop_calls := (stop_calls s)(self := None)\<rparr>))"
proof (cases self)
  case None
  have "stop_calls s (Some i) = None" for i
    using inv ret None by (cases "stop_calls s (Some i)") (auto simp: calls_inv_def joinees_returned_def alive_def)
  then show ?thesis using None by (simp add: calls_inv_def finish_owner)
next
  case (Some i)
  then have "stop_calls s (Some j) = None" if "j \<noteq> i" for j
    using inv call that unfolding calls_inv_def by blast
  then show ?thesis using Some by (simp add: calls_inv_def)
qed

lemma calls_inv_step:
  assumes inv: "calls_inv s" and step: "server_step le s s'"
  shows "calls_inv s'"
  using step
proof (cases rule: server_step.cases)
  case start
  then show ?thesis by (cases "isRunning s") (auto simp: calls_inv_def start_fields)
next
  case (owner_stop)
  then show ?thesis using inv by (auto simp: calls_inv_def)
next
  case (signal_stop i)
  then show ?thesis using inv by (auto simp: calls_inv_def free_worker_def)
next
  case (enter i)
  then show ?thesis using inv by (auto simp: calls_inv_def nth_list_update)
next
  case (leave i)
  then show ?thesis using inv by (auto simp: calls_inv_def free_worker_def nth_list_update)
next
  case (join self)
  then show ?thesis using calls_inv_join [OF inv] by simp
next
  case (mark self)
  then show ?thesis using calls_inv_goes_on [of "mark_stopped s" self] calls_inv_cong [OF inv, of "mark_stopped s"] by simp
next
  case (tell self)
  then show ?thesis using calls_inv_goes_on [of "stopAll s" self] calls_inv_cong [OF inv, of "stopAll s"]
    by (simp add: stopAll_def)
next
  case (close self)
  then show ?thesis using calls_inv_goes_on [of "close_acceptor s" self] calls_inv_cong [OF inv, of "close_acceptor s"]
    by (simp add: close_acceptor_def)
next
  case (loop self)
  then show ?thesis using calls_inv_goes_on [of "stop_loop s" self] calls_inv_cong [OF inv, of "stop_loop s"]
    by (simp add: stop_loop_def)
qed (use calls_inv_cong [OF inv, of s'] in
  \<open>simp_all add: accept_fields accept_handler_def doAccept_def Let_def ignored_signal\<close>)

lemma calls_inv_reach: "server_reach le port threads s \<Longrightarrow> calls_inv s"
proof (induction rule: server_reach.induct)
  case create
  then show ?case by (simp add: calls_inv_def Server_init_def)
next
  case (proceed s s')
  then show ?case using calls_inv_step [of s le s'] by blast
qed

section \<open>How much is left to do\<close>

text \<open>The statements a call has still to run, the call that the owner may still make, and the workers that have not returned.\<close>

fun phase_work :: "stop_phase option \<Rightarrow> nat" where
  "phase_work None = 0"
| "phase_work (Some Joining) = 1"
| "phase_work (Some Stopping_loop) = 2"
| "phase_work (Some Closing) = 3"
| "phase_work (Some Telling) = 4"
| "phase_work (Some Marking) = 5"

definition owner_work :: "Server \<Rightarrow> nat" where
  "owner_work s = (if stop_calls s None = None \<and> isRunning s then 6 else phase_work (stop_calls s None))"

definition workers_work :: "Server \<Rightarrow> nat" where
  "workers_work s = (\<Sum>i < length (workerThreads s). phase_work (stop_calls s (Some i)))"

fun worker_work :: "worker \<Rightarrow> nat" where
  "worker_work Created = 2"
| "worker_work Running = 1"
| "worker_work Returned = 0"
| "worker_work Joined = 0"

definition running_workers :: "Server \<Rightarrow> nat" where
  "running_workers s = sum_list (map worker_work (workerThreads s))"

definition stop_work :: "Server \<Rightarrow> nat" where
  "stop_work s = owner_work s + workers_work s + running_workers s"

lemma phase_work_le: "phase_work ph \<le> 5"
  by (cases ph rule: phase_work.cases) simp_all

lemma workers_work_cong:
  "length (workerThreads t) = length (workerThreads s) \<Longrightarrow> stop_calls t = stop_calls s \<Longrightarrow> workers_work t = workers_work s"
  by (simp only: workers_work_def)

lemma workers_work_upd:
  assumes "i < length (workerThreads s)"
  shows "workers_work (s\<lparr>stop_calls := (stop_calls s)(Some i := ph)\<rparr>) + phase_work (stop_calls s (Some i)) =
    workers_work s + phase_work ph"
  using assms by (simp add: workers_work_def sum.remove [of _ i])

lemma workers_work_le:
  assumes "calls_inv s"
  shows "workers_work s \<le> 5"
proof (cases "\<exists>i < length (workerThreads s). stop_calls s (Some i) \<noteq> None")
  case True
  then obtain i where i: "i < length (workerThreads s)" "stop_calls s (Some i) \<noteq> None" by blast
  then have "stop_calls s (Some j) = None" if "j \<noteq> i" for j using assms that unfolding calls_inv_def by blast
  then have "workers_work s = phase_work (stop_calls s (Some i))"
    using i(1) by (simp add: workers_work_def sum.remove [of _ i])
  then show ?thesis using phase_work_le by simp
qed (simp add: workers_work_def)

lemma stop_work_le:
  assumes "calls_inv s"
  shows "stop_work s \<le> 11 + 2 * length (workerThreads s)"
proof -
  have "owner_work s \<le> 6" using phase_work_le [of "stop_calls s None"] by (simp add: owner_work_def)
  moreover have "worker_work w \<le> 2" for w by (cases w) simp_all
  then have "sum_list (map worker_work ws) \<le> 2 * length ws" for ws
    using sum_list_mono [of ws worker_work "\<lambda>_. 2"] by (simp add: sum_list_triv mult.commute)
  then have "running_workers s \<le> 2 * length (workerThreads s)" by (simp add: running_workers_def)
  ultimately show ?thesis using workers_work_le [OF assms] by (simp add: stop_work_def)
qed

text \<open>A call that goes on has less left, provided that the step leaves the workers and turns no other server on.\<close>

lemma goes_on_work:
  assumes inv: "calls_inv s" and call: "stop_calls s self = Some ph" and less: "phase_work (Some ph') < phase_work (Some ph)"
    and same: "stop_calls t = stop_calls s" "workerThreads t = workerThreads s" "isRunning t \<longrightarrow> isRunning s"
  shows "stop_work (stop_goes_on self ph' t) < stop_work s"
proof (cases self)
  case None
  then show ?thesis using call less same
    by (simp add: stop_work_def owner_work_def workers_work_def running_workers_def)
next
  case (Some i)
  then have "i < length (workerThreads s)" using inv call by (auto simp: calls_inv_def)
  from workers_work_upd [OF this, of "Some ph'"] have "workers_work (stop_goes_on self ph' t) < workers_work s"
    using call less same Some by (simp add: workers_work_def)
  moreover have "owner_work (stop_goes_on self ph' t) \<le> owner_work s" using same Some by (simp add: owner_work_def)
  ultimately show ?thesis using same(2) by (simp add: stop_work_def running_workers_def)
qed

lemma worker_work_upd:
  "i < length ws \<Longrightarrow> sum_list (map worker_work (ws[i := w])) + worker_work (ws ! i) = sum_list (map worker_work ws) + worker_work w"
  by (induction ws arbitrary: i) (auto split: nat.splits)

lemma worker_moves:
  assumes "i < length (workerThreads s)" and "worker_work w < worker_work (workerThreads s ! i)"
    and "workerThreads t = (workerThreads s)[i := w]" "stop_calls t = stop_calls s" "isRunning t = isRunning s"
  shows "stop_work t < stop_work s"
  using worker_work_upd [OF assms(1), of w] assms
  by (simp add: stop_work_def owner_work_def workers_work_def running_workers_def)

lemma join_work:
  assumes inv: "calls_inv s" and stopped: "\<not> isRunning s" and call: "stop_calls s self = Some Joining"
    and ret: "joinees_returned self s"
  shows "stop_work (finish_stop self (s\<lparr>stop_calls := (stop_calls s)(self := None)\<rparr>)) < stop_work s"
proof (cases self)
  case None
  then show ?thesis using call stopped
    by (simp add: finish_owner stop_work_def owner_work_def workers_work_def running_workers_def)
next
  case (Some i)
  then have i: "i < length (workerThreads s)" "workerThreads s ! i = Running" using inv call by (auto simp: calls_inv_def)
  let ?ws = "replicate i Joined @ Returned # drop (Suc i) (workerThreads s)"
  have "sum_list (map worker_work (drop (Suc i) (workerThreads s))) \<le> sum_list (map worker_work (workerThreads s))"
    by (metis append_take_drop_id map_append sum_list_append le_add2)
  then have "sum_list (map worker_work ?ws) \<le> sum_list (map worker_work (workerThreads s))"
    by (simp add: sum_list_replicate)
  moreover have "workers_work (finish_stop (Some i) (s\<lparr>stop_calls := (stop_calls s)(Some i := None)\<rparr>)) < workers_work s"
  proof -
    have "workers_work (finish_stop (Some i) (s\<lparr>stop_calls := (stop_calls s)(Some i := None)\<rparr>)) =
        workers_work (s\<lparr>stop_calls := (stop_calls s)(Some i := None)\<rparr>)"
      using i by (intro workers_work_cong) (simp_all add: finish_worker)
    then show ?thesis using workers_work_upd [OF i(1), of None] call Some by simp
  qed
  ultimately show ?thesis using Some i stopped
    by (simp add: finish_worker stop_work_def owner_work_def running_workers_def)
qed

text \<open>With the loop stopped, every step leaves less to do.\<close>

lemma stop_work_decreases:
  assumes inv: "calls_inv s" "control_inv threads s" and io: "io_stopped s" and busy: "stop_calls s \<noteq> Map.empty"
    and step: "server_step le s s'"
  shows "stop_work s' < stop_work s"
  using step
proof (cases rule: server_step.cases)
  case owner_stop
  then show ?thesis by (simp add: stop_work_def owner_work_def workers_work_def running_workers_def)
next
  case (mark self)
  then show ?thesis using goes_on_work [OF inv(1) mark(2), of Telling "mark_stopped s"] by simp
next
  case (tell self)
  then show ?thesis using goes_on_work [OF inv(1) tell(2), of Closing "stopAll s"] by (simp add: stopAll_def)
next
  case (close self)
  then show ?thesis using goes_on_work [OF inv(1) close(2), of Stopping_loop "close_acceptor s"] by (simp add: close_acceptor_def)
next
  case (loop self)
  then show ?thesis using goes_on_work [OF inv(1) loop(2), of Joining "stop_loop s"] by (simp add: stop_loop_def)
next
  case (enter i)
  then show ?thesis using worker_moves [of i s Running s'] by simp
next
  case (leave i)
  then show ?thesis using worker_moves [of i s Returned s'] by (simp add: free_worker_def)
next
  case (join self)
  have "\<not> isRunning s" using inv(2) join(2) by (auto simp: control_inv_def)
  then show ?thesis using join_work [OF inv(1) _ join(2,3)] join(1) by simp
qed (use io busy in simp_all)

lemma io_stays_stopped: "server_step le s s' \<Longrightarrow> io_stopped s \<Longrightarrow> io_stopped s'"
proof (induction rule: server_step.induct)
  case (start s)
  then show ?case by (cases "isRunning s") (simp_all add: start_fields)
qed (simp_all add: stopAll_def close_acceptor_def stop_loop_def)

section \<open>Some step is always possible\<close>

lemma early_phase_step:
  assumes "stop_calls s self = Some ph" and "ph \<noteq> Joining"
  shows "\<exists>s' ph'. server_step le s s' \<and> stop_calls s' = (stop_calls s)(self \<mapsto> ph') \<and>
    phase_work (Some ph') < phase_work (Some ph)"
proof (cases ph)
  case Marking
  then show ?thesis using mark [of s self le] assms by (intro exI [of _ "stop_goes_on self Telling (mark_stopped s)"]) auto
next
  case Telling
  then show ?thesis using tell [of s self le] assms
    by (intro exI [of _ "stop_goes_on self Closing (stopAll s)"]) (auto simp: stopAll_def)
next
  case Closing
  then show ?thesis using close [of s self le] assms
    by (intro exI [of _ "stop_goes_on self Stopping_loop (close_acceptor s)"]) (auto simp: close_acceptor_def)
next
  case Stopping_loop
  then show ?thesis using loop [of s self le] assms
    by (intro exI [of _ "stop_goes_on self Joining (stop_loop s)"]) (auto simp: stop_loop_def)
qed (use assms in simp)

text \<open>A call that cannot join yet waits for a worker that can leave, or that is inside \<open>stop\<close> itself.\<close>

lemma waits_for_worker:
  assumes "calls_inv s" and "stop_calls s self = Some Joining" and "\<not> joinees_returned self s"
  obtains j where "j < length (workerThreads s)" "alive (workerThreads s ! j)" "self \<noteq> Some j"
proof -
  from assms(3) obtain j where j: "j < (case self of None \<Rightarrow> length (workerThreads s) | Some i \<Rightarrow> i)" "alive (workerThreads s ! j)"
    by (auto simp: joinees_returned_def)
  show thesis
  proof (cases self)
    case None
    then show thesis using that [of j] j by simp
  next
    case (Some i)
    then have "i < length (workerThreads s)" using assms(1,2) by (auto simp: calls_inv_def)
    then show thesis using that [of j] j Some by simp
  qed
qed

lemma stop_not_stuck:
  assumes inv: "calls_inv s" and io: "io_stopped s" and busy: "stop_calls s \<noteq> Map.empty"
  shows "\<exists>s'. server_step le s s'"
proof -
  obtain self ph where call: "stop_calls s self = Some ph" using busy by (auto simp: fun_eq_iff)
  consider (early) self ph where "stop_calls s self = Some ph" "ph \<noteq> Joining"
    | (joining) "\<forall>self ph. stop_calls s self = Some ph \<longrightarrow> ph = Joining" by blast
  then show ?thesis
  proof cases
    case early
    then show ?thesis using early_phase_step by blast
  next
    case joining
    have one: "\<exists>s'. server_step le s s'" if self: "stop_calls s self = Some Joining" and
      free: "\<And>j. self \<noteq> Some j \<Longrightarrow> stop_calls s (Some j) = None" for self
    proof (cases "joinees_returned self s")
      case False
      then obtain j where j: "j < length (workerThreads s)" "alive (workerThreads s ! j)" "self \<noteq> Some j"
        using waits_for_worker [OF inv self] by blast
      show ?thesis
      proof (cases "workerThreads s ! j = Created")
        case False
        then have "free_worker j s" using free j by (simp add: free_worker_def alive_def)
        with io show ?thesis using leave by blast
      qed (use j enter in blast)
    qed (use self join in blast)
    show ?thesis
    proof (cases "\<exists>i. stop_calls s (Some i) \<noteq> None")
      case True
      then obtain i where i: "stop_calls s (Some i) \<noteq> None" by blast
      then have "stop_calls s (Some i) = Some Joining" using joining by fastforce
      moreover have "stop_calls s (Some j) = None" if "Some i \<noteq> Some j" for j using inv i that unfolding calls_inv_def by blast
      ultimately show ?thesis by (rule one)
    next
      case False
      then have "self = None" using call by (cases self) auto
      then show ?thesis using one [of None] call joining False by blast
    qed
  qed
qed

text \<open>So no run with a call of \<open>stop\<close> under way is longer than the work that is left.\<close>

lemma stop_run_bound:
  assumes "\<forall>k < n. server_step le (r k) (r (Suc k)) \<and> stop_calls (r k) \<noteq> Map.empty"
    and "server_reach le port threads (r 0)" and "io_stopped (r 0)"
  shows "n \<le> stop_work (r 0)"
  using assms
proof (induction n arbitrary: r)
  case (Suc n)
  have step: "server_step le (r 0) (r 1)" "stop_calls (r 0) \<noteq> Map.empty" using Suc.prems(1) by auto
  have "n \<le> stop_work (r 1)"
    using Suc.IH [of "\<lambda>k. r (Suc k)"] Suc.prems server_reach.proceed [OF Suc.prems(2) step(1)] io_stays_stopped [OF step(1)]
    by auto
  moreover have "stop_work (r 1) < stop_work (r 0)"
    using stop_work_decreases [OF calls_inv_reach [OF Suc.prems(2)] control_inv_reach [OF Suc.prems(2)] Suc.prems(3) step(2,1)] .
  ultimately show ?case by simp
qed simp

section \<open>Two calls at once\<close>

text \<open>The index of the thread that a call is about to join: the first joinable one.\<close>

definition joins_next :: "nat option \<Rightarrow> Server \<Rightarrow> nat option" where
  "joins_next self s = (if stop_calls s self = Some Joining
     then List.find (\<lambda>i. joinable (workerThreads s ! i)) [0..<length (workerThreads s)] else None)"

section \<open>Properties\<close>

text \<open>C13. \<open>stop\<close> returns, whatever the schedule. A call that does not yet join is never blocked. Once the loop is
  stopped, as long as a call is under way some step of the server is possible, and no run has more
  than eleven steps and two per worker thread before all calls have returned (or thrown).\<close>

theorem stop_returns:
  assumes "server_reach le port threads s"
  shows "(\<forall>self ph. stop_calls s self = Some ph \<and> ph \<noteq> Joining \<longrightarrow>
      (\<exists>s' ph'. server_step le s s' \<and> stop_calls s' = (stop_calls s)(self \<mapsto> ph') \<and>
        phase_work (Some ph') < phase_work (Some ph))) \<and>
    (io_stopped s \<and> stop_calls s \<noteq> Map.empty \<longrightarrow> (\<exists>s'. server_step le s s')) \<and>
    (\<forall>n r. io_stopped s \<and> r 0 = s \<and>
       (\<forall>k < n. server_step le (r k) (r (Suc k)) \<and> stop_calls (r k) \<noteq> Map.empty) \<longrightarrow>
       n \<le> 11 + 2 * length (workerThreads s))"
proof (intro conjI allI impI)
  fix n r
  assume "io_stopped s \<and> r 0 = s \<and> (\<forall>k < n. server_step le (r k) (r (Suc k)) \<and> stop_calls (r k) \<noteq> Map.empty)"
  then have "n \<le> stop_work s" using stop_run_bound [of n le r port threads] assms by auto
  then show "n \<le> 11 + 2 * length (workerThreads s)" using stop_work_le [OF calls_inv_reach [OF assms]] by simp
qed (use early_phase_step stop_not_stuck calls_inv_reach [OF assms] in blast)+

text \<open>A server with two workers, one of which has not begun yet and one runs the handler of a signal while the owner calls \<open>stop\<close>.\<close>

definition both_stopping :: "u16 \<Rightarrow> stop_phase \<Rightarrow> stop_phase \<Rightarrow> bool \<Rightarrow> bool \<Rightarrow> bool \<Rightarrow> log_calls \<Rightarrow> Server" where
  "both_stopping port owner worker run opened io lg = \<lparr>srv_port = port, threadPoolSize = 2, isRunning = run, acceptor_open = opened,
     accept_pending = True, signal_pending = False, io_stopped = io, sessionManager = SessionManager_init,
     conns = Map.empty, next_session = 0, workerThreads = [Created, Running],
     stop_calls = [None \<mapsto> owner, Some 1 \<mapsto> worker], srv_logged = lg\<rparr>"

lemma two_swap: "(f :: nat option \<Rightarrow> 'b option)(None := x, Some i := y, None := z) = f(None := z, Some i := y)"
  by auto

definition begun :: "u16 \<Rightarrow> log_calls" where
  "begun port = [(INFO, ''Starting AsyncNet-Server on port '' @ show_word port @ '' with '' @ decimal 2 @ '' worker threads.''),
     (DEBUG, ''Worker thread '' @ decimal 2 @ '' started.''),
     (INFO, ''Signal received ('' @ show_int 15 @ ''). Initiating graceful shutdown...'')]"

definition down :: "LogLevel \<times> string" where
  "down = (INFO, ''Shutting down AsyncNet-Server...'')"

lemma both_get_in: "server_steps le (Server_init port 2) (both_stopping port Marking Marking True True False (begun port))"
proof -
  have "server_steps le (Server_init port 2) (start_server (Server_init port 2))"
    by (rule server_move [OF _ start]) (simp_all add: Server_init_def)
  then have "server_steps le (Server_init port 2) (worker_starts 1 (start_server (Server_init port 2)))"
    by (rule server_move [OF _ enter]) (simp_all add: Server_init_def start_server_def doAccept_def)
  then have "server_steps le (Server_init port 2) (stop_goes_on None Marking (worker_starts 1 (start_server (Server_init port 2))))"
    by (rule server_move [OF _ owner_stop]) (simp_all add: Server_init_def start_server_def doAccept_def)
  then show ?thesis
    by (rule server_move [OF _ signal_stop [where i = 1 and sig = 15]])
      (simp_all add: Server_init_def start_server_def doAccept_def stop_goes_on_def free_worker_def both_stopping_def
        numeral_2_eq_2 signal_received_def worker_starts_def log_server_def begun_def)
qed

definition told :: "LogLevel \<times> string" where
  "told = (INFO, ''Stopping all active sessions (0)'')"

abbreviation both_joining :: "u16 \<Rightarrow> Server" where
  "both_joining port \<equiv> both_stopping port Joining Joining False False True (begun port @ [down, down, told, told])"

lemma both_join: "server_steps le (Server_init port 2) (both_joining port)"
proof -
  note simps = both_stopping_def stop_goes_on_def stopAll_def close_acceptor_def stop_loop_def SessionManager_init_def two_swap
    mark_stopped_def log_server_def down_def told_def decimal_0
  note own = mark [where self = None] tell [where self = None] close [where self = None] loop [where self = None]
  note sig = mark [where self = "Some 1"] tell [where self = "Some 1"] close [where self = "Some 1"] loop [where self = "Some 1"]
  have "server_steps le (Server_init port 2) (both_stopping port Telling Marking False True False (begun port @ [down]))"
    by (rule server_move [OF both_get_in own(1)]) (simp_all add: simps)
  then have "server_steps le (Server_init port 2) (both_stopping port Telling Telling False True False (begun port @ [down, down]))"
    by (rule server_move [OF _ sig(1)]) (simp_all add: simps)
  then have "server_steps le (Server_init port 2) (both_stopping port Closing Telling False True False (begun port @ [down, down, told]))"
    by (rule server_move [OF _ own(2)]) (simp_all add: simps)
  then have "server_steps le (Server_init port 2) (both_stopping port Closing Closing False True False (begun port @ [down, down, told, told]))"
    by (rule server_move [OF _ sig(2)]) (simp_all add: simps)
  then have "server_steps le (Server_init port 2) (both_stopping port Stopping_loop Closing False False False (begun port @ [down, down, told, told]))"
    by (rule server_move [OF _ own(3)]) (simp_all add: simps)
  then have "server_steps le (Server_init port 2) (both_stopping port Stopping_loop Stopping_loop False False False (begun port @ [down, down, told, told]))"
    by (rule server_move [OF _ sig(3)]) (simp_all add: simps)
  then have "server_steps le (Server_init port 2) (both_stopping port Joining Stopping_loop False False True (begun port @ [down, down, told, told]))"
    by (rule server_move [OF _ own(4)]) (simp_all add: simps)
  then show ?thesis
    by (rule server_move [OF _ sig(4)]) (simp_all add: simps)
qed

theorem stop_returns_witness:
  "\<exists>s'. server_step True (both_joining 8080) s'"
proof -
  have "server_reach True 8080 2 (both_joining 8080)"
    by (rule steps_reach [OF both_join server_reach.create])
  from stop_returns [OF this] show ?thesis by (auto simp: both_stopping_def fun_eq_iff)
qed

text \<open>C31. The test of \<open>isRunning_\<close> and its assignment are not one atomic step, so the owner and the signal handler
  can both pass it: two threads then run the joining loop over the same \<open>workerThreads_\<close>, and both
  are about to call \<open>join\<close> on the same thread object, a data race.\<close>

theorem two_stops_join_the_same_thread:
  "\<exists>s. server_reach le port 2 s \<and> joins_next None s = Some 0 \<and> joins_next (Some 1) s = Some 0"
proof (intro exI conjI)
  show "server_reach le port 2 (both_joining port)"
    by (rule steps_reach [OF both_join server_reach.create])
qed (simp_all add: both_stopping_def joins_next_def joinable_def upt_rec [of 0] del: upt_Suc)

section \<open>Starting again\<close>

text \<open>Nothing restarts the loop, so no handler runs any more: the connections stay as they are, but for stops that are posted to them.\<close>

definition only_told :: "conn \<Rightarrow> conn \<Rightarrow> bool" where
  "only_told c c' \<longleftrightarrow> (\<exists>n. c' = c\<lparr>strand := strand c @ replicate n Stop_task\<rparr>)"

lemma only_told_refl [simp]: "only_told c c"
  unfolding only_told_def by (rule exI [of _ 0]) simp

lemma only_told_stop: "only_told c c' \<Longrightarrow> only_told c (stop c')"
proof -
  assume "only_told c c'"
  then obtain n where "c' = c\<lparr>strand := strand c @ replicate n Stop_task\<rparr>" by (auto simp: only_told_def)
  then show ?thesis
    unfolding only_told_def by (intro exI [of _ "Suc n"]) (simp add: stop_def post_def replicate_append_same [symmetric])
qed

lemma rel_map_stop:
  assumes "rel_option only_told a b"
  shows "rel_option only_told a (map_option stop b)"
  using assms only_told_stop by (cases a; cases b) auto

lemma dead_step:
  assumes "server_step le s s'" and "io_stopped s" and "\<forall>sid. rel_option only_told (C sid) (conns s sid)"
  shows "\<forall>sid. rel_option only_told (C sid) (conns s' sid)"
  using assms(1)
proof (cases rule: server_step.cases)
  case start
  then show ?thesis using assms(3) by (cases "isRunning s") (simp_all add: start_fields)
next
  case (tell self)
  then show ?thesis using assms(3) rel_map_stop by (simp add: stopAll_def)
qed (use assms(2,3) in \<open>simp_all add: close_acceptor_def stop_loop_def\<close>)

lemma dead_steps:
  assumes "server_steps le s s'" and "io_stopped s"
  shows "io_stopped s' \<and> (\<forall>sid. rel_option only_told (conns s sid) (conns s' sid))"
  using assms(1)
proof (induction rule: rtranclp_induct)
  case base
  have "rel_option only_told x x" for x by (cases x) simp_all
  with assms(2) show ?case by blast
next
  case (step t u)
  then show ?case using io_stays_stopped [of le t u] dead_step [of le t u "conns s"] by blast
qed

text \<open>C32. A server cannot be used again. After \<open>stop\<close> has returned, \<open>start\<close> succeeds and the server says that it is running, with all
  its workers, an accept outstanding, and the start logged; but no later step ever accepts a connection, reads from one or
  writes to one, whatever is called: \<open>stop\<close> stopped the loop for good.\<close>

theorem restarted_server_is_dead:
  assumes "server_reach le port threads s" and "isRunning s" and "stop_calls s = Map.empty"
  defines "s1 \<equiv> start_server (fst (stop_server None s))"
  shows "isRunning s1 \<and> accept_pending s1 \<and> workerThreads s1 = replicate threads Created \<and>
    last (srv_logged s1) = (INFO, ''Starting AsyncNet-Server on port '' @ show_word (srv_port s) @ '' with '' @
      decimal threads @ '' worker threads.'') \<and>
    (\<forall>s2. server_steps le s1 s2 \<longrightarrow> (\<forall>sid. rel_option only_told (conns s1 sid) (conns s2 sid)))"
proof -
  have size: "threadPoolSize s = threads" using control_inv_reach [OF assms(1)] by (simp add: control_inv_def)
  have off: "fst (stop_server None s) = log_server INFO ''AsyncNet-Server successfully stopped.''
      ((stop_loop (close_acceptor (stopAll (mark_stopped s))))\<lparr>workerThreads := []\<rparr>)"
    by (simp add: stop_owner [OF assms(2)])
  then have "\<not> isRunning (fst (stop_server None s))" by (simp add: stop_loop_def close_acceptor_def stopAll_def)
  note s1 = start_fields(2) [OF this, folded s1_def]
  have "io_stopped s1" by (simp add: s1 off stop_loop_def)
  then show ?thesis
    using dead_steps [of le s1] by (simp add: s1) (simp add: off size stop_loop_def close_acceptor_def stopAll_def)
qed

theorem restarted_server_is_dead_witness:
  "isRunning (start_server (fst (stop_server None (serving True 8080))))"
proof -
  have "isRunning (serving True 8080)" "stop_calls (serving True 8080) = Map.empty"
    by (simp_all add: serving_def accept_handler_def start_server_def doAccept_def Server_init_def Let_def)
  from restarted_server_is_dead [OF serving_reach this] show ?thesis by simp
qed

end
