(* ===== verification/Net_Release.thy ===== *)
theory Net_Release
  imports Net_Server_Props
begin

text \<open>
  The lifetime of a session. A session is owned by shared pointers: the registry's, and the one that
  every posted lambda and every asynchronous operation captures (\<open>auto self(shared_from_this())\<close> in
  \<open>Session.cpp\<close>), which lives until its handler has run. The session is destroyed when the last
  is gone. It is never destroyed while it serves; and once stopped it is
  always destroyed after a bounded number of its own steps.
\<close>

section \<open>The owners\<close>

definition session_owners :: "session_id \<Rightarrow> conn \<times> SessionManager \<Rightarrow> nat" where
  "session_owners sid = (\<lambda>(c, m).
     (if sid \<in> registered m then 1 else 0) + length (strand c) +
     (if reading c = None then 0 else 1) + (if writing c = None then 0 else 1))"

definition released :: "session_id \<Rightarrow> conn \<times> SessionManager \<Rightarrow> bool" where
  "released sid s \<longleftrightarrow> session_owners sid s = 0"

text \<open>The destructor.\<close>

definition Session_destroy :: "conn \<Rightarrow> conn" where
  "Session_destroy c = log_peer DEBUG ''Session destroyed for '' [] c"

section \<open>What a stopped session still does\<close>

text \<open>Its handlers run, and its operations end with an error, since the socket is closed.\<close>

inductive work_step :: "bool \<Rightarrow> session_id \<Rightarrow> conn \<times> SessionManager \<Rightarrow> conn \<times> SessionManager \<Rightarrow> bool" for le sid where
  work_run: "strand c = t # ts \<Longrightarrow> work_step le sid (c, m) (run_task le sid t (c\<lparr>strand := ts\<rparr>, m))"
| work_header: "reading c = Some Read_header \<Longrightarrow> ec \<noteq> Success \<Longrightarrow>
    work_step le sid (c, m) (post (Header_read ec n) (c\<lparr>reading := None\<rparr>), m)"
| work_payload: "reading c = Some (Read_payload h) \<Longrightarrow> ec \<noteq> Success \<Longrightarrow>
    work_step le sid (c, m) (post (Payload_read h ec n) (c\<lparr>reading := None\<rparr>), m)"
| work_write: "writing c = Some d \<Longrightarrow> ec \<noteq> Success \<Longrightarrow> n \<le> length d \<Longrightarrow>
    work_step le sid (c, m) (post (Write_done ec n) (c\<lparr>writing := None, outgoing := outgoing c @ take n d\<rparr>), m)"

lemma work_is_own: "work_step le sid s s' \<Longrightarrow> own_step le sid s s'"
  by (induction rule: work_step.induct) (auto intro: own_step.intros)

text \<open>The other steps of a stopped session are the environment's: bytes that arrive, and calls of \<open>stop\<close>.\<close>

lemma stopped_step_cases:
  assumes "own_step le sid (c, m) s'" and "\<not> socket_open c"
  shows "work_step le sid (c, m) s' \<or> s' = (stop c, m) \<or>
    (\<exists>bs. s' = (c\<lparr>incoming := incoming c @ bs, history := history c @ bs\<rparr>, m))"
  using assms by (cases rule: own_step_cases) (auto intro: work_step.intros)

text \<open>How many steps a handler can still lead to, itself included, and an operation.\<close>

fun task_work :: "task \<Rightarrow> nat" where
  "task_work Stop_task = 1"
| "task_work (Send_task d) = 1"
| "task_work (Header_read ec n) = (if ec = Success then 5 else 2)"
| "task_work (Payload_read h ec n) = (if ec = Success then 5 else 2)"
| "task_work (Write_done ec n) = (if ec = Success then 4 else 2)"

definition session_work :: "conn \<Rightarrow> nat" where
  "session_work c = sum_list (map task_work (strand c)) +
     (if reading c = None then 0 else 3) + (if writing c = None then 0 else 3)"

lemma session_work_log [simp]: "session_work (log_peer l t a c) = session_work c"
  by (simp add: session_work_def)

lemma session_work_simps:
  "session_work (post t c) = session_work c + task_work t"
  "session_work (stop c) = session_work c + 1"
  "reading c = None \<Longrightarrow> session_work (doReadHeader c) = session_work c + 3"
  "reading c = None \<Longrightarrow> session_work (doReadPayload h c) = session_work c + 3"
  "writing c = None \<Longrightarrow> session_work (doWrite c) = session_work c + 3"
  by (simp_all add: session_work_def post_def stop_def doReadHeader_def doReadPayload_def doWrite_def Let_def)

lemma processPacket_work:
  "session_work (fst (processPacket le h p (c, m))) \<le> session_work c + 1"
  "reading (fst (processPacket le h p (c, m))) = reading c"
  by (simp_all add: processPacket_def send_def session_work_simps Let_def) (simp add: stop_def)

lemma read_handlers_work:
  assumes "reading c = None"
  shows "session_work (fst (header_handler le ec n (c, m))) < session_work c + (if ec = Success then 5 else 2)"
    "session_work (fst (payload_handler le h ec n (c, m))) < session_work c + (if ec = Success then 5 else 2)"
proof -
  have again: "session_work (doReadHeader (fst (processPacket le h p (c, m)))) < session_work c + 5" for h p
    using processPacket_work [of le h p c m] assms by (simp add: session_work_simps)
  show "session_work (fst (header_handler le ec n (c, m))) < session_work c + (if ec = Success then 5 else 2)"
    using again assms by (auto simp: header_handler_def session_work_simps case_prod_unfold Let_def split: bool.splits)
  show "session_work (fst (payload_handler le h ec n (c, m))) < session_work c + (if ec = Success then 5 else 2)"
    using again by (auto simp: payload_handler_def session_work_simps case_prod_unfold Let_def)
qed

text \<open>One handler less, with the operation it belonged to over.\<close>

lemma run_task_work:
  assumes "isStopped c" and "is_read t \<longrightarrow> reading c = None" and "is_write t \<longrightarrow> writing c = None"
  shows "session_work (fst (run_task le sid t (c, m))) < session_work c + task_work t"
proof (cases t)
  case (Write_done ec n)
  then have "writing c = None" using assms(3) by simp
  then have "session_work (doWrite (c\<lparr>writeQueue := q\<rparr>)) = session_work c + 3" for q
    by (simp add: session_work_def doWrite_def)
  then show ?thesis using Write_done
    by (simp add: write_handler_def session_work_simps Let_def) (simp add: session_work_def)
qed (use assms read_handlers_work in \<open>auto simp: stop_handler_def send_handler_def\<close>)

text \<open>In a reachable session the handler of an operation runs when the operation is over.\<close>

lemma no_overlap:
  assumes "session_reach le sid (c, m)" and "t \<in> set (strand c)"
  shows "is_read t \<longrightarrow> reading c = None" "is_write t \<longrightarrow> writing c = None"
proof -
  obtain A where "writer_ok c" "reader_ok le A c" using session_reach_inv [OF assms(1)] by (auto simp: session_inv_def)
  moreover have "is_read t \<Longrightarrow> filter is_read (strand c) \<noteq> []" "is_write t \<Longrightarrow> filter is_write (strand c) \<noteq> []"
    using assms(2) by (auto simp: filter_empty_conv)
  ultimately show "is_read t \<longrightarrow> reading c = None" "is_write t \<longrightarrow> writing c = None"
    by (auto simp: reader_ok_def writer_ok_def split: option.splits list.splits read_op.splits)
qed

lemma stopped_work_decreases:
  assumes reach: "session_reach le sid (c, m)" and stopped: "isStopped c" and step: "work_step le sid (c, m) (c', m')"
  shows "session_work c' < session_work c \<and> isStopped c'"
  using step
proof (cases rule: work_step.cases)
  case (work_run t ts)
  let ?c = "c\<lparr>strand := ts\<rparr>"
  have c': "c' = fst (run_task le sid t (?c, m))" using work_run by (metis fst_conv)
  have "t \<in> set (strand c)" using work_run by simp
  then have "session_work c' < session_work ?c + task_work t"
    unfolding c' using no_overlap [OF reach] stopped by (intro run_task_work) simp_all
  moreover have "isStopped c'"
    unfolding c' using run_task_stopped(1) [of t le sid ?c m] stopped by (cases "t = Stop_task") (simp_all add: stop_handler_def)
  ultimately show ?thesis using work_run by (simp add: session_work_def)
qed (use stopped in \<open>simp_all add: session_work_simps, simp_all add: session_work_def\<close>)

lemma work_run_bound:
  assumes "\<forall>k < n. work_step le sid (r k) (r (Suc k))" and "session_reach le sid (r 0)" and "isStopped (fst (r 0))"
  shows "n \<le> session_work (fst (r 0))"
  using assms
proof (induction n arbitrary: r)
  case (Suc n)
  obtain c m c' m' where r: "r 0 = (c, m)" "r 1 = (c', m')" by (metis surj_pair)
  have step: "work_step le sid (c, m) (c', m')" using Suc.prems(1) r by auto
  have less: "session_work c' < session_work c \<and> isStopped c'"
    using stopped_work_decreases [OF _ _ step] Suc.prems(2,3) r by simp
  have "session_reach le sid (c', m')"
    using reach_own [OF _ work_is_own [OF step]] Suc.prems(2) r by simp
  then have "n \<le> session_work c'"
    using Suc.IH [of "\<lambda>k. r (Suc k)"] Suc.prems(1) less r by auto
  then show ?case using less r by simp
qed simp

lemma session_work_le: "session_work c \<le> 5 * length (strand c) + 6"
proof -
  have "task_work t \<le> 5" for t by (cases t) simp_all
  then have "sum_list (map task_work ts) \<le> 5 * length ts" for ts by (induction ts) (simp_all add: add_mono)
  from this [of "strand c"] show ?thesis by (simp add: session_work_def)
qed

lemma work_possible:
  assumes "\<not> released sid (c, m)" and "sid \<notin> registered m"
  shows "\<exists>s'. work_step le sid (c, m) s'"
proof -
  consider (handler) t ts where "strand c = t # ts" | (header) "reading c = Some Read_header"
    | (payload) h where "reading c = Some (Read_payload h)" | (writing) d where "writing c = Some d"
  proof (cases "strand c")
    case Nil
    then show thesis using assms that(2-4)
      by (cases "reading c"; cases "writing c"; cases "the (reading c)") (auto simp: released_def session_owners_def)
  qed (rule that(1))
  then show ?thesis
  proof cases
    case handler
    then show ?thesis using work_run by blast
  next
    case header
    then show ?thesis using work_header by blast
  next
    case payload
    then show ?thesis using work_payload by blast
  next
    case writing
    then show ?thesis using work_write [OF writing, of "Eof []" 0] by blast
  qed
qed

lemma serving_owned:
  assumes "session_reach le sid (c, m)" and "\<not> isStopped c"
  shows "\<not> released sid (c, m)"
proof -
  obtain A where "reader_ok le A c" using session_reach_inv [OF assms(1)] by (auto simp: session_inv_def)
  then have "reading c \<noteq> None \<or> strand c \<noteq> []"
    using assms(2) by (cases "strand c") (auto simp: reader_ok_def stopping_def split: option.splits)
  then show ?thesis by (auto simp: released_def session_owners_def)
qed

section \<open>The property\<close>

text \<open>C12. The lifetime of a session, by its shared pointers. A session that was not stopped always has an owner, so it is
  not destroyed while it serves its peer. A stopped one has left the registry and its socket is closed; as long as it has another
  owner, a handler of it can run or an operation of it can end, and after at most five such steps per queued handler and
  six more the last owner is gone and it is destroyed: no session leaks.\<close>

theorem session_lifetime:
  assumes "session_reach le sid (c, m)"
  shows "(\<not> isStopped c \<longrightarrow> session_owners sid (c, m) > 0) \<and>
    (isStopped c \<longrightarrow> sid \<notin> registered m \<and> \<not> socket_open c \<and>
      (session_owners sid (c, m) > 0 \<longrightarrow> (\<exists>s'. work_step le sid (c, m) s')) \<and>
      (\<forall>n r. r 0 = (c, m) \<and> (\<forall>k < n. work_step le sid (r k) (r (Suc k))) \<longrightarrow> n \<le> 5 * length (strand c) + 6))"
proof (intro conjI impI allI)
  assume "\<not> isStopped c"
  then show "session_owners sid (c, m) > 0" using serving_owned [OF assms] by (simp add: released_def)
next
  assume stopped: "isStopped c"
  show left: "sid \<notin> registered m" and "\<not> socket_open c"
    using session_reach_closed [OF assms] stopped by (simp_all add: session_closed_def registered_def)
  show "\<exists>s'. work_step le sid (c, m) s'" if "session_owners sid (c, m) > 0"
    using work_possible [OF _ left] that by (simp add: released_def)
  fix n r
  assume "r 0 = (c, m) \<and> (\<forall>k < n. work_step le sid (r k) (r (Suc k)))"
  then have "n \<le> session_work c" using work_run_bound [of n le sid r] assms stopped by auto
  then show "n \<le> 5 * length (strand c) + 6" using session_work_le [of c] by simp
qed

theorem session_lifetime_witness:
  "\<exists>s'. work_step True 0 (hung_up_conn True, sessionManager (hung_up True)) s'"
proof -
  let ?c = "hung_up_conn True"
  have "session_reach True 0 (?c, sessionManager (hung_up True))"
    using sessions_inv_reach [OF hung_up_reach [of True]] by (simp add: sessions_inv_def hung_up_def)
  from session_lifetime [OF this] show ?thesis
    by (simp add: session_owners_def hung_up_conn_def after_pong_def start_session_def doReadHeader_def)
qed

end
