(* ===== verification/Net_Session_Log.thy ===== *)
theory Net_Session_Log
  imports Net_Server_Props
begin

text \<open>
  What a session tells the log. Whatever the peer, the network and the other threads do, the log of a session
  begins with its connection, tells of its end exactly once and only when it is closed, and holds no
  error; so the logger writes it to \<open>cout\<close> alone.
\<close>

definition connected_line :: "string \<Rightarrow> LogLevel \<times> string" where
  "connected_line address = (INFO, ''Client connected from '' @ address)"

definition disconnected_line :: "string \<Rightarrow> LogLevel \<times> string" where
  "disconnected_line address = (INFO, ''Client disconnected: '' @ address)"

section \<open>What the handlers add\<close>

text \<open>A step that leaves the session open or closed as it is adds neither its end nor an error to the log.\<close>

definition log_goes_on :: "conn \<Rightarrow> conn \<Rightarrow> bool" where
  "log_goes_on c c' \<longleftrightarrow> remoteAddress c' = remoteAddress c \<and> isStopped c' = isStopped c \<and>
     (\<exists>new. logged c' = logged c @ new \<and> disconnected_line (remoteAddress c) \<notin> set new \<and> ERROR \<notin> fst ` set new)"

lemma log_same: "remoteAddress c' = remoteAddress c \<Longrightarrow> isStopped c' = isStopped c \<Longrightarrow> logged c' = logged c \<Longrightarrow> log_goes_on c c'"
  by (simp add: log_goes_on_def)

lemma log_one:
  assumes "remoteAddress c' = remoteAddress c" "isStopped c' = isStopped c" "logged c' = logged c @ [(lv, msg)]"
    and "lv \<noteq> ERROR" "(lv, msg) \<noteq> disconnected_line (remoteAddress c)"
  shows "log_goes_on c c'"
  using assms by (auto simp: log_goes_on_def)

lemma log_peer_logged [simp]: "logged (log_peer l t a c) = logged c @ [(l, t @ remoteAddress c @ a)]"
  by (simp add: log_peer_def)

lemma log_kept [simp]:
  "logged (post t c) = logged c" "logged (stop c) = logged c" "logged (send le p c) = logged c"
  "logged (doReadHeader c) = logged c" "logged (doReadPayload h c) = logged c" "logged (doWrite c) = logged c"
  "remoteAddress (post t c) = remoteAddress c" "remoteAddress (stop c) = remoteAddress c" "remoteAddress (send le p c) = remoteAddress c"
  "remoteAddress (doReadHeader c) = remoteAddress c" "remoteAddress (doReadPayload h c) = remoteAddress c"
  "remoteAddress (doWrite c) = remoteAddress c"
  "isStopped (stop c) = isStopped c" "isStopped (send le p c) = isStopped c"
  "isStopped (doReadHeader c) = isStopped c" "isStopped (doReadPayload h c) = isStopped c" "isStopped (doWrite c) = isStopped c"
  by (simp_all add: post_def stop_def send_def doReadHeader_def doReadPayload_def doWrite_def Let_def)

lemma processPacket_log: "log_goes_on c (fst (processPacket le h p (c, m)))"
proof -
  consider "h_type h = PING" | "h_type h \<noteq> PING" "h_type h = ECHO_REQUEST"
    | "h_type h \<notin> {PING, ECHO_REQUEST}" "h_type h = DISCONNECT" | "h_type h \<notin> {PING, ECHO_REQUEST, DISCONNECT}" by blast
  then show ?thesis
    by cases (auto simp: processPacket_def Let_def disconnected_line_def intro!: log_one)
qed

lemma log_then: "log_goes_on c c' \<Longrightarrow> log_goes_on c (doReadHeader c')"
  by (simp add: log_goes_on_def)

lemma run_task_log:
  assumes "t \<noteq> Stop_task"
  shows "log_goes_on c (fst (run_task le sid t (c, m)))"
proof (cases t)
  case (Send_task d)
  then show ?thesis by (auto simp: send_handler_def Let_def intro!: log_same)
next
  case (Header_read ec n)
  obtain good h where d: "deserializeHeader le (take n (headerBuffer c)) Header_default = (good, h)" by (metis prod.exhaust)
  consider (reads) "ec = Success" "good" "\<not> unat (h_length h) > MAX_PAYLOAD_SIZE" | (silent) "expected_end ec"
    | (warns) "\<not> expected_end ec" "ec \<noteq> Success \<or> \<not> good \<or> unat (h_length h) > MAX_PAYLOAD_SIZE" by blast
  then have "log_goes_on c (fst (header_handler le ec n (c, m)))"
  proof cases
    case reads
    then show ?thesis
      using d log_then [OF processPacket_log [of c le h "[]" m]]
      by (auto simp: header_handler_def case_prod_unfold Let_def intro!: log_same)
  next
    case silent
    then have "ec \<noteq> Success" by auto
    with silent show ?thesis by (auto simp: header_handler_def intro!: log_same)
  next
    case warns
    then show ?thesis
      using d by (cases good) (auto simp: header_handler_def Let_def disconnected_line_def intro!: log_one)
  qed
  then show ?thesis using Header_read by simp
next
  case (Payload_read h ec n)
  then show ?thesis
    using log_then [OF processPacket_log [of c le h "payloadBuffer c" m]]
    by (auto simp: payload_handler_def case_prod_unfold Let_def disconnected_line_def intro!: log_one)
next
  case (Write_done ec n)
  then show ?thesis
    by (cases "ec = Success") (auto simp: write_handler_def Let_def disconnected_line_def intro: log_one log_same)
qed (use assms in simp)

section \<open>The invariant\<close>

definition log_inv :: "conn \<Rightarrow> bool" where
  "log_inv c \<longleftrightarrow> (\<exists>rest. logged c = connected_line (remoteAddress c) # rest) \<and>
     count_list (logged c) (disconnected_line (remoteAddress c)) = (if isStopped c then 1 else 0) \<and>
     ERROR \<notin> fst ` set (logged c)"

lemma log_inv_goes_on:
  assumes "log_inv c" and "log_goes_on c c'"
  shows "log_inv c'"
proof -
  obtain new where "logged c' = logged c @ new" "disconnected_line (remoteAddress c) \<notin> set new" "ERROR \<notin> fst ` set new"
    and "remoteAddress c' = remoteAddress c" "isStopped c' = isStopped c"
    using assms(2) by (auto simp: log_goes_on_def)
  then show ?thesis using assms(1) by (auto simp: log_inv_def count_list_0_iff)
qed

lemma log_inv_step:
  assumes inv: "log_inv c" and step: "own_step le sid (c, m) s'"
  shows "log_inv (fst s')"
  using step
proof (cases rule: own_step_cases)
  case (run t ts)
  let ?c = "c\<lparr>strand := ts\<rparr>"
  have "log_inv ?c" using inv by (simp add: log_inv_def)
  moreover have "log_inv (fst (stop_handler sid (?c, m)))"
    using inv by (auto simp: log_inv_def stop_handler_def connected_line_def disconnected_line_def count_list_0_iff)
  ultimately show ?thesis
    using log_inv_goes_on [OF _ run_task_log [of t ?c le sid m]] run by (cases "t = Stop_task") auto
qed (rule log_inv_goes_on [OF inv], simp add: log_same)+

lemma session_reach_log: "session_reach le sid s \<Longrightarrow> log_inv (fst s)"
proof (induction rule: session_reach.induct)
  case (begin_session m ep)
  then show ?case
    by (simp add: log_inv_def start_session_def Session_init_def connected_line_def disconnected_line_def)
next
  case (next_step s s')
  obtain c m where s: "s = (c, m)" by (cases s)
  from next_step.hyps(2) [unfolded s] show ?case
    by (cases rule: session_step_cases) (use next_step.IH s log_inv_step in auto)
qed

section \<open>The property\<close>

text \<open>C33. The log of a session. Whatever happens to it, its log calls begin with the connection, report the
  disconnection exactly once if it is closed and not at all before, and are never errors. Passed to a
  fresh logger, at whatever times and on whatever threads, they leave nothing on \<open>cerr\<close>, and on \<open>cout\<close> first the line
  of the connection and in all one line for each call that is not for debugging.\<close>

theorem session_log:
  fixes env :: "nat \<Rightarrow> log_env"
  assumes "session_reach le sid (c, m)"
  defines "out \<equiv> write_log env 0 (logged c) Logger_init"
  shows "(\<exists>rest. logged c = (INFO, ''Client connected from '' @ remoteAddress c) # rest) \<and>
    count_list (logged c) (INFO, ''Client disconnected: '' @ remoteAddress c) = (if isStopped c then 1 else 0) \<and>
    cerr out = [] \<and>
    (\<exists>rest. cout out = log_line (env 0) INFO (''Client connected from '' @ remoteAddress c) # rest) \<and>
    length (cout out) = length (filter (\<lambda>(level, _). level \<noteq> DEBUG) (logged c))"
proof -
  have inv: "log_inv c" using session_reach_log [OF assms(1)] by simp
  then obtain rest where rest: "logged c = connected_line (remoteAddress c) # rest" by (auto simp: log_inv_def)
  have "\<forall>(level, message) \<in> set (logged c). level \<noteq> ERROR" using inv by (auto simp: log_inv_def image_iff)
  then have cerr: "cerr out = []" using write_log_no_error [of "logged c" env 0 Logger_init] by (simp add: out_def Logger_init_def)
  have vis: "visible INFO (logged c) = filter (\<lambda>(level, _). level \<noteq> DEBUG) (logged c)"
    unfolding visible_def
  proof (rule filter_cong [OF refl])
    show "(case x of (lv, _) \<Rightarrow> INFO \<le> lv) = (case x of (lv, _) \<Rightarrow> lv \<noteq> DEBUG)" for x :: "LogLevel \<times> string"
      by (cases x; cases "fst x") (auto simp: less_eq_LogLevel_def)
  qed
  have "length (cout out) = length (filter (\<lambda>(level, _). level \<noteq> DEBUG) (logged c))"
    using write_log_lengths [of env 0 "logged c" Logger_init] cerr by (simp add: vis out_def Logger_init_def)
  moreover have "\<exists>rest'. cout out = log_line (env 0) INFO (''Client connected from '' @ remoteAddress c) # rest'"
    using write_log_cout_mono [of env 1 rest "log_message (env 0) INFO (''Client connected from '' @ remoteAddress c) Logger_init"]
    by (simp add: out_def rest connected_line_def log_message_def Logger_init_def)
  ultimately show ?thesis
    using inv cerr by (auto simp only: log_inv_def connected_line_def disconnected_line_def)
qed

theorem session_log_witness:
  "length (cout (write_log (\<lambda>n. \<lparr>local_time = ''2026-01-02 03:04:05'', epoch_ms = n, thread_id = ''7''\<rparr>) 0
     (logged (hung_up_conn True)) Logger_init)) = 2"
proof -
  have "session_reach True 0 (hung_up_conn True, sessionManager (hung_up True))"
    using sessions_inv_reach [OF hung_up_reach [of True]] by (simp add: sessions_inv_def hung_up_def)
  from session_log [OF this, of "\<lambda>n. \<lparr>local_time = ''2026-01-02 03:04:05'', epoch_ms = n, thread_id = ''7''\<rparr>"]
  have "length (cout (write_log (\<lambda>n. \<lparr>local_time = ''2026-01-02 03:04:05'', epoch_ms = n, thread_id = ''7''\<rparr>) 0
      (logged (hung_up_conn True)) Logger_init)) = length (filter (\<lambda>(level, _). level \<noteq> DEBUG) (logged (hung_up_conn True)))"
    by (elim conjE)
  then show ?thesis by (simp add: hung_up_conn_def after_pong_def)
qed

end
