(* ===== verification/Net_Answers.thy ===== *)
theory Net_Answers
  imports Net_Session_Props
begin

text \<open>
  Total correctness of a session whose peer sends the frames of valid packets and whose operations
  succeed. The safety part (\<open>session_inv\<close>) says that nothing wrong is ever written; here all
  responses are written, after a bounded number of steps, however the stream is cut into
  chunks and however the handlers, the reads and the writes interleave. At the end, what
  a request to disconnect does to the responses that were not written yet.

  \<open>calm_step\<close> are the steps of \<open>own_step\<close> in which nothing fails and nobody calls \<open>stop\<close>; the chunks that
  arrive make up the stream \<open>S\<close>. \<open>work_left\<close> decreases with each of them, and \<open>on_frames\<close> says
  where in the stream of frames the reader is.
\<close>

section \<open>Steps without errors\<close>

inductive calm_step :: "bool \<Rightarrow> session_id \<Rightarrow> bytes \<Rightarrow> conn \<times> SessionManager \<Rightarrow> conn \<times> SessionManager \<Rightarrow> bool"
  for le sid S where
  run: "strand c = t # ts \<Longrightarrow> calm_step le sid S (c, m) (run_task le sid t (c\<lparr>strand := ts\<rparr>, m))"
| receive: "bs \<noteq> [] \<Longrightarrow> prefix (history c @ bs) S \<Longrightarrow>
    calm_step le sid S (c, m) (c\<lparr>incoming := incoming c @ bs, history := history c @ bs\<rparr>, m)"
| header_ok: "reading c = Some Read_header \<Longrightarrow> socket_open c \<Longrightarrow> HEADER_SIZE \<le> length (incoming c) \<Longrightarrow>
    calm_step le sid S (c, m) (post (Header_read Success HEADER_SIZE)
      (c\<lparr>reading := None, headerBuffer := take HEADER_SIZE (incoming c),
         incoming := drop HEADER_SIZE (incoming c)\<rparr>), m)"
| payload_ok: "reading c = Some (Read_payload h) \<Longrightarrow> socket_open c \<Longrightarrow> unat (h_length h) \<le> length (incoming c) \<Longrightarrow>
    calm_step le sid S (c, m) (post (Payload_read h Success (unat (h_length h)))
      (c\<lparr>reading := None, payloadBuffer := take (unat (h_length h)) (incoming c),
         incoming := drop (unat (h_length h)) (incoming c)\<rparr>), m)"
| write_ok: "writing c = Some d \<Longrightarrow> socket_open c \<Longrightarrow>
    calm_step le sid S (c, m) (post (Write_done Success (length d))
      (c\<lparr>writing := None, outgoing := outgoing c @ d\<rparr>), m)"

inductive_cases calm_stepE: "calm_step le sid S (c, m) s'"

lemmas calm_step_cases = calm_stepE [consumes 1, case_names run receive header_ok payload_ok write_ok]

lemma calm_is_own: "calm_step le sid S s s' \<Longrightarrow> own_step le sid s s'"
  by (induction rule: calm_step.induct) (auto intro: own_step.intros)

lemma calm_reach: "(calm_step le sid S ^^ n) s s' \<Longrightarrow> session_reach le sid s \<Longrightarrow> session_reach le sid s'"
proof (induction n arbitrary: s')
  case (Suc n)
  then obtain s1 where "session_reach le sid s1" "calm_step le sid S s1 s'" by auto
  then show ?case using session_reach.next_step [OF _ session_step.own [OF calm_is_own]] by blast
qed simp

section \<open>Every run is bounded\<close>

text \<open>What is still to be done for a task, a read and a write in flight, a queued buffer, and a byte.\<close>

fun task_left :: "task \<Rightarrow> nat" where
  "task_left Stop_task = 1"
| "task_left (Send_task d) = 5"
| "task_left (Header_read ec n) = 8"
| "task_left (Payload_read h ec n) = 6"
| "task_left (Write_done ec n) = (if ec = Success then 1 else 2)"

fun read_left :: "read_op option \<Rightarrow> nat" where
  "read_left (Some (Read_payload h)) = 7"
| "read_left r = 0"

definition conn_left :: "conn \<Rightarrow> nat" where
  "conn_left c = sum_list (map task_left (strand c)) + read_left (reading c) + 2 * length (writeQueue c) +
     (if writing c = None then 0 else 2) + 2 * length (incoming c)"

definition work_left :: "bytes \<Rightarrow> conn \<Rightarrow> nat" where
  "work_left S c = conn_left c + 3 * (length S - length (history c))"

lemma conn_left_log [simp]: "conn_left (log_peer l t a c) = conn_left c"
  by (simp add: conn_left_def)

lemma conn_left_post [simp]: "conn_left (post t c) = conn_left c + task_left t"
  by (simp add: conn_left_def)

lemma conn_left_stop [simp]: "conn_left (stop c) = conn_left c + 1"
  by (simp add: stop_def)

lemma doReadHeader_left: "conn_left (doReadHeader c) \<le> conn_left c"
  by (simp add: conn_left_def doReadHeader_def)

lemma doReadPayload_left: "conn_left (doReadPayload h c) < conn_left c + 8"
  by (simp add: conn_left_def doReadPayload_def Let_def)

lemma answered_left: "conn_left (fst (let (c1, m1) = processPacket le h p (c, m) in (doReadHeader c1, m1))) < conn_left c + 6"
proof -
  have "conn_left (fst (processPacket le h p (c, m))) < conn_left c + 6"
    by (cases rule: processPacket_cases [of le h p c m]) simp_all
  then show ?thesis
    using doReadHeader_left [of "fst (processPacket le h p (c, m))"] by (simp add: case_prod_beta)
qed

lemma header_handler_left: "conn_left (fst (header_handler le ec n (c, m))) < conn_left c + 8"
proof -
  have "conn_left (fst (let (c1, m1) = processPacket le h p (c, m) in (doReadHeader c1, m1))) < conn_left c + 8" for h p
    using answered_left [of le h p c m] by linarith
  then show ?thesis using doReadPayload_left
    by (auto simp: header_handler_def case_prod_beta Let_def split: prod.splits bool.splits)
qed

lemma payload_handler_left: "conn_left (fst (payload_handler le h ec n (c, m))) < conn_left c + 6"
  using answered_left [of le h "payloadBuffer c" c m] by (simp add: payload_handler_def)

lemma handlers_left:
  "conn_left (fst (stop_handler sid (c, m))) \<le> conn_left c"
  "conn_left (send_handler d c) < conn_left c + 5"
  by (auto simp: stop_handler_def send_handler_def Let_def) (auto simp: conn_left_def doWrite_def)

lemma write_handler_left: "conn_left (write_handler ec n c) < conn_left c + (if ec = Success then 1 else 2)"
  by (cases "writeQueue c") (auto simp: write_handler_def Let_def, auto simp: conn_left_def doWrite_def)

lemma run_task_left:
  assumes "strand c = t # ts"
  shows "conn_left (fst (run_task le sid t (c\<lparr>strand := ts\<rparr>, m))) < conn_left c"
proof -
  let ?c = "c\<lparr>strand := ts\<rparr>"
  have "conn_left c = conn_left ?c + task_left t" using assms by (simp add: conn_left_def)
  moreover have "conn_left (fst (run_task le sid t (?c, m))) < conn_left ?c + task_left t"
    using handlers_left(1) [of sid ?c m] handlers_left(2) [of _ ?c] write_handler_left [of _ _ ?c]
      header_handler_left [of le _ _ ?c m] payload_handler_left [of le _ _ _ ?c m]
    by (cases t) simp_all
  ultimately show ?thesis by simp
qed

text \<open>No step of a handler touches what was received.\<close>

lemma run_task_history: "history (fst (run_task le sid t (c, m))) = history c"
proof -
  have "history (fst (processPacket le h p (c, m))) = history c" for h p
    by (cases rule: processPacket_cases [of le h p c m]) simp_all
  then show ?thesis
    by (cases t) (auto simp: stop_handler_def send_handler_def write_handler_def header_handler_def payload_handler_def
        doWrite_def doReadHeader_def doReadPayload_def stop_def case_prod_beta Let_def split: prod.splits bool.splits)
qed

lemma calm_step_decreases:
  assumes "calm_step le sid S (c, m) (c', m')"
  shows "work_left S c' < work_left S c"
  using assms
proof (cases rule: calm_step_cases)
  case (run t ts)
  then have "c' = fst (run_task le sid t (c\<lparr>strand := ts\<rparr>, m))" by (metis fst_conv)
  then show ?thesis
    using run_task_left [OF run(2), of le sid m] run_task_history [of le sid t "c\<lparr>strand := ts\<rparr>" m]
    by (simp add: work_left_def)
next
  case (receive bs)
  then have "length (history c) + length bs \<le> length S" "0 < length bs"
    by (auto dest!: prefix_length_le)
  then have "2 * length bs + 3 * (length S - (length (history c) + length bs)) < 3 * (length S - length (history c))"
    by linarith
  then show ?thesis using receive by (simp add: work_left_def conn_left_def)
qed (simp_all add: work_left_def conn_left_def HEADER_SIZE_def)

lemma calm_run_bound: "(calm_step le sid S ^^ n) s s' \<Longrightarrow> n + work_left S (fst s') \<le> work_left S (fst s)"
proof (induction n arbitrary: s')
  case (Suc n)
  then obtain s1 where "n + work_left S (fst s1) \<le> work_left S (fst s)" "calm_step le sid S s1 s'" by auto
  then show ?case using calm_step_decreases [of le sid S "fst s1" "snd s1" "fst s'" "snd s'"] by simp
qed simp

lemma calm_run_ends: "\<exists>n s'. (calm_step le sid S ^^ n) s s' \<and> (\<nexists>s''. calm_step le sid S s' s'')"
proof (induction "work_left S (fst s)" arbitrary: s rule: less_induct)
  case less
  show ?case
  proof (cases "\<exists>s1. calm_step le sid S s s1")
    case True
    then obtain s1 where s1: "calm_step le sid S s s1" by blast
    then have "work_left S (fst s1) < work_left S (fst s)"
      using calm_step_decreases [of le sid S "fst s" "snd s" "fst s1" "snd s1"] by simp
    from less [OF this] obtain n s' where "(calm_step le sid S ^^ n) s1 s'" "\<nexists>s''. calm_step le sid S s' s''" by blast
    then show ?thesis using relpowp_Suc_I2 [of "calm_step le sid S", OF s1] by blast
  next
    case False
    then show ?thesis using relpowp_0_I [of "calm_step le sid S" s] by blast
  qed
qed

lemma start_left: "work_left S (start_session (Session_init ep)) = 3 * length S"
  by (simp add: work_left_def conn_left_def start_session_def doReadHeader_def log_peer_def Session_init_def)

section \<open>Where the reader is\<close>

definition stream_of :: "bool \<Rightarrow> Packet list \<Rightarrow> bytes" where
  "stream_of le ps = concat (map (serializePacket le) ps)"

fun succeeded :: "task \<Rightarrow> bool" where
  "succeeded Stop_task = False"
| "succeeded (Send_task d) = True"
| "succeeded (Header_read ec n) = (ec = Success)"
| "succeeded (Payload_read h ec n) = (ec = Success)"
| "succeeded (Write_done ec n) = (ec = Success)"

text \<open>The part of the stream that no read has taken, whether it has arrived or not.\<close>

definition ahead :: "bytes \<Rightarrow> conn \<Rightarrow> bytes" where
  "ahead S c = incoming c @ drop (length (history c)) S"

text \<open>The packets \<open>qs\<close> are those that were not processed yet.\<close>

definition on_frames :: "bool \<Rightarrow> bytes \<Rightarrow> Packet list \<Rightarrow> conn \<Rightarrow> bool" where
  "on_frames le' S qs c \<longleftrightarrow> prefix (history c) S \<and> \<not> isStopped c \<and> (\<forall>t \<in> set (strand c). succeeded t) \<and>
     (\<forall>q \<in> set qs. valid_packet q \<and> h_type (p_header q) \<noteq> DISCONNECT) \<and>
     (case (reading c, filter is_read (strand c)) of
        (Some Read_header, []) \<Rightarrow> ahead S c = stream_of le' qs
      | (Some (Read_payload h), []) \<Rightarrow>
          \<exists>q qs'. qs = q # qs' \<and> h = p_header q \<and> ahead S c = p_payload q @ stream_of le' qs'
      | (None, [Header_read ec n]) \<Rightarrow> n = HEADER_SIZE \<and> length (headerBuffer c) = HEADER_SIZE \<and>
          headerBuffer c @ ahead S c = stream_of le' qs
      | (None, [Payload_read h ec n]) \<Rightarrow>
          \<exists>q qs'. qs = q # qs' \<and> h = p_header q \<and> payloadBuffer c = p_payload q \<and> ahead S c = stream_of le' qs'
      | _ \<Rightarrow> False)"

lemma stream_of_simps [simp]:
  "stream_of le' [] = []" "stream_of le' (q # qs) = serializePacket le' q @ stream_of le' qs"
  by (simp_all add: stream_of_def)

lemma valid_length: "valid_packet q \<Longrightarrow> unat (h_length (p_header q)) = length (p_payload q)"
  using unat_payload_length by (simp add: valid_packet_def)

lemma ahead_log [simp]: "ahead S (log_peer l t a c) = ahead S c"
  by (simp add: ahead_def)

lemma on_frames_start:
  assumes "\<forall>q \<in> set ps. valid_packet q \<and> h_type (p_header q) \<noteq> DISCONNECT"
  shows "on_frames le' (stream_of le' ps) ps (start_session (Session_init ep))"
  using assms by (simp add: on_frames_def ahead_def start_session_def doReadHeader_def log_peer_def Session_init_def)

text \<open>Only the fields of the reader matter.\<close>

lemma on_frames_cong:
  assumes "on_frames le' S qs c" and "history c' = history c" "incoming c' = incoming c" "isStopped c' = isStopped c"
    "reading c' = reading c" "headerBuffer c' = headerBuffer c" "payloadBuffer c' = payloadBuffer c"
    and "filter is_read (strand c') = filter is_read (strand c)" and "\<forall>t \<in> set (strand c'). succeeded t"
  shows "on_frames le' S qs c'"
proof -
  have "ahead S c' = ahead S c" using assms by (simp add: ahead_def)
  then show ?thesis using assms
    by (simp add: on_frames_def cong: option.case_cong list.case_cong read_op.case_cong task.case_cong)
qed

text \<open>A packet is processed: the reader goes on to the next header.\<close>

lemma on_frames_processed:
  assumes "on_frames le' S (q # qs) c0" and "prefix (history c) S" "\<not> isStopped c" "\<forall>t \<in> set (strand c). succeeded t"
    "filter is_read (strand c) = []" and "ahead S c = stream_of le' qs"
  shows "on_frames le' S qs (doReadHeader (fst (processPacket le (p_header q) p (c, m))))"
proof -
  have "h_type (p_header q) \<noteq> DISCONNECT" and rest: "\<forall>q \<in> set qs. valid_packet q \<and> h_type (p_header q) \<noteq> DISCONNECT"
    using assms(1) by (simp_all add: on_frames_def)
  then consider (sent) d lv s where "fst (processPacket le (p_header q) p (c, m)) = log_peer lv s [] (post (Send_task d) c)"
    | (not) lv s where "fst (processPacket le (p_header q) p (c, m)) = log_peer lv s [] c"
    using processPacket_cases [of le "p_header q" p c m] by metis
  then show ?thesis
    by cases (use assms(2-) rest in \<open>simp_all add: on_frames_def doReadHeader_def ahead_def\<close>)
qed

lemma processed_counted: "snd (processPacket le h p (c, m)) = incrementProcessedMessages m"
  by (simp add: processPacket_def Let_def)

text \<open>The handlers of the reads.\<close>

lemma on_frames_header_read:
  assumes "on_frames le' S qs c" and "strand c = Header_read ec n # ts"
  shows "ec = Success" "n = HEADER_SIZE" "length (headerBuffer c) = HEADER_SIZE" "reading c = None"
    "filter is_read ts = []" "headerBuffer c @ ahead S c = stream_of le' qs"
  using assms by (auto simp: on_frames_def split: option.splits read_op.splits list.splits task.splits)

lemma on_frames_payload_read:
  assumes "on_frames le' S qs c" and "strand c = Payload_read h ec n # ts"
  obtains q qs' where "qs = q # qs'" "ec = Success" "h = p_header q" "payloadBuffer c = p_payload q"
    "reading c = None" "filter is_read ts = []" "ahead S c = stream_of le' qs'"
  using assms by (auto simp: on_frames_def split: option.splits read_op.splits list.splits task.splits)

lemma header_of_next:
  assumes "\<forall>q \<in> set qs. valid_packet q \<and> h_type (p_header q) \<noteq> DISCONNECT"
    and "length hb = HEADER_SIZE" and "hb @ rest = stream_of le' qs"
  obtains q qs' where "qs = q # qs'" "deserializeHeader le hb Header_default = (True, p_header q)"
    "rest = p_payload q @ stream_of le' qs'"
proof (cases qs)
  case Nil
  with assms show thesis by (simp add: HEADER_SIZE_def)
next
  case (Cons q qs')
  then have q: "valid_packet q" using assms(1) by simp
  then have "hb @ rest = serializeHeader le' (p_header q) @ p_payload q @ stream_of le' qs'"
    using assms(3) Cons by (simp add: serializePacket_valid)
  then have "hb = serializeHeader le' (p_header q)" "rest = p_payload q @ stream_of le' qs'"
    using assms(2) by (simp_all add: append_eq_append_conv)
  moreover have "deserializeHeader le (serializeHeader le' (p_header q)) Header_default = (True, p_header q)"
    using deserialize_serialize [of le le' "p_header q" "[]" Header_default] q by (simp add: valid_packet_def)
  ultimately show thesis using that Cons by simp
qed

lemma run_header_on_frames:
  assumes inv: "on_frames le' S qs c" and t: "strand c = Header_read ec n # ts"
    and run: "header_handler le ec n (c\<lparr>strand := ts\<rparr>, m) = (c', m')"
  shows "\<exists>qs'. on_frames le' S qs' c' \<and>
    totalMessagesProcessed m' + of_nat (length qs') = totalMessagesProcessed m + of_nat (length qs)"
proof -
  let ?c = "c\<lparr>strand := ts\<rparr>"
  note r = on_frames_header_read [OF inv t]
  have fields: "prefix (history c) S" "\<not> isStopped c" "\<forall>t \<in> set ts. succeeded t"
    "\<forall>q \<in> set qs. valid_packet q \<and> h_type (p_header q) \<noteq> DISCONNECT"
    using inv t by (simp_all add: on_frames_def)
  obtain q qs' where q: "qs = q # qs'" "deserializeHeader le (headerBuffer c) Header_default = (True, p_header q)"
    "ahead S c = p_payload q @ stream_of le' qs'"
    using header_of_next [OF fields(4) r(3,6)] by metis
  have len: "unat (h_length (p_header q)) = length (p_payload q)" "length (p_payload q) \<le> MAX_PAYLOAD_SIZE"
    using fields(4) q(1) valid_length by (simp_all add: valid_packet_def)
  have ahead: "ahead S ?c = ahead S c" by (simp add: ahead_def)
  show ?thesis
  proof (cases "p_payload q")
    case Nil
    then have "h_length (p_header q) = 0" using len(1) by (simp add: unat_eq_0)
    then have res: "c' = doReadHeader (fst (processPacket le (p_header q) [] (?c, m)))" "m' = incrementProcessedMessages m"
      using run r q len processed_counted [of le "p_header q" "[]" ?c m]
      by (auto simp: header_handler_def split: prod.splits)
    have "on_frames le' S qs' c'"
      unfolding res(1) using inv q Nil r(5) fields ahead by (intro on_frames_processed [of le' S q qs' c]) simp_all
    then show ?thesis using q(1) res(2) by (intro exI [of _ qs']) (simp add: incrementProcessedMessages_def)
  next
    case (Cons b bs)
    then have "h_length (p_header q) > 0" using len(1) by (simp add: word_gt_0 unat_eq_0 [symmetric])
    then have res: "c' = doReadPayload (p_header q) ?c" "m' = m"
      using run r q len by (simp_all add: header_handler_def)
    have "on_frames le' S qs c'"
      unfolding res(1) using r q fields ahead by (simp add: on_frames_def doReadPayload_def Let_def ahead_def)
    then show ?thesis using res(2) by blast
  qed
qed

lemma run_payload_on_frames:
  assumes inv: "on_frames le' S qs c" and t: "strand c = Payload_read h ec n # ts"
    and run: "payload_handler le h ec n (c\<lparr>strand := ts\<rparr>, m) = (c', m')"
  shows "\<exists>qs'. on_frames le' S qs' c' \<and>
    totalMessagesProcessed m' + of_nat (length qs') = totalMessagesProcessed m + of_nat (length qs)"
proof -
  let ?c = "c\<lparr>strand := ts\<rparr>"
  obtain q qs' where q: "qs = q # qs'" "ec = Success" "h = p_header q" "payloadBuffer c = p_payload q"
    "reading c = None" "filter is_read ts = []" "ahead S c = stream_of le' qs'"
    by (rule on_frames_payload_read [OF inv t])
  have res: "c' = doReadHeader (fst (processPacket le (p_header q) (p_payload q) (?c, m)))" "m' = incrementProcessedMessages m"
    using run q processed_counted [of le "p_header q" "p_payload q" ?c m]
    by (auto simp: payload_handler_def split: prod.splits)
  have "on_frames le' S qs' c'"
    unfolding res(1) using inv q t by (intro on_frames_processed [of le' S q qs' c]) (simp_all add: on_frames_def ahead_def)
  then show ?thesis using q(1) res(2) by (intro exI [of _ qs']) (simp add: incrementProcessedMessages_def)
qed

lemma calm_step_on_frames:
  assumes inv: "on_frames le' S qs c" and step: "calm_step le sid S (c, m) (c', m')"
  shows "\<exists>qs'. on_frames le' S qs' c' \<and>
    totalMessagesProcessed m' + of_nat (length qs') = totalMessagesProcessed m + of_nat (length qs)"
  using step
proof (cases rule: calm_step_cases)
  case (run t ts)
  note t = run(2)
  have ok: "\<forall>u \<in> set (strand c). succeeded u" using inv by (simp add: on_frames_def)
  show ?thesis
  proof (cases t)
    case Stop_task
    then show ?thesis using ok t by simp
  next
    case (Send_task d)
    then have "c' = send_handler d (c\<lparr>strand := ts\<rparr>)" "m' = m" using run by simp_all
    then show ?thesis using t ok Send_task
      by (intro exI [of _ qs] conjI on_frames_cong [OF inv]) (simp_all add: send_handler_def doWrite_def Let_def)
  next
    case (Write_done ec n)
    then have "c' = write_handler ec n (c\<lparr>strand := ts\<rparr>)" "ec = Success" "m' = m" using run ok by simp_all
    then show ?thesis using t ok Write_done
      by (intro exI [of _ qs] conjI on_frames_cong [OF inv]) (simp_all add: write_handler_def doWrite_def Let_def)
  qed (use run run_header_on_frames [OF inv] run_payload_on_frames [OF inv] in simp_all)
next
  case (receive bs)
  then obtain rest where S: "S = (history c @ bs) @ rest" by (auto simp: prefix_def)
  then have "ahead S c' = ahead S c" using receive by (simp add: ahead_def)
  then show ?thesis using inv receive S
    by (intro exI [of _ qs]) (simp add: on_frames_def cong: option.case_cong list.case_cong read_op.case_cong task.case_cong)
next
  case header_ok
  then have "take HEADER_SIZE (incoming c) @ ahead S c' = ahead S c" by (simp add: ahead_def)
  then show ?thesis using inv header_ok
    by (intro exI [of _ qs]) (auto simp: on_frames_def split: list.splits)
next
  case (payload_ok h)
  then obtain q qs' where q: "qs = q # qs'" "h = p_header q" "ahead S c = p_payload q @ stream_of le' qs'" "filter is_read (strand c) = []"
    "valid_packet q"
    using inv by (auto simp: on_frames_def split: list.splits)
  have len: "length (take (length (p_payload q)) (incoming c)) = length (p_payload q)"
    using payload_ok q valid_length by simp
  have "take (length (p_payload q)) (incoming c) @ ahead S c' = p_payload q @ stream_of le' qs'"
    using payload_ok q(2,5) valid_length unfolding q(3) [symmetric] by (simp add: ahead_def)
  then have "take (length (p_payload q)) (incoming c) = p_payload q" "ahead S c' = stream_of le' qs'"
    using append_eq_append_conv len by blast+
  then show ?thesis using inv payload_ok q valid_length
    by (intro exI [of _ qs]) (simp add: on_frames_def)
next
  case (write_ok d)
  then show ?thesis using inv
    by (intro exI [of _ qs] conjI on_frames_cong [OF inv]) (auto simp: on_frames_def)
qed

lemma calm_run_on_frames:
  assumes "(calm_step le sid S ^^ n) (c, m) s'" and "on_frames le' S qs c"
  shows "\<exists>qs'. on_frames le' S qs' (fst s') \<and>
    totalMessagesProcessed (snd s') + of_nat (length qs') = totalMessagesProcessed m + of_nat (length qs)"
  using assms(1)
proof (induction n arbitrary: s')
  case 0
  then show ?case using assms(2) by auto
next
  case (Suc n)
  then obtain s1 where s1: "(calm_step le sid S ^^ n) (c, m) s1" "calm_step le sid S s1 s'" by auto
  from Suc.IH [OF s1(1)] obtain qs1 where qs1: "on_frames le' S qs1 (fst s1)"
    "totalMessagesProcessed (snd s1) + of_nat (length qs1) = totalMessagesProcessed m + of_nat (length qs)" by blast
  have "calm_step le sid S (fst s1, snd s1) (fst s', snd s')" using s1(2) by simp
  from calm_step_on_frames [OF qs1(1) this] show ?case using qs1(2) by auto
qed

text \<open>Where no step is possible, all frames were read, and the session waits for more.\<close>

lemma calm_end:
  assumes frames: "on_frames le' S qs c" and inv: "session_inv le A c" and stuck: "\<nexists>s'. calm_step le sid S (c, m) s'"
  shows "qs = [] \<and> history c = S \<and> strand c = [] \<and> writing c = None \<and> reading c = Some Read_header \<and> incoming c = []"
proof -
  have strand: "strand c = []" using stuck calm_step.run [of c] by (cases "strand c") blast+
  have sock: "socket_open c" using inv frames by (simp add: session_inv_def on_frames_def)
  then have writing: "writing c = None" using stuck calm_step.write_ok [of c] by (cases "writing c") blast+
  obtain rest where S: "S = history c @ rest" using frames by (auto simp: on_frames_def prefix_def)
  then have "rest = []" using stuck calm_step.receive [of rest c S] by (metis prefix_order.refl)
  then have hist: "history c = S" and ahead: "ahead S c = incoming c" using S by (simp_all add: ahead_def)
  obtain r where r: "reading c = Some r" using frames strand by (auto simp: on_frames_def split: option.splits)
  show ?thesis
  proof (cases r)
    case (Read_payload h)
    then obtain q qs' where q: "qs = q # qs'" "h = p_header q" "incoming c = p_payload q @ stream_of le' qs'"
      using frames r strand ahead by (auto simp: on_frames_def)
    then have "unat (h_length h) \<le> length (incoming c)"
      using frames valid_length [of q] by (simp add: on_frames_def)
    then show ?thesis using stuck calm_step.payload_ok [of c h] r Read_payload sock by blast
  next
    case Read_header
    then have inc: "incoming c = stream_of le' qs" using frames r strand ahead by (simp add: on_frames_def)
    have "length (incoming c) < HEADER_SIZE"
      using stuck calm_step.header_ok [of c] r Read_header sock by (meson not_le)
    then have "qs = []"
      using inc frames by (cases qs) (simp_all add: on_frames_def serializePacket_valid)
    then show ?thesis using hist strand writing r Read_header inc by simp
  qed
qed

section \<open>A request to disconnect\<close>

definition disconnect :: Packet where
  "disconnect = \<lparr>p_header = \<lparr>h_magic = MAGIC_HEADER, h_type = DISCONNECT, h_length = 0\<rparr>, p_payload = []\<rparr>"

lemma valid_disconnect: "valid_packet disconnect"
  by (simp add: disconnect_def valid_packet_def)

lemma disconnect_frame:
  "length (serializePacket le disconnect) = HEADER_SIZE"
  "deserializeHeader le (serializePacket le disconnect) Header_default = (True, p_header disconnect)"
  using deserialize_serialize [of le le "p_header disconnect" "[]" Header_default]
  by (simp_all add: serializePacket_valid [OF valid_disconnect]) (simp_all add: disconnect_def)

lemma frame_nonempty: "serializePacket le ping \<noteq> []"
  using frame_length(1) [of le] by (auto simp: HEADER_SIZE_def)

abbreviation calm_steps :: "bool \<Rightarrow> session_id \<Rightarrow> bytes \<Rightarrow> conn \<times> SessionManager \<Rightarrow> conn \<times> SessionManager \<Rightarrow> bool" where
  "calm_steps le sid S \<equiv> rtranclp (calm_step le sid S)"

lemma calm_move: "calm_steps le sid S s0 s \<Longrightarrow> calm_step le sid S s s' \<Longrightarrow> s' = s'' \<Longrightarrow> calm_steps le sid S s0 s''"
  using rtranclp.rtrancl_into_rtrancl [of "calm_step le sid S"] by metis

text \<open>The session after it has read both frames and closed, with the \<open>PONG\<close> still in its queue.\<close>

definition hung_up_early :: "bool \<Rightarrow> conn" where
  "hung_up_early le = \<lparr>writeQueue = [serializePacket le createPongPacket], isWriting = False, isStopped = True,
     headerBuffer = serializePacket le disconnect, payloadBuffer = [], socket_open = False, strand = [],
     reading = Some Read_header, writing = Some (serializePacket le createPongPacket), incoming = [],
     history = stream_of le [ping, disconnect], outgoing = [], remoteAddress = ''unknown'',
     logged = [(INFO, ''Client connected from unknown''), (DEBUG, ''Received PING from unknown''),
       (INFO, ''Client requested disconnect: unknown''), (INFO, ''Client disconnected: unknown'')]\<rparr>"

lemma hung_up_early_steps:
  "calm_steps le sid (stream_of le [ping, disconnect]) (start_session (Session_init None), m)
     (hung_up_early le, removeSession sid (incrementProcessedMessages (incrementProcessedMessages m)))"
proof -
  let ?ping = "serializePacket le ping" and ?pong = "serializePacket le createPongPacket" and ?disc = "serializePacket le disconnect"
  let ?S = "stream_of le [ping, disconnect]" and ?start = "(start_session (Session_init None), m)"
  let ?la = "[(INFO, ''Client connected from unknown'')]" and ?lb = "[(INFO, ''Client connected from unknown''), (DEBUG, ''Received PING from unknown'')]"
  let ?lc = "?lb @ [(INFO, ''Client requested disconnect: unknown'')]"
  let ?s = "\<lambda>rd wr q ts hb inp lg. \<lparr>writeQueue = q, isWriting = False, isStopped = False, headerBuffer = hb,
     payloadBuffer = [], socket_open = True, strand = ts, reading = rd, writing = wr, incoming = inp,
     history = ?S, outgoing = [], remoteAddress = ''unknown'', logged = lg\<rparr>"
  let ?once = "incrementProcessedMessages m"
  note handler = header_handler_def frame_length deserialize_ping disconnect_frame
  note packet = ping_def disconnect_def processPacket_def send_def stop_def doReadHeader_def post_def Let_def
    MAX_PAYLOAD_SIZE_def log_peer_def message_types
  have S: "?S = ?ping @ ?disc" by simp
  have "calm_steps le sid ?S ?start ?start" by simp
  then have "calm_steps le sid ?S ?start (?s (Some Read_header) None [] [] (replicate HEADER_SIZE 0) (?ping @ ?disc) ?la, m)"
    by (rule calm_move [OF _ receive [where bs = ?S]])
      (simp_all add: start_session_def doReadHeader_def Session_init_def log_peer_def frame_nonempty)
  then have "calm_steps le sid ?S ?start (?s None None [] [Header_read Success HEADER_SIZE] ?ping ?disc ?la, m)"
    by (rule calm_move [OF _ header_ok]) (simp_all add: post_def frame_length)
  then have "calm_steps le sid ?S ?start (?s (Some Read_header) None [] [Send_task ?pong] ?ping ?disc ?lb, ?once)"
    by (rule calm_move [OF _ run [where ts = "[]" and t = "Header_read Success HEADER_SIZE"]])
      (simp_all add: handler, simp_all add: packet)
  then have "calm_steps le sid ?S ?start (?s (Some Read_header) (Some ?pong) [?pong] [] ?ping ?disc ?lb, ?once)"
    by (rule calm_move [OF _ run [where ts = "[]" and t = "Send_task ?pong"]]) (simp_all add: send_handler_def doWrite_def Let_def)
  then have "calm_steps le sid ?S ?start (?s None (Some ?pong) [?pong] [Header_read Success HEADER_SIZE] ?disc [] ?lb, ?once)"
    by (rule calm_move [OF _ header_ok]) (simp_all add: post_def disconnect_frame)
  then have "calm_steps le sid ?S ?start (?s (Some Read_header) (Some ?pong) [?pong] [Stop_task] ?disc [] ?lc, incrementProcessedMessages ?once)"
    by (rule calm_move [OF _ run [where ts = "[]" and t = "Header_read Success HEADER_SIZE"]])
      (simp_all add: handler, simp_all add: packet)
  then show ?thesis
    by (rule calm_move [OF _ run [where ts = "[]" and t = Stop_task]])
      (simp_all add: stop_handler_def log_peer_def hung_up_early_def)
qed

section \<open>Properties\<close>

text \<open>C6. Total correctness of a session. The peer sends the frames of valid packets, none a request to
  disconnect, in any chunks, and nothing fails. Then every run of the session, whatever the
  interleaving, has at most three steps per byte sent and can be continued to its end; and where a run can go no
  further, the whole stream was read, each packet was counted once, every response was written, in order and nothing
  else, and the session is open and waits for the next header.\<close>

theorem session_answers_stream:
  assumes registry: "distinct (sessions m)" "sid \<in> set (sessions m)"
    and packets: "\<forall>p \<in> set ps. valid_packet p \<and> h_type (p_header p) \<noteq> DISCONNECT"
    and run: "(calm_step le sid (stream_of le' ps) ^^ n) (start_session (Session_init ep), m) (c, m')"
  shows "n \<le> 3 * length (stream_of le' ps) \<and>
    (\<exists>k s'. (calm_step le sid (stream_of le' ps) ^^ k) (c, m') s' \<and> (\<nexists>s''. calm_step le sid (stream_of le' ps) s' s'')) \<and>
    ((\<nexists>s'. calm_step le sid (stream_of le' ps) (c, m') s') \<longrightarrow>
       history c = stream_of le' ps \<and>
       getTotalProcessedMessages m' = getTotalProcessedMessages m + of_nat (length ps) \<and>
       outgoing c = concat (concat (map (\<lambda>p. respond le (h_type (p_header p)) (p_payload p)) ps)) \<and>
       writeQueue c = [] \<and> socket_open c \<and> reading c = Some Read_header)"
proof (intro conjI impI)
  let ?S = "stream_of le' ps"
  show "n \<le> 3 * length ?S" using calm_run_bound [OF run] by (simp add: start_left)
  show "\<exists>k s'. (calm_step le sid ?S ^^ k) (c, m') s' \<and> (\<nexists>s''. calm_step le sid ?S s' s'')" by (rule calm_run_ends)
  assume stuck: "\<nexists>s'. calm_step le sid ?S (c, m') s'"
  have "session_reach le sid (c, m')" using calm_reach [OF run begin_session] registry by simp
  then obtain A where inv: "session_inv le A c" using session_reach_inv by fastforce
  obtain qs where frames: "on_frames le' ?S qs c"
    and count: "totalMessagesProcessed m' + of_nat (length qs) = totalMessagesProcessed m + of_nat (length ps)"
    using calm_run_on_frames [OF run on_frames_start [OF packets]] by auto
  note fin = calm_end [OF frames inv stuck]
  show "history c = ?S" "reading c = Some Read_header" using fin by simp_all
  show "getTotalProcessedMessages m' = getTotalProcessedMessages m + of_nat (length ps)"
    using count fin by (simp add: getTotalProcessedMessages_def)
  show "socket_open c" using frames inv by (simp add: on_frames_def session_inv_def)
  have "outgoing c = concat (serve le ?S) \<and> writeQueue c = []"
    using session_inv_idle [OF inv] fin frames by (simp add: on_frames_def HEADER_SIZE_def)
  then show "outgoing c = concat (concat (map (\<lambda>p. respond le (h_type (p_header p)) (p_payload p)) ps))" "writeQueue c = []"
    using serve_packets [OF packets, of le le'] by (simp_all add: stream_of_def)
qed

theorem session_answers_stream_witness:
  "\<exists>n c m. (calm_step True 1 (stream_of False [ping]) ^^ n) (start_session (Session_init None), one_session) (c, m) \<and>
     n \<le> 24 \<and> outgoing c = serializePacket True createPongPacket \<and> getTotalProcessedMessages m = 1"
proof -
  let ?S = "stream_of False [ping]" and ?s = "(start_session (Session_init None), one_session)"
  have ping: "\<forall>p \<in> set [ping]. valid_packet p \<and> h_type (p_header p) \<noteq> DISCONNECT"
    using valid_ping by (simp add: ping_def message_types)
  have reg: "distinct (sessions one_session)" "1 \<in> set (sessions one_session)"
    by (simp_all add: one_session_def addSession_def SessionManager_init_def)
  obtain n c m where run: "(calm_step True 1 ?S ^^ n) ?s (c, m)" and stuck: "\<nexists>s'. calm_step True 1 ?S (c, m) s'"
    using calm_run_ends [of True 1 ?S ?s] by auto
  have "length ?S = 8" by (simp add: frame_length HEADER_SIZE_def)
  moreover have "respond True (h_type (p_header ping)) (p_payload ping) = [serializePacket True createPongPacket]"
    by (simp add: ping_def respond_def response_def)
  moreover have "getTotalProcessedMessages one_session = 0"
    by (simp add: one_session_def addSession_def SessionManager_init_def getTotalProcessedMessages_def)
  ultimately show ?thesis
    using session_answers_stream [OF reg ping run] stuck run by (intro exI [of _ n] exI [of _ c] exI [of _ m]) simp
qed

text \<open>C30. What a request to disconnect does to the answers before it, and why \<open>session_answers_stream\<close> is about
  streams without one: a peer that sends a \<open>PING\<close> and then such a request, without waiting for the
  answer, can be left without it although nothing failed, because the stop closes the socket at
  once, whatever is queued or being written.\<close>

theorem disconnect_drops_replies:
  "\<exists>c m'. calm_steps le sid (stream_of le [ping, disconnect]) (start_session (Session_init None), m) (c, m') \<and>
    (\<nexists>s'. calm_step le sid (stream_of le [ping, disconnect]) (c, m') s') \<and>
    history c = stream_of le [ping, disconnect] \<and> isStopped c \<and>
    outgoing c = [] \<and> serve le (history c) = [serializePacket le createPongPacket]"
proof (intro exI conjI)
  let ?S = "stream_of le [ping, disconnect]"
  let ?final = "(hung_up_early le, removeSession sid (incrementProcessedMessages (incrementProcessedMessages m)))"
  show "calm_steps le sid ?S (start_session (Session_init None), m) ?final" by (rule hung_up_early_steps)
  show "\<nexists>s'. calm_step le sid ?S ?final s'"
    by (auto elim!: calm_stepE simp: hung_up_early_def prefix_def)
  show "serve le (history (hung_up_early le)) = [serializePacket le createPongPacket]"
    using serve_packet [OF valid_ping, of le le "serializePacket le disconnect"] serve_packet [OF valid_disconnect, of le le "[]"]
    by (simp add: hung_up_early_def ping_def disconnect_def respond_def response_def message_types)
qed (simp_all add: hung_up_early_def)

end
