(* ===== verification/Tests.thy ===== *)
theory Tests
  imports Lob_Demo Net_Protocol
begin

text \<open>
  The two test programs of the repository (\<open>02_LOB_Engine/tests/TestOrderBook.cpp\<close> and
  \<open>01_AsyncNet_Server/tests/TestProtocol.cpp\<close>), run on the model. A test is the lines it writes;
  \<open>None\<close> stands for a failed assertion or an exception, which end the program.
\<close>

definition assert :: "bool \<Rightarrow> unit option" where
  "assert c = (if c then Some () else None)"

section \<open>The order book\<close>

definition add_order ::
  "clock \<Rightarrow> OrderId \<Rightarrow> Side \<Rightarrow> Price \<Rightarrow> Quantity \<Rightarrow> OrderBook \<Rightarrow> (MatchEvent list \<times> OrderBook) option" where
  "add_order clk i sd p q b =
     (case addOrder clk i sd p q LIMIT b of
        Some (b', Inr matches) \<Rightarrow> Some (matches, b')
      | Some (b', Inl e) \<Rightarrow> None
      | None \<Rightarrow> None)"

definition testPriceTimePriority :: "clock \<Rightarrow> string list option" where
  "testPriceTimePriority clk = do {
     (_, book) \<leftarrow> add_order clk 1 SELL 100 50 OrderBook_init;
     (_, book) \<leftarrow> add_order clk 2 SELL 100 50 book;
     (matches, book) \<leftarrow> add_order clk 3 BUY 100 60 book;
     assert (length matches = 2);
     assert (makerOrderId (matches ! 0) = 1);
     assert (matchQuantity (matches ! 0) = 50);
     assert (makerOrderId (matches ! 1) = 2);
     assert (matchQuantity (matches ! 1) = 10);
     Some [''[PASS] testPriceTimePriority'']
   }"

definition testPartialAndFullFills :: "clock \<Rightarrow> string list option" where
  "testPartialAndFullFills clk = do {
     (_, book) \<leftarrow> add_order clk 10 BUY 150 100 OrderBook_init;
     (matches, book) \<leftarrow> add_order clk 20 SELL 150 40 book;
     assert (length matches = 1);
     assert (matchQuantity (matches ! 0) = 40);
     assert (getActiveOrdersCount book = 1);
     assert (getBestBid book \<noteq> None);
     assert (map_option fst (getBestBid book) = Some 150);
     assert (map_option snd (getBestBid book) = Some 60);
     Some [''[PASS] testPartialAndFullFills'']
   }"

definition testOrderCancellation :: "clock \<Rightarrow> string list option" where
  "testOrderCancellation clk = do {
     (_, book) \<leftarrow> add_order clk 100 BUY 200 500 OrderBook_init;
     assert (getActiveOrdersCount book = 1);
     let (book, canceled) = cancelOrder 100 book;
     assert canceled;
     assert (getActiveOrdersCount book = 0);
     assert (getBestBid book = None);
     Some [''[PASS] testOrderCancellation'']
   }"

definition order_book_tests :: "clock \<Rightarrow> string list option" where
  "order_book_tests clk = do {
     t1 \<leftarrow> testPriceTimePriority clk;
     t2 \<leftarrow> testPartialAndFullFills clk;
     t3 \<leftarrow> testOrderCancellation clk;
     Some ([''Running LOB-Engine Unit Test Suite...''] @ t1 @ t2 @ t3 @
       [''ALL LOB-ENGINE UNIT TESTS PASSED SUCCESSFULLY!''])
   }"

section \<open>The protocol\<close>

definition testHeaderSerialization :: "bool \<Rightarrow> string list option" where
  "testHeaderSerialization le = (
     let original = Header_default\<lparr>h_magic := MAGIC_HEADER, h_type := ECHO_REQUEST, h_length := 1024\<rparr>;
         bs = serializeHeader le original;
         (success, deserialized) = deserializeHeader le bs Header_default
     in do {
       assert (length bs = HEADER_SIZE);
       assert success;
       assert (h_magic deserialized = h_magic original);
       assert (h_type deserialized = h_type original);
       assert (h_length deserialized = h_length original);
       Some [''[PASS] testHeaderSerialization'']
     })"

definition testInvalidMagicHeader :: "bool \<Rightarrow> string list option" where
  "testInvalidMagicHeader le = (
     let original = Header_default\<lparr>h_magic := 0xDEAD, h_type := PING, h_length := 0\<rparr>;
         bs = serializeHeader le original;
         (success, deserialized) = deserializeHeader le bs Header_default
     in do {
       assert (\<not> success);
       Some [''[PASS] testInvalidMagicHeader'']
     })"

definition testPacketSerialization :: "bool \<Rightarrow> string list option" where
  "testPacketSerialization le = (
     let text = map of_char ''Hello AsyncNet Protocol'';
         originalPkt = \<lparr>p_header = Header_default\<lparr>h_magic := MAGIC_HEADER, h_type := ECHO_REQUEST,
           h_length := of_nat (length text)\<rparr>, p_payload = text\<rparr>;
         packetBytes = serializePacket le originalPkt;
         (success, parsedHeader) = deserializeHeader le packetBytes Header_default
     in do {
       assert (length packetBytes = HEADER_SIZE + length text);
       assert success;
       assert (unat (h_length parsedHeader) = length text);
       assert (h_type parsedHeader = ECHO_REQUEST);
       assert (drop HEADER_SIZE packetBytes = text);
       Some [''[PASS] testPacketSerialization'']
     })"

definition protocol_tests :: "bool \<Rightarrow> string list option" where
  "protocol_tests le = do {
     t1 \<leftarrow> testHeaderSerialization le;
     t2 \<leftarrow> testInvalidMagicHeader le;
     t3 \<leftarrow> testPacketSerialization le;
     Some ([''Running AsyncNet Protocol Unit Tests...''] @ t1 @ t2 @ t3 @
       [''ALL PROTOCOL UNIT TESTS PASSED SUCCESSFULLY!''])
   }"

section \<open>They pass\<close>

lemmas test_eval = add_order_def assert_def OrderBook_init_def DEFAULT_MAX_ORDERS_def DEFAULT_MAX_LEVELS_def book_eval
  getBestBid_def getActiveOrdersCount_def

lemma testPriceTimePriority: "testPriceTimePriority clk = Some [''[PASS] testPriceTimePriority'']"
  by (simp add: testPriceTimePriority_def test_eval cong: run_cong)

lemma testPartialAndFullFills: "testPartialAndFullFills clk = Some [''[PASS] testPartialAndFullFills'']"
  by (simp add: testPartialAndFullFills_def test_eval cong: run_cong)

lemma testOrderCancellation: "testOrderCancellation clk = Some [''[PASS] testOrderCancellation'']"
  by (simp add: testOrderCancellation_def test_eval cong: run_cong)

lemma protocol_tests:
  "testHeaderSerialization le = Some [''[PASS] testHeaderSerialization'']"
  "testInvalidMagicHeader le = Some [''[PASS] testInvalidMagicHeader'']"
  "testPacketSerialization le = Some [''[PASS] testPacketSerialization'']"
proof -
  have whole: "deserializeHeader le (serializeHeader le h) h0 = (h_magic h = MAGIC_HEADER, h)" for h h0
    using deserialize_serialize [of le le h "[]"] by simp
  show "testHeaderSerialization le = Some [''[PASS] testHeaderSerialization'']"
    by (simp add: testHeaderSerialization_def assert_def whole)
  have "0xDEAD \<noteq> MAGIC_HEADER" by (simp add: MAGIC_HEADER_def)
  then show "testInvalidMagicHeader le = Some [''[PASS] testInvalidMagicHeader'']"
    by (simp add: testInvalidMagicHeader_def assert_def whole)
  show "testPacketSerialization le = Some [''[PASS] testPacketSerialization'']"
    unfolding testPacketSerialization_def serializePacket_def
    by (simp add: assert_def deserialize_serialize Let_def)
qed

text \<open>Both test programs pass on the model: with any clock, and on a host of either byte order.\<close>

lemma unit_tests_pass:
  "order_book_tests clk = Some
     [''Running LOB-Engine Unit Test Suite...'',
      ''[PASS] testPriceTimePriority'', ''[PASS] testPartialAndFullFills'', ''[PASS] testOrderCancellation'',
      ''ALL LOB-ENGINE UNIT TESTS PASSED SUCCESSFULLY!''] \<and>
   protocol_tests le = Some
     [''Running AsyncNet Protocol Unit Tests...'',
      ''[PASS] testHeaderSerialization'', ''[PASS] testInvalidMagicHeader'', ''[PASS] testPacketSerialization'',
      ''ALL PROTOCOL UNIT TESTS PASSED SUCCESSFULLY!'']"
  by (simp add: order_book_tests_def protocol_tests_def testPriceTimePriority testPartialAndFullFills
      testOrderCancellation protocol_tests)

end
