(* ===== verification/CMake_Probe.thy ===== *)
theory CMake_Probe
  imports Net_Atoi "HOL-Library.Monad_Syntax"
begin

unbundle bit_operations_syntax

text \<open>
  The compiler probe that CMake left in both build trees
  (\<open>build/CMakeFiles/3.28.3/CompilerIdCXX/CMakeCXXCompilerId.cpp\<close>, the same file twice): the
  preprocessor turns the macros a compiler predefines into strings, which CMake finds in the binary,
  and \<open>main\<close> touches each of them so that none is dropped.

  A compiler is modelled by its predefined macros. In a condition an identifier that is no macro
  counts as 0; in a version component it does not compile. Where a branch defines a macro twice
  (a compiler that simulates both MSVC and GNU) compilers warn and take the last definition.
\<close>

datatype macro = Number nat | Literal string | Flag

type_synonym macros = "string \<Rightarrow> macro option"

definition defd :: "macros \<Rightarrow> string \<Rightarrow> bool" where
  "defd M x \<longleftrightarrow> M x \<noteq> None"

definition any_defd :: "macros \<Rightarrow> string list \<Rightarrow> bool" where
  "any_defd M xs = list_ex (defd M) xs"

definition number :: "macros \<Rightarrow> string \<Rightarrow> nat option" where
  "number M x = (case M x of Some (Number n) \<Rightarrow> Some n | _ \<Rightarrow> None)"

definition value_in_if :: "macros \<Rightarrow> string \<Rightarrow> nat" where
  "value_in_if M x = (case number M x of Some n \<Rightarrow> n | None \<Rightarrow> 0)"

section \<open>Version components\<close>

definition digit :: "nat \<Rightarrow> char" where
  "digit d = char_of (48 + d)"

definition DEC :: "nat \<Rightarrow> string" where
  "DEC n =
    [digit (n div 10000000 mod 10),
     digit (n div 1000000 mod 10),
     digit (n div 100000 mod 10),
     digit (n div 10000 mod 10),
     digit (n div 1000 mod 10),
     digit (n div 100 mod 10),
     digit (n div 10 mod 10),
     digit (n mod 10)]"

definition HEX :: "nat \<Rightarrow> string" where
  "HEX n =
    [digit (drop_bit 28 n AND 0xF),
     digit (drop_bit 24 n AND 0xF),
     digit (drop_bit 20 n AND 0xF),
     digit (drop_bit 16 n AND 0xF),
     digit (drop_bit 12 n AND 0xF),
     digit (drop_bit 8 n AND 0xF),
     digit (drop_bit 4 n AND 0xF),
     digit (n AND 0xF)]"

text \<open>The state of a macro for a version component: not defined, defined, or defined by something that does not compile.\<close>

datatype component = Absent | Digits string | Illformed

definition dec :: "macros \<Rightarrow> string \<Rightarrow> (nat \<Rightarrow> nat) \<Rightarrow> component" where
  "dec M x f = (case number M x of Some n \<Rightarrow> Digits (DEC (f n)) | None \<Rightarrow> Illformed)"

definition hex :: "macros \<Rightarrow> string \<Rightarrow> (nat \<Rightarrow> nat) \<Rightarrow> component" where
  "hex M x f = (case number M x of Some n \<Rightarrow> Digits (HEX (f n)) | None \<Rightarrow> Illformed)"

text \<open>\<open># if defined(x)\<close> around the definition of a component by \<open>DEC(x)\<close>.\<close>

definition dec_if :: "macros \<Rightarrow> string \<Rightarrow> component" where
  "dec_if M x = (if defd M x then dec M x (\<lambda>v. v) else Absent)"

record identification =
  COMPILER_ID :: string
  SIMULATE_ID :: "string option"
  MAJOR :: component
  MINOR :: component
  PATCH :: component
  TWEAK :: component
  INTERNAL :: component
  INTERNAL_STR :: "string option" \<comment> \<open>the macro whose text is the internal version\<close>
  VERSION_STR :: "string option" \<comment> \<open>the macro whose text is the whole version\<close>
  SIM_MAJOR :: component
  SIM_MINOR :: component
  SIM_PATCH :: component

definition compiler :: "string \<Rightarrow> identification" where
  "compiler i = \<lparr>COMPILER_ID = i, SIMULATE_ID = None, MAJOR = Absent, MINOR = Absent, PATCH = Absent, TWEAK = Absent,
     INTERNAL = Absent, INTERNAL_STR = None, VERSION_STR = None, SIM_MAJOR = Absent, SIM_MINOR = Absent, SIM_PATCH = Absent\<rparr>"

definition version :: "component \<Rightarrow> component \<Rightarrow> component \<Rightarrow> identification \<Rightarrow> identification" where
  "version a b c i = i\<lparr>MAJOR := a, MINOR := b, PATCH := c\<rparr>"

text \<open>The lines several branches share: the version of the simulated MSVC, and of the simulated GNU.\<close>

definition simulate_MSVC :: "macros \<Rightarrow> identification \<Rightarrow> identification" where
  "simulate_MSVC M i =
     (if defd M ''_MSC_VER'' then
        i\<lparr>SIMULATE_ID := Some ''MSVC'', SIM_MAJOR := dec M ''_MSC_VER'' (\<lambda>v. v div 100),
          SIM_MINOR := dec M ''_MSC_VER'' (\<lambda>v. v mod 100)\<rparr>
      else i)"

definition simulate_GNU :: "macros \<Rightarrow> identification \<Rightarrow> identification" where
  "simulate_GNU M i =
     (let i = (if defd M ''__GNUC__'' then i\<lparr>SIMULATE_ID := Some ''GNU''\<rparr> else i);
          i = (if defd M ''__GNUC__'' then i\<lparr>SIM_MAJOR := dec M ''__GNUC__'' (\<lambda>v. v)\<rparr>
               else if defd M ''__GNUG__'' then i\<lparr>SIM_MAJOR := dec M ''__GNUG__'' (\<lambda>v. v)\<rparr> else i);
          i = (if defd M ''__GNUC_MINOR__'' then i\<lparr>SIM_MINOR := dec M ''__GNUC_MINOR__'' (\<lambda>v. v)\<rparr> else i)
      in if defd M ''__GNUC_PATCHLEVEL__'' then i\<lparr>SIM_PATCH := dec M ''__GNUC_PATCHLEVEL__'' (\<lambda>v. v)\<rparr> else i)"

section \<open>The compilers\<close>

text \<open>The branches of the chain in their order, each with its condition; the first that holds is taken.\<close>

definition intel :: "macros \<Rightarrow> identification" where
  "intel M =
     (let v = value_in_if M ''__INTEL_COMPILER'';
          i = (if v < 2021 \<or> v = 202110 \<or> v = 202111 then
                 version (dec M ''__INTEL_COMPILER'' (\<lambda>v. v div 100)) (dec M ''__INTEL_COMPILER'' (\<lambda>v. v div 10 mod 10))
                   (if defd M ''__INTEL_COMPILER_UPDATE'' then dec M ''__INTEL_COMPILER_UPDATE'' (\<lambda>v. v)
                    else dec M ''__INTEL_COMPILER'' (\<lambda>v. v mod 10)) (compiler ''Intel'')
               else
                 version (dec M ''__INTEL_COMPILER'' (\<lambda>v. v)) (dec M ''__INTEL_COMPILER_UPDATE'' (\<lambda>v. v))
                   (Digits (DEC 0)) (compiler ''Intel''))
      in simulate_GNU M (simulate_MSVC M (i\<lparr>TWEAK := dec_if M ''__INTEL_COMPILER_BUILD_DATE''\<rparr>)))"

definition intel_llvm :: "macros \<Rightarrow> identification" where
  "intel_llvm M =
     (let x = ''__INTEL_LLVM_COMPILER'';
          i = (if value_in_if M x < 1000000 then
                 version (dec M x (\<lambda>v. v div 100)) (dec M x (\<lambda>v. v div 10 mod 10)) (dec M x (\<lambda>v. v mod 10))
                   (compiler ''IntelLLVM'')
               else
                 version (dec M x (\<lambda>v. v div 10000)) (dec M x (\<lambda>v. v div 100 mod 100)) (dec M x (\<lambda>v. v mod 100))
                   (compiler ''IntelLLVM''))
      in simulate_GNU M (simulate_MSVC M i))"

definition watcom_patch :: "macros \<Rightarrow> component" where
  "watcom_patch M =
     (if value_in_if M ''__WATCOMC__'' mod 10 > 0 then dec M ''__WATCOMC__'' (\<lambda>v. v mod 10) else Absent)"

definition sunpro :: "macros \<Rightarrow> identification" where
  "sunpro M =
     (let x = ''__SUNPRO_CC'' in
      if value_in_if M x \<ge> 0x5100 then
        version (hex M x (\<lambda>v. drop_bit 12 v)) (hex M x (\<lambda>v. drop_bit 4 v AND 0xFF)) (hex M x (\<lambda>v. v AND 0xF)) (compiler ''SunPro'')
      else
        version (hex M x (\<lambda>v. drop_bit 8 v)) (hex M x (\<lambda>v. drop_bit 4 v AND 0xF)) (hex M x (\<lambda>v. v AND 0xF)) (compiler ''SunPro''))"

definition ibm_VRP :: "macros \<Rightarrow> string \<Rightarrow> identification" where
  "ibm_VRP M i =
     version (dec M ''__IBMCPP__'' (\<lambda>v. v div 100)) (dec M ''__IBMCPP__'' (\<lambda>v. v div 10 mod 10))
       (dec M ''__IBMCPP__'' (\<lambda>v. v mod 10)) (compiler i)"

definition compilers_1 :: "macros \<Rightarrow> (bool \<times> identification) list" where
  "compilers_1 M =
    [(defd M ''__COMO__'',
        version (dec M ''__COMO_VERSION__'' (\<lambda>v. v div 100)) (dec M ''__COMO_VERSION__'' (\<lambda>v. v mod 100)) Absent
          (compiler ''Comeau'')),
     (defd M ''__INTEL_COMPILER'' \<or> defd M ''__ICC'', intel M),
     ((defd M ''__clang__'' \<and> defd M ''__INTEL_CLANG_COMPILER'') \<or> defd M ''__INTEL_LLVM_COMPILER'', intel_llvm M),
     (defd M ''__PATHCC__'',
        version (dec M ''__PATHCC__'' (\<lambda>v. v)) (dec M ''__PATHCC_MINOR__'' (\<lambda>v. v)) (dec_if M ''__PATHCC_PATCHLEVEL__'')
          (compiler ''PathScale'')),
     (defd M ''__BORLANDC__'' \<and> defd M ''__CODEGEARC_VERSION__'',
        version (hex M ''__CODEGEARC_VERSION__'' (\<lambda>v. drop_bit 24 v AND 0xFF))
          (hex M ''__CODEGEARC_VERSION__'' (\<lambda>v. drop_bit 16 v AND 0xFF))
          (dec M ''__CODEGEARC_VERSION__'' (\<lambda>v. v AND 0xFFFF)) (compiler ''Embarcadero'')),
     (defd M ''__BORLANDC__'',
        version (hex M ''__BORLANDC__'' (\<lambda>v. drop_bit 8 v)) (hex M ''__BORLANDC__'' (\<lambda>v. v AND 0xFF)) Absent
          (compiler ''Borland'')),
     (defd M ''__WATCOMC__'' \<and> value_in_if M ''__WATCOMC__'' < 1200,
        version (dec M ''__WATCOMC__'' (\<lambda>v. v div 100)) (dec M ''__WATCOMC__'' (\<lambda>v. v div 10 mod 10)) (watcom_patch M)
          (compiler ''Watcom'')),
     (defd M ''__WATCOMC__'',
        version (dec M ''__WATCOMC__'' (\<lambda>v. (v - 1100) div 100)) (dec M ''__WATCOMC__'' (\<lambda>v. v div 10 mod 10)) (watcom_patch M)
          (compiler ''OpenWatcom'')),
     (defd M ''__SUNPRO_CC'', sunpro M),
     (defd M ''__HP_aCC'',
        version (dec M ''__HP_aCC'' (\<lambda>v. v div 10000)) (dec M ''__HP_aCC'' (\<lambda>v. v div 100 mod 100))
          (dec M ''__HP_aCC'' (\<lambda>v. v mod 100)) (compiler ''HP'')),
     (defd M ''__DECCXX'',
        version (dec M ''__DECCXX_VER'' (\<lambda>v. v div 10000000)) (dec M ''__DECCXX_VER'' (\<lambda>v. v div 100000 mod 100))
          (dec M ''__DECCXX_VER'' (\<lambda>v. v mod 10000)) (compiler ''Compaq''))]"

definition compilers_2 :: "macros \<Rightarrow> (bool \<times> identification) list" where
  "compilers_2 M =
    [(defd M ''__IBMCPP__'' \<and> defd M ''__COMPILER_VER__'', ibm_VRP M ''zOS''),
     (defd M ''__open_xl__'' \<and> defd M ''__clang__'',
        (version (dec M ''__open_xl_version__'' (\<lambda>v. v)) (dec M ''__open_xl_release__'' (\<lambda>v. v))
          (dec M ''__open_xl_modification__'' (\<lambda>v. v)) (compiler ''IBMClang''))
          \<lparr>TWEAK := dec M ''__open_xl_ptf_fix_level__'' (\<lambda>v. v)\<rparr>),
     (defd M ''__ibmxl__'' \<and> defd M ''__clang__'',
        (version (dec M ''__ibmxl_version__'' (\<lambda>v. v)) (dec M ''__ibmxl_release__'' (\<lambda>v. v))
          (dec M ''__ibmxl_modification__'' (\<lambda>v. v)) (compiler ''XLClang''))
          \<lparr>TWEAK := dec M ''__ibmxl_ptf_fix_level__'' (\<lambda>v. v)\<rparr>),
     (defd M ''__IBMCPP__'' \<and> \<not> defd M ''__COMPILER_VER__'' \<and> value_in_if M ''__IBMCPP__'' \<ge> 800, ibm_VRP M ''XL''),
     (defd M ''__IBMCPP__'' \<and> \<not> defd M ''__COMPILER_VER__'' \<and> value_in_if M ''__IBMCPP__'' < 800, ibm_VRP M ''VisualAge''),
     (defd M ''__NVCOMPILER'',
        version (dec M ''__NVCOMPILER_MAJOR__'' (\<lambda>v. v)) (dec M ''__NVCOMPILER_MINOR__'' (\<lambda>v. v))
          (dec_if M ''__NVCOMPILER_PATCHLEVEL__'') (compiler ''NVHPC'')),
     (defd M ''__PGI'',
        version (dec M ''__PGIC__'' (\<lambda>v. v)) (dec M ''__PGIC_MINOR__'' (\<lambda>v. v)) (dec_if M ''__PGIC_PATCHLEVEL__'')
          (compiler ''PGI'')),
     (defd M ''__clang__'' \<and> defd M ''__cray__'',
        (version (dec M ''__cray_major__'' (\<lambda>v. v)) (dec M ''__cray_minor__'' (\<lambda>v. v)) (dec M ''__cray_patchlevel__'' (\<lambda>v. v))
          (compiler ''CrayClang'')) \<lparr>INTERNAL_STR := Some ''__clang_version__''\<rparr>),
     (defd M ''_CRAYC'',
        version (dec M ''_RELEASE_MAJOR'' (\<lambda>v. v)) (dec M ''_RELEASE_MINOR'' (\<lambda>v. v)) Absent (compiler ''Cray'')),
     (defd M ''__TI_COMPILER_VERSION__'',
        version (dec M ''__TI_COMPILER_VERSION__'' (\<lambda>v. v div 1000000)) (dec M ''__TI_COMPILER_VERSION__'' (\<lambda>v. v div 1000 mod 1000))
          (dec M ''__TI_COMPILER_VERSION__'' (\<lambda>v. v mod 1000)) (compiler ''TI'')),
     (defd M ''__CLANG_FUJITSU'',
        (version (dec M ''__FCC_major__'' (\<lambda>v. v)) (dec M ''__FCC_minor__'' (\<lambda>v. v)) (dec M ''__FCC_patchlevel__'' (\<lambda>v. v))
          (compiler ''FujitsuClang'')) \<lparr>INTERNAL_STR := Some ''__clang_version__''\<rparr>),
     (defd M ''__FUJITSU'',
        (if defd M ''__FCC_version__'' then (compiler ''Fujitsu'')\<lparr>VERSION_STR := Some ''__FCC_version__''\<rparr>
         else if defd M ''__FCC_major__'' then
           version (dec M ''__FCC_major__'' (\<lambda>v. v)) (dec M ''__FCC_minor__'' (\<lambda>v. v)) (dec M ''__FCC_patchlevel__'' (\<lambda>v. v))
             (compiler ''Fujitsu'')
         else compiler ''Fujitsu'')
        \<lparr>INTERNAL := (if defd M ''__fcc_version'' then dec M ''__fcc_version'' (\<lambda>v. v)
                      else if defd M ''__FCC_VERSION'' then dec M ''__FCC_VERSION'' (\<lambda>v. v) else Absent)\<rparr>),
     (defd M ''__ghs__'',
        if defd M ''__GHS_VERSION_NUMBER'' then
          version (dec M ''__GHS_VERSION_NUMBER'' (\<lambda>v. v div 100)) (dec M ''__GHS_VERSION_NUMBER'' (\<lambda>v. v div 10 mod 10))
            (dec M ''__GHS_VERSION_NUMBER'' (\<lambda>v. v mod 10)) (compiler ''GHS'')
        else compiler ''GHS''),
     (defd M ''__TASKING__'',
        (version (dec M ''__VERSION__'' (\<lambda>v. v div 1000)) (dec M ''__VERSION__'' (\<lambda>v. v mod 100)) Absent (compiler ''Tasking''))
          \<lparr>INTERNAL := dec M ''__VERSION__'' (\<lambda>v. v)\<rparr>),
     (defd M ''__ORANGEC__'',
        version (dec M ''__ORANGEC_MAJOR__'' (\<lambda>v. v)) (dec M ''__ORANGEC_MINOR__'' (\<lambda>v. v)) (dec M ''__ORANGEC_PATCHLEVEL__'' (\<lambda>v. v))
          (compiler ''OrangeC'')),
     (defd M ''__SCO_VERSION__'', compiler ''SCO'')]"

definition clang_version :: "macros \<Rightarrow> string \<Rightarrow> identification" where
  "clang_version M i =
     simulate_MSVC M (version (dec M ''__clang_major__'' (\<lambda>v. v)) (dec M ''__clang_minor__'' (\<lambda>v. v))
       (dec M ''__clang_patchlevel__'' (\<lambda>v. v)) (compiler i))"

definition armcc :: "macros \<Rightarrow> identification" where
  "armcc M =
     (let x = ''__ARMCC_VERSION'' in
      if value_in_if M x \<ge> 1000000 then
        version (dec M x (\<lambda>v. v div 1000000)) (dec M x (\<lambda>v. v div 10000 mod 100)) (dec M x (\<lambda>v. v mod 10000)) (compiler ''ARMCC'')
      else
        version (dec M x (\<lambda>v. v div 100000)) (dec M x (\<lambda>v. v div 10000 mod 10)) (dec M x (\<lambda>v. v mod 10000)) (compiler ''ARMCC''))"

definition lcc :: "macros \<Rightarrow> identification" where
  "lcc M =
     (let i = version (dec M ''__LCC__'' (\<lambda>v. v div 100)) (dec M ''__LCC__'' (\<lambda>v. v mod 100)) (dec_if M ''__LCC_MINOR__'')
            (compiler ''LCC'') in
      if defd M ''__GNUC__'' \<and> defd M ''__GNUC_MINOR__'' then
        i\<lparr>SIMULATE_ID := Some ''GNU'', SIM_MAJOR := dec M ''__GNUC__'' (\<lambda>v. v), SIM_MINOR := dec M ''__GNUC_MINOR__'' (\<lambda>v. v),
          SIM_PATCH := dec_if M ''__GNUC_PATCHLEVEL__''\<rparr>
      else i)"

definition msvc :: "macros \<Rightarrow> identification" where
  "msvc M =
     (version (dec M ''_MSC_VER'' (\<lambda>v. v div 100)) (dec M ''_MSC_VER'' (\<lambda>v. v mod 100))
       (if defd M ''_MSC_FULL_VER'' then
          if value_in_if M ''_MSC_VER'' \<ge> 1400 then dec M ''_MSC_FULL_VER'' (\<lambda>v. v mod 100000)
          else dec M ''_MSC_FULL_VER'' (\<lambda>v. v mod 10000)
        else Absent) (compiler ''MSVC''))
     \<lparr>TWEAK := dec_if M ''_MSC_BUILD''\<rparr>"

definition iar :: "macros \<Rightarrow> identification" where
  "iar M =
     (if defd M ''__VER__'' \<and> defd M ''__ICCARM__'' then
        (version (dec M ''__VER__'' (\<lambda>v. v div 1000000)) (dec M ''__VER__'' (\<lambda>v. v div 1000 mod 1000))
          (dec M ''__VER__'' (\<lambda>v. v mod 1000)) (compiler ''IAR''))
        \<lparr>INTERNAL := dec M ''__IAR_SYSTEMS_ICC__'' (\<lambda>v. v)\<rparr>
      else if defd M ''__VER__'' \<and> any_defd M [''__ICCAVR__'', ''__ICCRX__'', ''__ICCRH850__'', ''__ICCRL78__'', ''__ICC430__'',
          ''__ICCRISCV__'', ''__ICCV850__'', ''__ICC8051__'', ''__ICCSTM8__''] then
        (version (dec M ''__VER__'' (\<lambda>v. v div 100)) (dec M ''__VER__'' (\<lambda>v. v - v div 100 * 100))
          (dec M ''__SUBVERSION__'' (\<lambda>v. v)) (compiler ''IAR''))
        \<lparr>INTERNAL := dec M ''__IAR_SYSTEMS_ICC__'' (\<lambda>v. v)\<rparr>
      else compiler ''IAR'')"

definition compilers_3 :: "macros \<Rightarrow> (bool \<times> identification) list" where
  "compilers_3 M =
    [(defd M ''__ARMCC_VERSION'' \<and> \<not> defd M ''__clang__'', armcc M),
     (defd M ''__clang__'' \<and> defd M ''__apple_build_version__'',
        (clang_version M ''AppleClang'')\<lparr>TWEAK := dec M ''__apple_build_version__'' (\<lambda>v. v)\<rparr>),
     (defd M ''__clang__'' \<and> defd M ''__ARMCOMPILER_VERSION'',
        (version (dec M ''__ARMCOMPILER_VERSION'' (\<lambda>v. v div 1000000)) (dec M ''__ARMCOMPILER_VERSION'' (\<lambda>v. v div 10000 mod 100))
          (dec M ''__ARMCOMPILER_VERSION'' (\<lambda>v. v div 100 mod 100)) (compiler ''ARMClang''))
        \<lparr>INTERNAL := dec M ''__ARMCOMPILER_VERSION'' (\<lambda>v. v)\<rparr>),
     (defd M ''__clang__'', clang_version M ''Clang''),
     (defd M ''__LCC__'' \<and> any_defd M [''__GNUC__'', ''__GNUG__'', ''__MCST__''], lcc M),
     (defd M ''__GNUC__'' \<or> defd M ''__GNUG__'',
        version (if defd M ''__GNUC__'' then dec M ''__GNUC__'' (\<lambda>v. v) else dec M ''__GNUG__'' (\<lambda>v. v))
          (dec_if M ''__GNUC_MINOR__'') (dec_if M ''__GNUC_PATCHLEVEL__'') (compiler ''GNU'')),
     (defd M ''_MSC_VER'', msvc M),
     (defd M ''_ADI_COMPILER'',
        if defd M ''__VERSIONNUM__'' then
          (version (dec M ''__VERSIONNUM__'' (\<lambda>v. drop_bit 24 v AND 0xFF)) (dec M ''__VERSIONNUM__'' (\<lambda>v. drop_bit 16 v AND 0xFF))
            (dec M ''__VERSIONNUM__'' (\<lambda>v. drop_bit 8 v AND 0xFF)) (compiler ''ADSP''))
          \<lparr>TWEAK := dec M ''__VERSIONNUM__'' (\<lambda>v. v AND 0xFF)\<rparr>
        else compiler ''ADSP''),
     (defd M ''__IAR_SYSTEMS_ICC__'' \<or> defd M ''__IAR_SYSTEMS_ICC'', iar M),
     (defd M ''__hpux'' \<or> defd M ''__hpua'', compiler ''HP'')]"

fun first_match :: "'a \<Rightarrow> (bool \<times> 'a) list \<Rightarrow> 'a" where
  "first_match d [] = d"
| "first_match d ((c, x) # bs) = (if c then x else first_match d bs)"

definition identify :: "macros \<Rightarrow> identification" where
  "identify M = first_match (compiler []) (compilers_1 M @ compilers_2 M @ compilers_3 M)"

section \<open>Platform and architecture\<close>

definition platform_id :: "macros \<Rightarrow> string" where
  "platform_id M = first_match []
    [(any_defd M [''__linux'', ''__linux__'', ''linux''], ''Linux''),
     (defd M ''__MSYS__'', ''MSYS''),
     (defd M ''__CYGWIN__'', ''Cygwin''),
     (defd M ''__MINGW32__'', ''MinGW''),
     (defd M ''__APPLE__'', ''Darwin''),
     (any_defd M [''_WIN32'', ''__WIN32__'', ''WIN32''], ''Windows''),
     (any_defd M [''__FreeBSD__'', ''__FreeBSD''], ''FreeBSD''),
     (any_defd M [''__NetBSD__'', ''__NetBSD''], ''NetBSD''),
     (any_defd M [''__OpenBSD__'', ''__OPENBSD''], ''OpenBSD''),
     (any_defd M [''__sun'', ''sun''], ''SunOS''),
     (any_defd M [''_AIX'', ''__AIX'', ''__AIX__'', ''__aix'', ''__aix__''], ''AIX''),
     (any_defd M [''__hpux'', ''__hpux__''], ''HP-UX''),
     (defd M ''__HAIKU__'', ''Haiku''),
     (any_defd M [''__BeOS'', ''__BEOS__'', ''_BEOS''], ''BeOS''),
     (any_defd M [''__QNX__'', ''__QNXNTO__''], ''QNX''),
     (any_defd M [''__tru64'', ''_tru64'', ''__TRU64__''], ''Tru64''),
     (any_defd M [''__riscos'', ''__riscos__''], ''RISCos''),
     (any_defd M [''__sinix'', ''__sinix__'', ''__SINIX__''], ''SINIX''),
     (defd M ''__UNIX_SV__'', ''UNIX_SV''),
     (defd M ''__bsdos__'', ''BSDOS''),
     (any_defd M [''_MPRAS'', ''MPRAS''], ''MP-RAS''),
     (any_defd M [''__osf'', ''__osf__''], ''OSF1''),
     (any_defd M [''_SCO_SV'', ''SCO_SV'', ''sco_sv''], ''SCO_SV''),
     (any_defd M [''__ultrix'', ''__ultrix__'', ''_ULTRIX''], ''ULTRIX''),
     (any_defd M [''__XENIX__'', ''_XENIX'', ''XENIX''], ''Xenix''),
     (defd M ''__WATCOMC__'', first_match []
       [(defd M ''__LINUX__'', ''Linux''),
        (defd M ''__DOS__'', ''DOS''),
        (defd M ''__OS2__'', ''OS2''),
        (defd M ''__WINDOWS__'', ''Windows3x''),
        (defd M ''__VXWORKS__'', ''VxWorks'')]),
     (defd M ''__INTEGRITY'', if defd M ''INT_178B'' then ''Integrity178'' else ''Integrity''),
     (defd M ''_ADI_COMPILER'', ''ADSP'')]"

definition msvc_arch :: "macros \<Rightarrow> string" where
  "msvc_arch M = first_match []
    [(defd M ''_M_IA64'', ''IA64''),
     (defd M ''_M_ARM64EC'', ''ARM64EC''),
     (defd M ''_M_X64'' \<or> defd M ''_M_AMD64'', ''x64''),
     (defd M ''_M_IX86'', ''X86''),
     (defd M ''_M_ARM64'', ''ARM64''),
     (defd M ''_M_ARM'',
        if value_in_if M ''_M_ARM'' = 4 then ''ARMV4I''
        else if value_in_if M ''_M_ARM'' = 5 then ''ARMV5I''
        else ''ARMV'' @ (case M ''_M_ARM'' of Some (Number n) \<Rightarrow> decimal n | Some (Literal s) \<Rightarrow> s | _ \<Rightarrow> [])),
     (defd M ''_M_MIPS'', ''MIPS''),
     (defd M ''_M_SH'', ''SHx'')]"

definition architecture_id :: "macros \<Rightarrow> string" where
  "architecture_id M = first_match []
    [(defd M ''_WIN32'' \<and> defd M ''_MSC_VER'', msvc_arch M),
     (defd M ''__WATCOMC__'', first_match []
       [(defd M ''_M_I86'', ''I86''), (defd M ''_M_IX86'', ''X86'')]),
     (defd M ''__IAR_SYSTEMS_ICC__'' \<or> defd M ''__IAR_SYSTEMS_ICC'', first_match []
       [(defd M ''__ICCARM__'', ''ARM''), (defd M ''__ICCRX__'', ''RX''), (defd M ''__ICCRH850__'', ''RH850''),
        (defd M ''__ICCRL78__'', ''RL78''), (defd M ''__ICCRISCV__'', ''RISCV''), (defd M ''__ICCAVR__'', ''AVR''),
        (defd M ''__ICC430__'', ''MSP430''), (defd M ''__ICCV850__'', ''V850''), (defd M ''__ICC8051__'', ''8051''),
        (defd M ''__ICCSTM8__'', ''STM8'')]),
     (defd M ''__ghs__'', first_match []
       [(defd M ''__PPC64__'', ''PPC64''), (defd M ''__ppc__'', ''PPC''), (defd M ''__ARM__'', ''ARM''),
        (defd M ''__x86_64__'', ''x64''), (defd M ''__i386__'', ''X86'')]),
     (defd M ''__TI_COMPILER_VERSION__'', first_match []
       [(defd M ''__TI_ARM__'', ''ARM''), (defd M ''__MSP430__'', ''MSP430''), (defd M ''__TMS320C28XX__'', ''TMS320C28x''),
        (defd M ''__TMS320C6X__'' \<or> defd M ''_TMS320C6X'', ''TMS320C6x'')]),
     (defd M ''__ADSPSHARC__'', ''SHARC''),
     (defd M ''__ADSPBLACKFIN__'', ''Blackfin''),
     (defd M ''__TASKING__'', first_match []
       [(defd M ''__CTC__'' \<or> defd M ''__CPTC__'', ''TriCore''), (defd M ''__CMCS__'', ''MCS''), (defd M ''__CARM__'', ''ARM''),
        (defd M ''__CARC__'', ''ARC''), (defd M ''__C51__'', ''8051''), (defd M ''__CPCP__'', ''PCP'')])]"

section \<open>The strings\<close>

text \<open>The language standard the compiler takes by default, and whether its extensions are on.\<close>

definition cxx_std :: "macros \<Rightarrow> nat" where
  "cxx_std M =
     (if defd M ''__INTEL_COMPILER'' \<and> defd M ''_MSVC_LANG'' \<and> value_in_if M ''_MSVC_LANG'' < 201403 then
        (if defd M ''__INTEL_CXX11_MODE__'' then if defd M ''__cpp_aggregate_nsdmi'' then 201402 else 201103
         else 199711)
      else if defd M ''_MSC_VER'' \<and> defd M ''_MSVC_LANG'' then value_in_if M ''_MSVC_LANG''
      else value_in_if M ''__cplusplus'')"

definition standard_default :: "nat \<Rightarrow> string" where
  "standard_default std =
     (if std > 202002 then ''23''
      else if std > 201703 then ''20''
      else if std \<ge> 201703 then ''17''
      else if std \<ge> 201402 then ''14''
      else if std \<ge> 201103 then ''11''
      else ''98'')"

definition extensions_default :: "macros \<Rightarrow> string" where
  "extensions_default M =
     (if any_defd M [''__clang__'', ''__GNUC__'', ''__xlC__'', ''__TI_COMPILER_VERSION__''] \<and> \<not> defd M ''__STRICT_ANSI__''
      then ''ON'' else ''OFF'')"

text \<open>\<open>None\<close> when a component does not compile. Each further component is written only after the one before it.\<close>

fun components :: "component list \<Rightarrow> string option" where
  "components [] = Some []"
| "components (Absent # cs) = Some []"
| "components (Illformed # cs) = None"
| "components (Digits ds # cs) = map_option (\<lambda>rest. ''.'' @ ds @ rest) (components cs)"

definition bracketed :: "string \<Rightarrow> string \<Rightarrow> string" where
  "bracketed name content = ''INFO:'' @ name @ ''['' @ content @ '']''"

definition info_array :: "string \<Rightarrow> component list \<Rightarrow> string option" where
  "info_array name cs = map_option (\<lambda>s. bracketed name (tl s)) (components cs)"

text \<open>
  The strings of the binary that \<open>main\<close> reads, in its order, and those it does not. The file is rejected
  by a compiler for C, which does not define \<open>__cplusplus\<close>.
\<close>

definition optional :: "bool \<Rightarrow> 'a option \<Rightarrow> 'a list option" where
  "optional c x = (if c then map_option (\<lambda>x. [x]) x else Some [])"

definition read_strings :: "macros \<Rightarrow> string list option" where
  "read_strings M = (let i = identify M in
     if \<not> defd M ''__cplusplus'' then None else do {
       version \<leftarrow> optional (MAJOR i \<noteq> Absent) (info_array ''compiler_version'' [MAJOR i, MINOR i, PATCH i, TWEAK i]);
       internal \<leftarrow> optional (INTERNAL i \<noteq> Absent) (info_array ''compiler_version_internal'' [INTERNAL i]);
       simulated \<leftarrow> optional (SIM_MAJOR i \<noteq> Absent) (info_array ''simulate_version'' [SIM_MAJOR i, SIM_MINOR i, SIM_PATCH i]);
       Some (
         [bracketed ''compiler'' (COMPILER_ID i), bracketed ''platform'' (platform_id M), bracketed ''arch'' (architecture_id M)] @
         version @ internal @
         (case SIMULATE_ID i of None \<Rightarrow> [] | Some s \<Rightarrow> [bracketed ''simulate'' s]) @
         simulated @
         (if defd M ''__CRAYXT_COMPUTE_LINUX_TARGET'' then [bracketed ''compiler_wrapper'' ''CrayPrgEnv''] else []) @
         [bracketed ''standard_default'' (standard_default (cxx_std M)),
          bracketed ''extensions_default'' (extensions_default M)])
     })"

definition literal :: "macros \<Rightarrow> string \<Rightarrow> string option" where
  "literal M x = (case M x of Some (Literal s) \<Rightarrow> Some s | _ \<Rightarrow> None)"

definition unread_strings :: "macros \<Rightarrow> string list option" where
  "unread_strings M = (let i = identify M in do {
       whole \<leftarrow> (case VERSION_STR i of None \<Rightarrow> Some []
         | Some x \<Rightarrow> map_option (\<lambda>s. [bracketed ''compiler_version'' s]) (literal M x));
       internal \<leftarrow> (case INTERNAL_STR i of None \<Rightarrow> Some []
         | Some x \<Rightarrow> map_option (\<lambda>s. [bracketed ''compiler_version_internal'' s]) (literal M x));
       Some (whole @ internal @ (if defd M ''__QNXNTO__'' then [bracketed ''qnxnto'' []] else []))
     })"

definition probe_strings :: "macros \<Rightarrow> string list option" where
  "probe_strings M = do { r \<leftarrow> read_strings M; u \<leftarrow> unread_strings M; Some (r @ u) }"

section \<open>The program\<close>

text \<open>The element of a string at an index, its terminating zero included; \<open>None\<close> when the index is out of bounds.\<close>

definition char_at :: "string \<Rightarrow> nat \<Rightarrow> nat option" where
  "char_at s i = (if i < length s then Some (of_char (s ! i)) else if i = length s then Some 0 else None)"

fun sum_at :: "string list \<Rightarrow> nat \<Rightarrow> nat \<Rightarrow> nat option" where
  "sum_at [] argc require = Some require"
| "sum_at (s # ss) argc require =
     (case char_at s argc of None \<Rightarrow> None | Some c \<Rightarrow> sum_at ss argc (require + c))"

definition probe_main :: "macros \<Rightarrow> nat \<Rightarrow> nat option" where
  "probe_main M argc = do { ss \<leftarrow> read_strings M; _ \<leftarrow> unread_strings M; sum_at ss argc 0 }"

section \<open>Digits\<close>

lemma digit_ok:
  assumes "d < 10"
  shows "isdigit (digit d)" "(of_char (digit d) :: nat) = 48 + d"
  using digit_char [OF assms] by (simp_all add: digit_def)

lemma length_DEC [simp]: "length (DEC n) = 8" "length (HEX n) = 8"
  by (simp_all add: DEC_def HEX_def)

lemma eight_digits:
  fixes n :: nat
  assumes "a1 * 10 + d0 = n" and "a2 * 10 + d1 = a1" and "a3 * 10 + d2 = a2" and "a4 * 10 + d3 = a3"
    and "a5 * 10 + d4 = a4" and "a6 * 10 + d5 = a5" and "a7 * 10 + d6 = a6"
  shows "10000000 * a7 + 1000000 * d6 + 100000 * d5 + 10000 * d4 + 1000 * d3 + 100 * d2 + 10 * d1 + d0 = n"
  using assms by simp

text \<open>\<open>DEC\<close> loses nothing of a number of up to eight digits.\<close>

lemma read_DEC: "n < 10 ^ 8 \<Longrightarrow> read_digits 0 (DEC n) = int n"
proof -
  assume n: "n < 10 ^ 8"
  have "read_digits 0 (DEC n) =
      int (10000000 * (n div 10000000 mod 10) + 1000000 * (n div 1000000 mod 10) + 100000 * (n div 100000 mod 10) +
        10000 * (n div 10000 mod 10) + 1000 * (n div 1000 mod 10) + 100 * (n div 100 mod 10) +
        10 * (n div 10 mod 10) + n mod 10)"
    by (simp add: DEC_def digit_ok)
  also have "10000000 * (n div 10000000 mod 10) + 1000000 * (n div 1000000 mod 10) + 100000 * (n div 100000 mod 10) +
        10000 * (n div 10000 mod 10) + 1000 * (n div 1000 mod 10) + 100 * (n div 100 mod 10) +
        10 * (n div 10 mod 10) + n mod 10 = n"
  proof -
    have step: "n div m * 10 + n div k mod 10 = n div k" if "m = k * 10" for k m
      by (simp only: that div_mult2_eq div_mult_mod_eq)
    have one: "n div 10 * 10 + n mod 10 = n" by (rule div_mult_mod_eq)
    have "n div 10000000 mod 10 = n div 10000000" using n by simp
    then show ?thesis
      using eight_digits [OF one step [of 100 10] step [of 1000 100] step [of 10000 1000] step [of 100000 10000]
          step [of 1000000 100000] step [of 10000000 1000000]] by simp
  qed
  finally show ?thesis .
qed

text \<open>\<open>HEX\<close> writes the sixteen values of a hexadecimal digit as the characters from \<open>0\<close> to \<open>?\<close>, so not as
  hexadecimal digits from ten on; the versions it is used for are binary coded decimals.\<close>

lemma hex_ten: "HEX 0xA = ''0000000:''"
  by (simp add: HEX_def digit_def drop_bit_eq_div char_of_def bit_iff_odd)

section \<open>Which compilers are taken for GNU\<close>

text \<open>The macros of other compilers, any of which selects an earlier branch.\<close>

definition foreign_macros :: "string list" where
  "foreign_macros =
    [''__COMO__'', ''__INTEL_COMPILER'', ''__ICC'', ''__INTEL_LLVM_COMPILER'', ''__PATHCC__'', ''__BORLANDC__'', ''__WATCOMC__'',
     ''__SUNPRO_CC'', ''__HP_aCC'', ''__DECCXX'', ''__IBMCPP__'', ''__clang__'', ''__NVCOMPILER'', ''__PGI'', ''_CRAYC'',
     ''__TI_COMPILER_VERSION__'', ''__CLANG_FUJITSU'', ''__FUJITSU'', ''__ghs__'', ''__TASKING__'', ''__ORANGEC__'',
     ''__SCO_VERSION__'', ''__ARMCC_VERSION'', ''__LCC__'']"

lemma compiler_names [simp]:
  "COMPILER_ID (compiler i) = i"
  "COMPILER_ID (version a b c d) = COMPILER_ID d"
  "COMPILER_ID (simulate_MSVC M d) = COMPILER_ID d"
  "COMPILER_ID (simulate_GNU M d) = COMPILER_ID d"
  by (simp_all add: compiler_def version_def simulate_MSVC_def simulate_GNU_def Let_def)

lemma branch_names [simp]:
  "COMPILER_ID (intel M) = ''Intel''" "COMPILER_ID (intel_llvm M) = ''IntelLLVM''" "COMPILER_ID (sunpro M) = ''SunPro''"
  "COMPILER_ID (ibm_VRP M i) = i" "COMPILER_ID (clang_version M i) = i" "COMPILER_ID (armcc M) = ''ARMCC''"
  "COMPILER_ID (lcc M) = ''LCC''" "COMPILER_ID (msvc M) = ''MSVC''" "COMPILER_ID (iar M) = ''IAR''"
  by (simp_all add: intel_def intel_llvm_def sunpro_def ibm_VRP_def clang_version_def armcc_def lcc_def msvc_def iar_def Let_def)

lemma first_match_skip: "\<forall>(c, x) \<in> set as. \<not> c \<Longrightarrow> first_match d (as @ bs) = first_match d bs"
  by (induction as) auto

lemma first_match_found: "\<exists>(c, x) \<in> set as. c \<Longrightarrow> first_match d (as @ bs) \<in> snd ` set as"
  by (induction d as rule: first_match.induct) force+

lemma first_match_range: "first_match d bs \<in> insert d (snd ` set bs)"
  by (induction d bs rule: first_match.induct) force+

lemma first_match_False: "first_match d (as @ (False, x) # bs) = first_match d (as @ bs)"
  by (induction d as rule: first_match.induct) simp_all

definition before_GNU :: "macros \<Rightarrow> (bool \<times> identification) list" where
  "before_GNU M = compilers_1 M @ compilers_2 M @ take 5 (compilers_3 M)"

definition GNU_version :: "macros \<Rightarrow> identification" where
  "GNU_version M = version (if defd M ''__GNUC__'' then dec M ''__GNUC__'' (\<lambda>v. v) else dec M ''__GNUG__'' (\<lambda>v. v))
     (dec_if M ''__GNUC_MINOR__'') (dec_if M ''__GNUC_PATCHLEVEL__'') (compiler ''GNU'')"

definition after_GNU :: "macros \<Rightarrow> (bool \<times> identification) list" where
  "after_GNU M = drop 6 (compilers_3 M)"

lemma identify_split:
  "identify M = first_match (compiler [])
     (before_GNU M @ (defd M ''__GNUC__'' \<or> defd M ''__GNUG__'', GNU_version M) # after_GNU M)"
  by (simp add: identify_def before_GNU_def after_GNU_def compilers_3_def GNU_version_def)

lemma names_before: "\<forall>(c, i) \<in> set (before_GNU M). COMPILER_ID i \<noteq> ''GNU''"
  by (simp add: before_GNU_def compilers_1_def compilers_2_def compilers_3_def)

lemma names_after: "\<forall>(c, i) \<in> set (after_GNU M). COMPILER_ID i \<noteq> ''GNU''"
  by (simp add: after_GNU_def compilers_3_def)

lemma conditions_before:
  assumes "any_defd M [''__GNUC__'', ''__GNUG__'']"
  shows "(\<exists>(c, i) \<in> set (before_GNU M). c) \<longleftrightarrow> any_defd M foreign_macros"
proof -
  have lcc: "any_defd M [''__GNUC__'', ''__GNUG__'', ''__MCST__'']" using assms by (auto simp: any_defd_def)
  have foreign: "any_defd M foreign_macros \<longleftrightarrow> list_ex (defd M) foreign_macros" by (simp only: any_defd_def)
  show ?thesis
    unfolding foreign
    by (simp add: before_GNU_def compilers_1_def compilers_2_def compilers_3_def lcc foreign_macros_def)
      (cases "defd M ''__clang__''"; cases "defd M ''__IBMCPP__''"; cases "defd M ''__COMPILER_VER__''";
        cases "defd M ''__BORLANDC__''"; cases "defd M ''__WATCOMC__''"; cases "800 \<le> value_in_if M ''__IBMCPP__''"; simp add: not_le)
qed

lemma GNU_branch:
  assumes "any_defd M [''__GNUC__'', ''__GNUG__'']" and "\<not> any_defd M foreign_macros"
  shows "identify M = GNU_version M"
proof -
  have "\<not> (\<exists>(c, i) \<in> set (before_GNU M). c)" using conditions_before [OF assms(1)] assms(2) by blast
  then have "identify M = first_match (compiler [])
      ((defd M ''__GNUC__'' \<or> defd M ''__GNUG__'', GNU_version M) # after_GNU M)"
    unfolding identify_split by (intro first_match_skip) blast
  then show ?thesis using assms(1) by (simp add: any_defd_def)
qed

lemma GNU_iff:
  "COMPILER_ID (identify M) = ''GNU'' \<longleftrightarrow> any_defd M [''__GNUC__'', ''__GNUG__''] \<and> \<not> any_defd M foreign_macros"
proof (cases "any_defd M [''__GNUC__'', ''__GNUG__'']")
  case True
  show ?thesis
  proof (cases "any_defd M foreign_macros")
    case foreign: True
    then have "\<exists>(c, i) \<in> set (before_GNU M). c" using conditions_before [OF True] by blast
    from first_match_found [OF this] names_before [of M] have "COMPILER_ID (identify M) \<noteq> ''GNU''"
      unfolding identify_split by (force simp: case_prod_beta)
    with foreign show ?thesis by blast
  next
    case False
    then show ?thesis using GNU_branch [OF True] True by (simp add: GNU_version_def)
  qed
next
  case False
  then have "identify M = first_match (compiler []) (before_GNU M @ (False, GNU_version M) # after_GNU M)"
    unfolding identify_split by (simp add: any_defd_def)
  then have "identify M = first_match (compiler []) (before_GNU M @ after_GNU M)"
    by (simp add: first_match_False)
  then have "COMPILER_ID (identify M) \<noteq> ''GNU''"
    using first_match_range [of "compiler []" "before_GNU M @ after_GNU M"] names_before [of M] names_after [of M]
    by (auto simp: case_prod_beta)
  then show ?thesis using False by blast
qed

section \<open>Reading the strings\<close>

lemma sum_at_defined: "(\<exists>r. sum_at ss argc require = Some r) \<longleftrightarrow> (\<forall>s \<in> set ss. argc \<le> length s)"
  by (induction ss argc require rule: sum_at.induct) (auto simp: char_at_def split: option.splits)

lemma length_bracketed [simp]: "length (bracketed name s) = length name + length s + 7"
  by (simp add: bracketed_def)

lemma optional_info:
  "optional c (info_array name cs) = Some ss \<Longrightarrow> s \<in> set ss \<Longrightarrow> length name + 7 \<le> length s"
  by (auto simp: optional_def info_array_def split: if_splits)

lemma read_strings_long:
  assumes "read_strings M = Some ss"
  shows "\<forall>s \<in> set ss. 11 \<le> length s"
proof -
  let ?i = "identify M"
  have cpp: "defd M ''__cplusplus''" using assms by (auto simp: read_strings_def Let_def split: if_splits)
  obtain v i m where
    v: "optional (MAJOR ?i \<noteq> Absent) (info_array ''compiler_version'' [MAJOR ?i, MINOR ?i, PATCH ?i, TWEAK ?i]) = Some v"
    and i: "optional (INTERNAL ?i \<noteq> Absent) (info_array ''compiler_version_internal'' [INTERNAL ?i]) = Some i"
    and m: "optional (SIM_MAJOR ?i \<noteq> Absent) (info_array ''simulate_version'' [SIM_MAJOR ?i, SIM_MINOR ?i, SIM_PATCH ?i]) = Some m"
    and parts: "ss =
      [bracketed ''compiler'' (COMPILER_ID ?i), bracketed ''platform'' (platform_id M), bracketed ''arch'' (architecture_id M)] @
      v @ i @ (case SIMULATE_ID ?i of None \<Rightarrow> [] | Some s \<Rightarrow> [bracketed ''simulate'' s]) @ m @
      (if defd M ''__CRAYXT_COMPUTE_LINUX_TARGET'' then [bracketed ''compiler_wrapper'' ''CrayPrgEnv''] else []) @
      [bracketed ''standard_default'' (standard_default (cxx_std M)), bracketed ''extensions_default'' (extensions_default M)]"
    using assms cpp unfolding read_strings_def Let_def by (auto simp: bind_eq_Some_conv)
  have "\<forall>s \<in> set v \<union> set i \<union> set m. 11 \<le> length s"
    using optional_info [OF v] optional_info [OF i] optional_info [OF m] by fastforce
  then show ?thesis unfolding parts by (auto split: option.splits)
qed

section \<open>Properties\<close>

text \<open>C40. The probe takes a compiler for GNU exactly when it defines \<open>__GNUC__\<close> or \<open>__GNUG__\<close> and none of the macros
  that identify the compilers tested before; and what it then reports is the version of that compiler: reading the
  digits back gives the three numbers the compiler defines.\<close>

theorem gnu_identified:
  "(COMPILER_ID (identify M) = ''GNU'' \<longleftrightarrow> any_defd M [''__GNUC__'', ''__GNUG__''] \<and> \<not> any_defd M foreign_macros) \<and>
   (COMPILER_ID (identify M) = ''GNU'' \<and> defd M ''__cplusplus'' \<and> M ''__GNUC__'' = Some (Number v) \<and>
      M ''__GNUC_MINOR__'' = Some (Number r) \<and> M ''__GNUC_PATCHLEVEL__'' = Some (Number p) \<and>
      v < 10 ^ 8 \<and> r < 10 ^ 8 \<and> p < 10 ^ 8 \<longrightarrow>
    (\<exists>ss a b c. probe_strings M = Some ss \<and> ''INFO:compiler[GNU]'' \<in> set ss \<and>
      bracketed ''compiler_version'' (a @ ''.'' @ b @ ''.'' @ c) \<in> set ss \<and>
      map (read_digits 0) [a, b, c] = [int v, int r, int p]))"
proof (intro conjI impI)
  show "COMPILER_ID (identify M) = ''GNU'' \<longleftrightarrow> any_defd M [''__GNUC__'', ''__GNUG__''] \<and> \<not> any_defd M foreign_macros"
    by (rule GNU_iff)
  assume M: "COMPILER_ID (identify M) = ''GNU'' \<and> defd M ''__cplusplus'' \<and> M ''__GNUC__'' = Some (Number v) \<and>
      M ''__GNUC_MINOR__'' = Some (Number r) \<and> M ''__GNUC_PATCHLEVEL__'' = Some (Number p) \<and>
      v < 10 ^ 8 \<and> r < 10 ^ 8 \<and> p < 10 ^ 8"
  then have "identify M = GNU_version M" using GNU_iff [of M] GNU_branch [of M] by blast
  then have id: "identify M = version (Digits (DEC v)) (Digits (DEC r)) (Digits (DEC p)) (compiler ''GNU'')"
    using M by (simp add: GNU_version_def dec_if_def dec_def defd_def number_def)
  have "map (read_digits 0) [DEC v, DEC r, DEC p] = [int v, int r, int p]" using M by (simp add: read_DEC)
  moreover obtain ss where "probe_strings M = Some ss" and "''INFO:compiler[GNU]'' \<in> set ss"
      "bracketed ''compiler_version'' (DEC v @ ''.'' @ DEC r @ ''.'' @ DEC p) \<in> set ss"
    using M by (simp add: probe_strings_def read_strings_def unread_strings_def id version_def compiler_def
        optional_def info_array_def bracketed_def Let_def)
  ultimately show "\<exists>ss a b c. probe_strings M = Some ss \<and> ''INFO:compiler[GNU]'' \<in> set ss \<and>
      bracketed ''compiler_version'' (a @ ''.'' @ b @ ''.'' @ c) \<in> set ss \<and>
      map (read_digits 0) [a, b, c] = [int v, int r, int p]"
    by (intro exI [of _ ss] exI conjI)
qed

text \<open>The witness: the compiler that built the repository, GNU 13.3.0 on Linux with C++17 as its default, as
  \<open>CMakeCXXCompiler.cmake\<close> beside the probe records it.\<close>

theorem gnu_identified_witness:
  "let M = [''__GNUC__'' \<mapsto> Number 13, ''__GNUC_MINOR__'' \<mapsto> Number 3, ''__GNUC_PATCHLEVEL__'' \<mapsto> Number 0,
       ''__linux__'' \<mapsto> Number 1, ''__x86_64__'' \<mapsto> Number 1, ''__cplusplus'' \<mapsto> Number 201703]
   in COMPILER_ID (identify M) = ''GNU'' \<and> platform_id M = ''Linux'' \<and> standard_default (cxx_std M) = ''17'' \<and>
     (\<exists>ss a b c. probe_strings M = Some ss \<and> ''INFO:compiler[GNU]'' \<in> set ss \<and>
        bracketed ''compiler_version'' (a @ ''.'' @ b @ ''.'' @ c) \<in> set ss \<and>
        map (read_digits 0) [a, b, c] = [int 13, int 3, int 0])"
proof -
  let ?M = "[''__GNUC__'' \<mapsto> Number 13, ''__GNUC_MINOR__'' \<mapsto> Number 3, ''__GNUC_PATCHLEVEL__'' \<mapsto> Number 0,
       ''__linux__'' \<mapsto> Number 1, ''__x86_64__'' \<mapsto> Number 1, ''__cplusplus'' \<mapsto> Number 201703]"
  have "any_defd ?M [''__GNUC__'', ''__GNUG__'']" "\<not> any_defd ?M foreign_macros" "defd ?M ''__cplusplus''"
    "platform_id ?M = ''Linux''" "standard_default (cxx_std ?M) = ''17''"
    by (simp_all add: any_defd_def defd_def foreign_macros_def platform_id_def cxx_std_def standard_default_def
        value_in_if_def number_def)
  note facts = this
  have gnu: "COMPILER_ID (identify ?M) = ''GNU''" using gnu_identified [of ?M] facts(1,2) by blast
  have "COMPILER_ID (identify ?M) = ''GNU'' \<and> defd ?M ''__cplusplus'' \<and> ?M ''__GNUC__'' = Some (Number 13) \<and>
      ?M ''__GNUC_MINOR__'' = Some (Number 3) \<and> ?M ''__GNUC_PATCHLEVEL__'' = Some (Number 0) \<and>
      (13 :: nat) < 10 ^ 8 \<and> (3 :: nat) < 10 ^ 8 \<and> (0 :: nat) < 10 ^ 8"
    using gnu facts(3) by simp
  from mp [OF conjunct2 [OF gnu_identified [of ?M 13 3 0]] this]
  show ?thesis unfolding Let_def by (intro conjI gnu facts(4,5))
qed

text \<open>\<open>main\<close> reads the element \<open>argc\<close> of each string: for at most eleven arguments that is within every string,
  whatever the compiler, so the probe returns; and it returns exactly when \<open>argc\<close> is not beyond the
  terminating zero of the shortest string, which for an unknown architecture is at eleven.\<close>

lemma probe_in_bounds:
  assumes "probe_strings M = Some ss"
  shows "(argc \<le> 11 \<longrightarrow> (\<exists>r. probe_main M argc = Some r)) \<and>
    (\<exists>read. read_strings M = Some read \<and> ((\<exists>r. probe_main M argc = Some r) \<longleftrightarrow> (\<forall>s \<in> set read. argc \<le> length s))) \<and>
    (architecture_id M = [] \<and> 11 < argc \<longrightarrow> probe_main M argc = None)"
proof -
  obtain read unread where strings: "read_strings M = Some read" "unread_strings M = Some unread" "ss = read @ unread"
    using assms by (auto simp: probe_strings_def bind_eq_Some_conv)
  have main: "probe_main M argc = sum_at read argc 0" by (simp add: probe_main_def strings)
  have "\<forall>s \<in> set read. 11 \<le> length s" using read_strings_long [OF strings(1)] .
  moreover have "architecture_id M = [] \<Longrightarrow> ''INFO:arch[]'' \<in> set read"
    using strings(1) by (auto simp: read_strings_def bracketed_def Let_def bind_eq_Some_conv split: if_splits)
  ultimately show ?thesis
    using sum_at_defined [of read argc 0] strings(1) unfolding main by (fastforce simp: not_le)
qed

lemma probe_in_bounds_witness:
  "\<exists>r. probe_main [''__GNUC__'' \<mapsto> Number 13, ''__cplusplus'' \<mapsto> Number 201703] 1 = Some r"
proof -
  let ?M = "[''__GNUC__'' \<mapsto> Number 13, ''__cplusplus'' \<mapsto> Number 201703]"
  have "any_defd ?M [''__GNUC__'', ''__GNUG__'']" "\<not> any_defd ?M foreign_macros"
    by (simp_all add: any_defd_def defd_def foreign_macros_def)
  from GNU_branch [OF this] obtain ss where "probe_strings ?M = Some ss"
    by (simp add: probe_strings_def read_strings_def unread_strings_def GNU_version_def version_def compiler_def
        optional_def info_array_def dec_if_def dec_def number_def defd_def Let_def)
  from probe_in_bounds [OF this, of 1] show ?thesis by simp
qed

end
