(* ===== verification/Spec2Isabelle.thy ===== *)
theory Spec2Isabelle
  imports Lob_Demo Lob_Wf Lob_Queue_Threads Net_Client Net_Main Net_Stop Net_Release Net_Session_Log Net_Answers Tests CMake_Probe
begin

text \<open>
  A verification library for the two C++ programs of the repository: the limit order book
  \<open>src/02_LOB_Engine\<close> (namespace \<open>lob\<close>) and the message server \<open>src/01_AsyncNet_Server\<close>
  (namespace \<open>asyncnet\<close>). Theories \<open>Lob_*\<close> model the first, \<open>Net_*\<close> the second; \<open>Prelude\<close>
  (word types and generic lemmas) and \<open>Text_Out\<close> (what is used of output streams) serve both, \<open>Fifo\<close> (what
  a bounded queue is) the first. Text is modelled as the list of its lines.

  \<^bold>\<open>The order book.\<close> \<open>OrderBook\<close> keeps two ordered maps from prices to levels, a hash map from ids to
  orders, and two object pools; each level is a doubly linked list threaded through the orders of
  its pool. The model keeps this shape: a pool is a store from slot numbers to values with a free list, a pointer
  is a slot number, and every write through a pointer is an update of the store.

  \<^item> \<open>Lob_Types\<close>: \<open>Types.hpp\<close>, \<open>Order.hpp\<close>. \<open>Lob_Map\<close>: \<open>std::map\<close> under a comparator; the
    locale \<open>comparator\<close> proves its laws once and is interpreted for bids and asks together.
  \<^item> \<open>Lob_Pool\<close>: \<open>ObjectPool.hpp\<close>, with the contract of a pool of slots as the locale
    \<open>slot_pool\<close>. \<open>Lob_PriceLevel\<close>: \<open>PriceLevel.hpp\<close>; \<open>level_ok\<close> ties a level to the list of its
    slots, and \<open>append\<close> and \<open>remove\<close> are proved against it.
  \<^item> \<open>Lob_Book\<close>: \<open>OrderBook.hpp\<close> and \<open>OrderBook.cpp\<close>, operation by operation. The inner matching
    loop follows \<open>next\<close> pointers, so it is a \<open>partial_function (option)\<close>, and that it ends is a
    theorem (\<open>every_run_returns\<close>). The outer loops recurse over the rest of the map.
  \<^item> \<open>Lob_Spec\<close>: the specification, a book as two lists of resting orders in priority order, an incoming
    order as a sweep over the other side. \<open>Lob_Layout\<close> relates the two: \<open>layout_ok b G F\<close> says that book
    \<open>b\<close> has the levels and queues \<open>G\<close>, that the slots in use are exactly those and the leaked
    ones \<open>F\<close>, and that the id map is exact; \<open>abs_book\<close> computes the abstract book.
  \<^item> \<open>Lob_Moves\<close>, \<open>Lob_Match\<close>, \<open>Lob_Loops\<close>, \<open>Lob_Correct\<close>, \<open>Lob_Add\<close>, \<open>Lob_Cancel\<close>: each elementary
    change of the book on the layout, one fill, the loops, and the operations; \<open>addOrder_cases\<close>
    and \<open>cancelOrder_ok\<close> are what the rest uses. \<open>Lob_Account\<close>: slots, counts and quotes.
    \<open>Lob_Run\<close>: sequences of calls.
  \<^item> \<open>Lob_Wf\<close>: \<open>wf_book\<close> inspects a book by following its pointers, with no layout and no
    specification; every reachable book passes. \<open>Lob_Props\<close> and \<open>Lob_Market\<close> hold the properties; \<open>Lob_Demo\<close> the market depth of \<open>printBook\<close>,
    the demonstration program with the text it writes (\<open>lob_main_shows\<close>) and the benchmark.
  \<^item> \<open>Lob_Queue\<close>: \<open>LockFreeQueue.hpp\<close> called by one thread, an interpretation of the locale
    \<open>bounded_fifo\<close>. \<open>Lob_Queue_Threads\<close>: one producer and one consumer, every atomic access a step of its own, with stale reads
    of the other thread's index; a thread inside a call has at most three more steps in it (\<open>ring_wait_free\<close>).

  \<^bold>\<open>The server.\<close> \<open>Server\<close> accepts connections, each a \<open>Session\<close> whose handlers run on a strand;
  \<open>SessionManager\<close> is the registry they share; \<open>Protocol\<close> encodes packets.

  \<^item> \<open>Net_Protocol\<close>: \<open>Common.hpp\<close>, \<open>Protocol.cpp\<close>; \<open>le\<close> is the byte order of the host. \<open>Net_Frame\<close>: reading
    frames off a byte stream, and \<open>serve\<close>, the specification of a session: the responses a
    stream calls for. The locale \<open>self_delimiting\<close> is interpreted by the frames.
  \<^item> \<open>Net_Registry\<close>: \<open>SessionManager.cpp\<close>, and what sessions and server rely on as the locale \<open>registry\<close>.
  \<^item> \<open>Net_Session\<close>: \<open>Session.cpp\<close>, one definition per method and per completion
    handler, and the step relation \<open>own_step\<close> of a session with its environment. \<open>Net_Session_Correct\<close>: the invariant of its
    writer, its output and its reader. \<open>Net_Session_Props\<close>: its properties, and a run. \<open>Net_Session_Log\<close>: its
    log. \<open>Net_Answers\<close>: that it answers all of a stream, by a measure that every step without an error decreases, and
    what a request to disconnect cuts off. \<open>Net_Release\<close>: its lifetime, by the shared pointers that own it (\<open>session_owners\<close>).
  \<^item> \<open>Net_Server\<close>: \<open>Server.cpp\<close>. The handlers of the workers interleave with the statements of the calls of \<open>stop\<close>
    (\<open>server_step\<close>; \<open>stop_calls\<close> says which threads are inside one); \<open>stop_server\<close> is one call without
    interleaving. \<open>Net_Stop\<close>: calls of \<open>stop\<close> return, by a measure that every step decreases once the loop is
    stopped, two of them can collide, and a server cannot be started again. \<open>Net_Server_Correct\<close>: every
    connection of a reachable server is in a reachable state of its session, so what was proved
    for one session holds for all. \<open>Net_Server_Props\<close>: the properties.
  \<^item> \<open>Net_Logger\<close>: \<open>Logger.hpp\<close>; sessions, registry and server keep their log calls (\<open>logged\<close>, \<open>reg_logged\<close>, \<open>srv_logged\<close>), and
    \<open>write_log\<close> passes them to the logger. \<open>Net_Main\<close>: \<open>main.cpp\<close>. \<open>Net_Client\<close>: \<open>BenchmarkClient.cpp\<close>, with the server as a
    parameter: an arbitrary one in \<open>client_accounts\<close>, one that answers by \<open>serve\<close> in \<open>client_completes\<close>.
    \<open>Net_Atoi\<close>: \<open>std::atoi\<close>.

  \<^bold>\<open>Around them.\<close> \<open>Tests\<close>: the test programs of both, run on the model. \<open>CMake_Probe\<close>: the compiler probe that CMake
  left in both build trees, as a function of the macros a compiler predefines.

  \<^bold>\<open>Bounds.\<close> Integers have the widths of the code: prices and ids 64 bits, quantities 32 bits, counters 64
  bits, all wrapping. \<open>run_refines_spec\<close> and \<open>best_quotes_exact\<close> are for up to 10,000 calls, the
  capacity of the level pool: so many calls cannot exhaust either pool, whatever they are. \<open>every_run_returns\<close>
  and \<open>book_never_crosses\<close> have no bound. The quotes are exact while the submitted
  quantities add up to less than \<open>2 ^ 32\<close>, and \<open>level_volume_wraps\<close> shows that a bound is needed.
  A call of \<open>stop\<close> has at most eleven steps left and two per worker; a stopped session at most five per queued
  handler and six; a session without errors at most three per byte of the stream it is sent.

  \<^bold>\<open>Assumed.\<close> Of Asio: an operation ends once, a read or write succeeds only with all its bytes, a strand runs its handlers
  in order, no handler starts once the loop is stopped. Of the standard library: maps, vectors and atomics
  behave as documented, \<open>join\<close> on the own thread throws. The owner of a server does not call \<open>start\<close> during a \<open>stop\<close>, and no signal is
  handled during a \<open>start\<close>. A server of the load generator that sends no more closes its connection. Clock, local time and thread ids are arguments. A
  \<open>double\<close> is the rational number it stands for, so sums and quotients of measured times are exact.

  \<^bold>\<open>Not modelled.\<close> Which interleaving of the log calls of different threads comes out
  (\<open>visible_shuffles\<close> holds for all); rounding of \<open>double\<close>; the usual failures of memory allocation; the
  build files and what else CMake and make wrote under \<open>build/\<close>.
\<close>

end
